(* ===== verification/Prelude.thy ===== *)
theory Prelude
  imports Main "HOL-Library.Word" "HOL-Library.Monad_Syntax" "HOL-Library.Char_ord"
    "HOL-Library.List_Lexorder"
begin

text \<open>
  Shared vocabulary of the development.

  \<^item> Types: bytes are \<open>8 word\<close>, C strings are \<open>string\<close> values without their terminating
    NUL, and a C computation whose behaviour may be undefined (an out-of-range access, a NULL
    dereference) has type \<open>'a ub\<close>, with \<open>None\<close> for the undefined case.
  \<^item> C library functions that several components call: bounded reads, \<open>strtol\<close>, decimal
    printing, \<open>strtok\<close>.
  \<^item> Generic lemmas on lists, options and words, and the named collections that the component
    theories extend.
\<close>

type_synonym byte = "8 word"
type_synonym u32 = "32 word"
type_synonym 'a ub = "'a option"

named_theorems ub_simps \<open>evaluation rules for computations that may be undefined\<close>
named_theorems segment_simps \<open>rules for sub-ranges of a byte array\<close>

section \<open>Bounded array accesses\<close>

definition nth_ub :: "'a list \<Rightarrow> nat \<Rightarrow> 'a ub" where
  "nth_ub xs i = (if i < length xs then Some (xs ! i) else None)"

definition segment :: "'a list \<Rightarrow> nat \<Rightarrow> nat \<Rightarrow> 'a list" where
  "segment xs off len = take len (drop off xs)"

definition segment_ub :: "'a list \<Rightarrow> nat \<Rightarrow> nat \<Rightarrow> 'a list ub" where
  "segment_ub xs off len = (if off + len \<le> length xs then Some (segment xs off len) else None)"

section \<open>Signed offsets\<close>

text \<open>The result of a signed 32-bit operation: undefined when it leaves the range.\<close>

definition i32_ok :: "int \<Rightarrow> bool" where
  "i32_ok x \<longleftrightarrow> - (2 ^ 31) \<le> x \<and> x < 2 ^ 31"

definition i32 :: "int \<Rightarrow> int ub" where
  "i32 x = (if i32_ok x then Some x else None)"

section \<open>Little-endian values\<close>

definition byte_val :: "byte list \<Rightarrow> nat \<Rightarrow> nat" where
  "byte_val bs i = unat (bs ! i)"

definition le16 :: "byte list \<Rightarrow> nat \<Rightarrow> nat" where
  "le16 bs p = byte_val bs p + 256 * byte_val bs (p + 1)"

definition le32 :: "byte list \<Rightarrow> nat \<Rightarrow> nat" where
  "le32 bs p = byte_val bs p + 256 * byte_val bs (p + 1) +
     65536 * byte_val bs (p + 2) + 16777216 * byte_val bs (p + 3)"

section \<open>C string library\<close>

definition isspace :: "char \<Rightarrow> bool" where
  "isspace c \<longleftrightarrow> c = CHR '' '' \<or> (9 \<le> (of_char c :: nat) \<and> (of_char c :: nat) \<le> 13)"

definition isdigit :: "char \<Rightarrow> bool" where
  "isdigit c \<longleftrightarrow> 48 \<le> (of_char c :: nat) \<and> (of_char c :: nat) \<le> 57"

fun digits_val :: "nat \<Rightarrow> string \<Rightarrow> nat" where
  "digits_val acc [] = acc"
| "digits_val acc (c # cs) = digits_val (10 * acc + (of_char c - 48)) cs"

definition LONG_MAX :: int where
  "LONG_MAX = 2 ^ 31 - 1"

definition LONG_MIN :: int where
  "LONG_MIN = - (2 ^ 31)"

definition saturate :: "int \<Rightarrow> int" where
  "saturate v = max LONG_MIN (min LONG_MAX v)"

text \<open>\<open>strtol(s, &end, 10)\<close>: the value and the unread rest of the string.\<close>

definition strtol :: "string \<Rightarrow> int \<times> string" where
  "strtol s =
     (let t = dropWhile isspace s;
          neg = (t \<noteq> [] \<and> hd t = CHR ''-'');
          u = (if t \<noteq> [] \<and> (hd t = CHR ''-'' \<or> hd t = CHR ''+'') then tl t else t);
          ds = takeWhile isdigit u;
          v = int (digits_val 0 ds)
      in if ds = [] then (0, s)
         else (saturate (if neg then - v else v), dropWhile isdigit u))"

fun show_nat :: "nat \<Rightarrow> string" where
  "show_nat n =
     (if n < 10 then [char_of (48 + n)] else show_nat (n div 10) @ [char_of (48 + n mod 10)])"

declare show_nat.simps [simp del]

definition show_int :: "int \<Rightarrow> string" where
  "show_int i = (if i < 0 then CHR ''-'' # show_nat (nat (- i)) else show_nat (nat i))"

definition newline :: char where
  "newline = CHR 0x0A"

text \<open>\<open>strstr(haystack, needle)\<close> as a test: does \<open>needle\<close> occur in \<open>haystack\<close>?\<close>

fun strstr :: "string \<Rightarrow> string \<Rightarrow> bool" where
  "strstr [] needle = (needle = [])"
| "strstr (c # cs) needle = (take (length needle) (c # cs) = needle \<or> strstr cs needle)"

text \<open>\<open>strtok\<close>: the next token and the text after it, or \<open>None\<close> for NULL.\<close>

definition strtok :: "string \<Rightarrow> string \<Rightarrow> (string \<times> string) option" where
  "strtok delims s =
     (let t = dropWhile (\<lambda>c. c \<in> set delims) s in
      if t = [] then None
      else Some (takeWhile (\<lambda>c. c \<notin> set delims) t, drop 1 (dropWhile (\<lambda>c. c \<notin> set delims) t)))"

section \<open>Generic lemmas\<close>

lemma i32_Some [simp]: "i32 x = Some y \<longleftrightarrow> i32_ok x \<and> y = x"
  by (auto simp: i32_def)

lemma nth_ub_Some [simp]: "nth_ub xs i = Some x \<longleftrightarrow> i < length xs \<and> x = xs ! i"
  by (auto simp: nth_ub_def)

lemma nth_ub_None [simp]: "nth_ub xs i = None \<longleftrightarrow> length xs \<le> i"
  by (auto simp: nth_ub_def)

lemma nth_ub_Cons_0 [simp]: "nth_ub (x # xs) 0 = Some x"
  by simp

lemma nth_ub_Cons_Suc [simp]: "nth_ub (x # xs) (Suc i) = nth_ub xs i"
  by (simp add: nth_ub_def)

lemma nth_ub_Cons_numeral [simp]: "nth_ub (x # xs) (numeral n) = nth_ub xs (pred_numeral n)"
  by (simp add: numeral_eq_Suc)

lemma nth_ub_append_right: "length xs \<le> j \<Longrightarrow> nth_ub (xs @ ys) j = nth_ub ys (j - length xs)"
  by (auto simp: nth_ub_def nth_append)

lemma length_segment [simp]: "length (segment xs off len) = min len (length xs - off)"
  by (simp add: segment_def)

lemma segment_0 [simp]: "segment xs off 0 = []"
  by (simp add: segment_def)

lemma segment_append_right: "off = length xs \<Longrightarrow> segment (xs @ ys) off len = take len ys"
  by (simp add: segment_def)

lemma segment_add: "segment xs off (m + n) = segment xs off m @ segment xs (off + m) n"
  by (simp add: segment_def take_add add.commute)

lemma segment_Suc: "off < length xs \<Longrightarrow> segment xs off (Suc n) = xs ! off # segment xs (off + 1) n"
  by (simp add: segment_def Cons_nth_drop_Suc [symmetric])

lemma nth_segment: "i < len \<Longrightarrow> off + len \<le> length xs \<Longrightarrow> segment xs off len ! i = xs ! (off + i)"
  by (simp add: segment_def)

lemma segment_ub_Some [simp]:
  "segment_ub xs off len = Some ys \<longleftrightarrow> off + len \<le> length xs \<and> ys = segment xs off len"
  by (auto simp: segment_ub_def)

lemma byte_val_lt [simp]: "byte_val bs i < 256"
  using unsigned_less [where 'a = nat and w = "bs ! i"] by (simp add: byte_val_def)

lemma le16_lt: "le16 bs p < 2 ^ 16"
  using byte_val_lt [of bs p] byte_val_lt [of bs "p + 1"] by (simp add: le16_def del: byte_val_lt)

lemma le32_lt: "le32 bs p < 2 ^ 32"
  using byte_val_lt [of bs p] byte_val_lt [of bs "p + 1"] byte_val_lt [of bs "p + 2"]
    byte_val_lt [of bs "p + 3"] by (simp add: le32_def del: byte_val_lt)

lemma unat_of_nat_u32: "n < 2 ^ 32 \<Longrightarrow> unat (of_nat n :: u32) = n"
  by (simp add: unsigned_of_nat take_bit_nat_eq_self)

lemma bind_eq_SomeE:
  assumes "Option.bind m f = Some r"
  obtains x where "m = Some x" and "f x = Some r"
  using assms by (cases m) auto

lemma strstr_iff: "strstr hay needle \<longleftrightarrow> (\<exists>pre post. hay = pre @ needle @ post)"
proof (induction hay)
  case Nil
  show ?case by auto
next
  case (Cons c cs)
  have "take (length needle) (c # cs) = needle \<longleftrightarrow> (\<exists>post. c # cs = needle @ post)"
    by (metis append_eq_conv_conj append_take_drop_id)
  moreover have "(\<exists>pre post. c # cs = pre @ needle @ post) \<longleftrightarrow>
      (\<exists>post. c # cs = needle @ post) \<or> (\<exists>pre post. cs = pre @ needle @ post)"
    by (metis append_Cons append_Nil list.sel(3) neq_Nil_conv)
  ultimately show ?case using Cons.IH by simp
qed

section \<open>Decimal printing and reading back\<close>

lemma of_char_digit [simp]: "d < 10 \<Longrightarrow> of_char (char_of (48 + d) :: char) = (48 + d :: nat)"
  by simp

lemma isdigit_digit [simp]: "d < 10 \<Longrightarrow> isdigit (char_of (48 + d :: nat))"
  by (simp add: isdigit_def)

lemma digits_val_append: "digits_val acc (xs @ ys) = digits_val (digits_val acc xs) ys"
  by (induction acc xs rule: digits_val.induct) auto

lemma show_nat_digits: "\<forall>c \<in> set (show_nat n). isdigit c"
proof (induction n rule: show_nat.induct)
  case (1 n)
  then show ?case
    by (cases "n < 10") (auto simp: show_nat.simps [of n])
qed

lemma show_nat_not_Nil [simp]: "show_nat n \<noteq> []"
  by (simp add: show_nat.simps [of n])

lemma digits_val_show_nat [simp]: "digits_val 0 (show_nat n) = n"
proof (induction n rule: show_nat.induct)
  case (1 n)
  then show ?case
    by (cases "n < 10") (simp_all add: show_nat.simps [of n] digits_val_append)
qed

lemma digit_char_facts:
  assumes "isdigit c"
  shows "\<not> isspace c" and "c \<noteq> CHR ''-''" and "c \<noteq> CHR ''+''"
  using assms by (auto simp: isdigit_def isspace_def)

lemma takeWhile_show_nat [simp]:
  "takeWhile isdigit (show_nat n) = show_nat n" "dropWhile isdigit (show_nat n) = []"
  using show_nat_digits by (simp_all add: takeWhile_eq_all_conv dropWhile_eq_Nil_conv)

lemma hd_show_nat: "isdigit (hd (show_nat n))"
  using show_nat_digits [of n] by simp

lemma strtol_show_int:
  assumes "LONG_MIN \<le> i" and "i \<le> LONG_MAX"
  shows "strtol (show_int i) = (i, [])"
proof -
  have sat: "saturate i = i"
    using assms by (simp add: saturate_def)
  have ws: "dropWhile isspace (show_nat n) = show_nat n" for n
    using digit_char_facts(1) [OF hd_show_nat [of n]] by (cases "show_nat n") auto
  show ?thesis
  proof (cases "i < 0")
    case True
    then show ?thesis
      using sat by (simp add: strtol_def show_int_def isspace_def Let_def)
  next
    case False
    then show ?thesis
      using sat digit_char_facts(2,3) [OF hd_show_nat [of "nat i"]]
      by (simp add: strtol_def show_int_def ws Let_def)
  qed
qed

end
