(* ===== verification/Edify.thy ===== *)
theory Edify
  imports Prelude
begin

text \<open>
  The edify expression interpreter (\<^verbatim>\<open>edify/expr.c\<close>, \<^verbatim>\<open>edify/expr.h\<close>).

  An expression carries a function, a name, its argument expressions and its source range.
  A C function of the interpreter sees its arguments only through \<open>Evaluate\<close>,
  \<open>EvaluateValue\<close> and the fields \<open>start\<close> and \<open>end\<close>, so an argument is modelled as an
  \<open>arg\<close>: its evaluation as a state transformer, and its range.  A NULL \<open>Value*\<close> or
  \<open>char*\<close> is \<open>None\<close> in the result; reading \<open>argv\<close> out of range is the undefined outcome.
  Functions registered by other programs are the parameter \<open>ext\<close>.  The data of a blob without data (NULL, size \<open>-1\<close>) is
  empty here, and the lengths of strings stay below \<open>2 ^ 31\<close>.
\<close>

section \<open>Values, states, expressions\<close>

definition VAL_STRING :: int where "VAL_STRING = 1"

definition VAL_BLOB :: int where "VAL_BLOB = 2"

record evalue =
  vtype :: int
  vsize :: int
  vdata :: string

record 'c estate =
  cookie :: 'c
  script :: string
  errmsg :: "string option"
  stdout :: string
  slept :: "int list"

type_synonym ('a, 'c) evaluation = "'c estate \<Rightarrow> ('a option \<times> 'c estate) ub"

datatype 'c arg = Arg (arg_eval: "(evalue, 'c) evaluation") (arg_start: int) (arg_end: int)

type_synonym 'c fn_type = "string \<Rightarrow> 'c estate \<Rightarrow> 'c arg list \<Rightarrow> (evalue option \<times> 'c estate) ub"

datatype efn =
    FLiteral | FConcat | FIfElse | FAbort | FAssert | FSleep | FStdout
  | FLogicalAnd | FLogicalOr | FLogicalNot | FSubstring | FEquality | FInequality
  | FSequence | FLessThanInt | FGreaterThanInt | FExt nat

datatype expr =
  Expr (e_fn: efn) (e_name: string) (e_argv: "expr list") (e_start: int) (e_end: int)

section \<open>Strings, values and errors\<close>

definition BooleanString :: "string \<Rightarrow> bool" where
  "BooleanString s \<longleftrightarrow> s \<noteq> []"

definition StringValue :: "string option \<Rightarrow> evalue option" where
  "StringValue str =
     (case str of None \<Rightarrow> None
      | Some s \<Rightarrow> Some \<lparr>vtype = VAL_STRING, vsize = int (length s), vdata = s\<rparr>)"

text \<open>The format and its arguments are already rendered as \<open>msg\<close>; the buffer has 4096 bytes.\<close>

definition ErrorAbort :: "'c estate \<Rightarrow> string \<Rightarrow> 'c estate" where
  "ErrorAbort state msg = state\<lparr>errmsg := Some (take 4095 msg)\<rparr>"

definition Evaluate :: "'c estate \<Rightarrow> 'c arg \<Rightarrow> (string option \<times> 'c estate) ub" where
  "Evaluate state a = do {
     (v, state) \<leftarrow> arg_eval a state;
     case v of
       None \<Rightarrow> Some (None, state)
     | Some v \<Rightarrow>
         if vtype v \<noteq> VAL_STRING
         then Some (None, ErrorAbort state
                (''expecting string, got value type '' @ show_int (vtype v)))
         else Some (Some (vdata v), state)}"

section \<open>Reading arguments\<close>

fun ReadVarArgs :: "'c estate \<Rightarrow> 'c arg list \<Rightarrow> (string list option \<times> 'c estate) ub" where
  "ReadVarArgs state [] = Some (Some [], state)"
| "ReadVarArgs state (a # as) = do {
     (s, state) \<leftarrow> Evaluate state a;
     case s of
       None \<Rightarrow> Some (None, state)
     | Some s \<Rightarrow> do {
         (rest, state) \<leftarrow> ReadVarArgs state as;
         Some (map_option (Cons s) rest, state)}}"

fun ReadValueVarArgs :: "'c estate \<Rightarrow> 'c arg list \<Rightarrow> (evalue list option \<times> 'c estate) ub" where
  "ReadValueVarArgs state [] = Some (Some [], state)"
| "ReadValueVarArgs state (a # as) = do {
     (v, state) \<leftarrow> arg_eval a state;
     case v of
       None \<Rightarrow> Some (None, state)
     | Some v \<Rightarrow> do {
         (rest, state) \<leftarrow> ReadValueVarArgs state as;
         Some (map_option (Cons v) rest, state)}}"

text \<open>
  \<open>ReadArgs\<close> evaluates \<open>argv[0], \<dots>, argv[count-1]\<close>; an \<open>argv\<close> shorter than \<open>count\<close> is
  read out of range once the loop reaches its end.
\<close>

fun ReadArgs :: "'c estate \<Rightarrow> 'c arg list \<Rightarrow> nat \<Rightarrow> (string list option \<times> 'c estate) ub" where
  "ReadArgs state as 0 = Some (Some [], state)"
| "ReadArgs state [] (Suc n) = None"
| "ReadArgs state (a # as) (Suc n) = do {
     (s, state) \<leftarrow> Evaluate state a;
     case s of
       None \<Rightarrow> Some (None, state)
     | Some s \<Rightarrow> do {
         (rest, state) \<leftarrow> ReadArgs state as n;
         Some (map_option (Cons s) rest, state)}}"

fun ReadValueArgs :: "'c estate \<Rightarrow> 'c arg list \<Rightarrow> nat \<Rightarrow> (evalue list option \<times> 'c estate) ub" where
  "ReadValueArgs state as 0 = Some (Some [], state)"
| "ReadValueArgs state [] (Suc n) = None"
| "ReadValueArgs state (a # as) (Suc n) = do {
     (v, state) \<leftarrow> arg_eval a state;
     case v of
       None \<Rightarrow> Some (None, state)
     | Some v \<Rightarrow> do {
         (rest, state) \<leftarrow> ReadValueArgs state as n;
         Some (map_option (Cons v) rest, state)}}"

section \<open>Builtin functions\<close>

definition ConcatFn :: "'c fn_type" where
  "ConcatFn nm state as =
     (if as = [] then Some (StringValue (Some ''''), state)
      else do {
        (strings, state) \<leftarrow> ReadVarArgs state as;
        Some (StringValue (map_option concat strings), state)})"

definition IfElseFn :: "'c fn_type" where
  "IfElseFn nm state as =
     (if length as \<noteq> 2 \<and> length as \<noteq> 3
      then Some (None, state\<lparr>errmsg := Some ''ifelse expects 2 or 3 arguments''\<rparr>)
      else do {
        a0 \<leftarrow> nth_ub as 0;
        (cond, state) \<leftarrow> Evaluate state a0;
        case cond of
          None \<Rightarrow> Some (None, state)
        | Some c \<Rightarrow>
            if BooleanString c then do { a1 \<leftarrow> nth_ub as 1; arg_eval a1 state }
            else if length as = 3 then do { a2 \<leftarrow> nth_ub as 2; arg_eval a2 state }
            else Some (StringValue (Some c), state)})"

definition AbortFn :: "'c fn_type" where
  "AbortFn nm state as = do {
     (msg, state) \<leftarrow> (case as of [] \<Rightarrow> Some (None, state) | a # _ \<Rightarrow> Evaluate state a);
     Some (None, state\<lparr>errmsg :=
       (case msg of Some m \<Rightarrow> Some m | None \<Rightarrow> Some ''called abort()'')\<rparr>)}"

text \<open>
  A failing assertion copies the source text of the argument, \<open>script[start..end)\<close>, into the
  error message.  The script is NUL-terminated, so the copy may include its final NUL.
\<close>

definition assert_text :: "'c estate \<Rightarrow> 'c arg \<Rightarrow> string ub" where
  "assert_text state a =
     (if 0 \<le> arg_start a \<and> arg_start a \<le> arg_end a \<and> arg_end a \<le> int (length (script state)) + 1
      then Some (''assert failed: '' @
        segment (script state) (nat (arg_start a)) (nat (arg_end a - arg_start a)))
      else None)"

fun AssertFn :: "'c fn_type" where
  "AssertFn nm state [] = Some (StringValue (Some ''''), state)"
| "AssertFn nm state (a # as) = do {
     (v, state) \<leftarrow> Evaluate state a;
     case v of
       None \<Rightarrow> Some (None, state)
     | Some v \<Rightarrow>
         if BooleanString v then AssertFn nm state as
         else do {
           err_src \<leftarrow> assert_text state a;
           Some (None, state\<lparr>errmsg := Some err_src\<rparr>)}}"

definition SleepFn :: "'c fn_type" where
  "SleepFn nm state as = do {
     a0 \<leftarrow> nth_ub as 0;
     (val, state) \<leftarrow> Evaluate state a0;
     case val of
       None \<Rightarrow> Some (None, state)
     | Some v \<Rightarrow> Some (StringValue (Some v), state\<lparr>slept := slept state @ [fst (strtol v)]\<rparr>)}"

fun StdoutFn :: "'c fn_type" where
  "StdoutFn nm state [] = Some (StringValue (Some ''''), state)"
| "StdoutFn nm state (a # as) = do {
     (v, state) \<leftarrow> Evaluate state a;
     case v of
       None \<Rightarrow> Some (None, state)
     | Some v \<Rightarrow> StdoutFn nm (state\<lparr>stdout := stdout state @ v\<rparr>) as}"

definition LogicalAndFn :: "'c fn_type" where
  "LogicalAndFn nm state as = do {
     a0 \<leftarrow> nth_ub as 0;
     (left, state) \<leftarrow> Evaluate state a0;
     case left of
       None \<Rightarrow> Some (None, state)
     | Some l \<Rightarrow>
         if BooleanString l then do { a1 \<leftarrow> nth_ub as 1; arg_eval a1 state }
         else Some (StringValue (Some l), state)}"

definition LogicalOrFn :: "'c fn_type" where
  "LogicalOrFn nm state as = do {
     a0 \<leftarrow> nth_ub as 0;
     (left, state) \<leftarrow> Evaluate state a0;
     case left of
       None \<Rightarrow> Some (None, state)
     | Some l \<Rightarrow>
         if \<not> BooleanString l then do { a1 \<leftarrow> nth_ub as 1; arg_eval a1 state }
         else Some (StringValue (Some l), state)}"

definition LogicalNotFn :: "'c fn_type" where
  "LogicalNotFn nm state as = do {
     a0 \<leftarrow> nth_ub as 0;
     (val, state) \<leftarrow> Evaluate state a0;
     case val of
       None \<Rightarrow> Some (None, state)
     | Some v \<Rightarrow> Some (StringValue (Some (if BooleanString v then '''' else ''t'')), state)}"

text \<open>The three functions that evaluate a pair of strings and return a truth value.\<close>

definition binary_test :: "(string \<Rightarrow> string \<Rightarrow> bool) \<Rightarrow> 'c fn_type" where
  "binary_test test nm state as = do {
     a0 \<leftarrow> nth_ub as 0;
     (left, state) \<leftarrow> Evaluate state a0;
     case left of
       None \<Rightarrow> Some (None, state)
     | Some l \<Rightarrow> do {
         a1 \<leftarrow> nth_ub as 1;
         (right, state) \<leftarrow> Evaluate state a1;
         case right of
           None \<Rightarrow> Some (None, state)
         | Some r \<Rightarrow> Some (StringValue (Some (if test l r then ''t'' else '''')), state)}}"

definition SubstringFn :: "'c fn_type" where
  "SubstringFn = binary_test (\<lambda>needle haystack. strstr haystack needle)"

definition EqualityFn :: "'c fn_type" where
  "EqualityFn = binary_test (\<lambda>left right. left = right)"

definition InequalityFn :: "'c fn_type" where
  "InequalityFn = binary_test (\<lambda>left right. left \<noteq> right)"

definition SequenceFn :: "'c fn_type" where
  "SequenceFn nm state as = do {
     a0 \<leftarrow> nth_ub as 0;
     (left, state) \<leftarrow> arg_eval a0 state;
     case left of
       None \<Rightarrow> Some (None, state)
     | Some _ \<Rightarrow> do { a1 \<leftarrow> nth_ub as 1; arg_eval a1 state }}"

definition not_an_int :: "string \<Rightarrow> string" where
  "not_an_int s = CHR ''['' # s @ ''] is not an int'' @ [newline]"

definition is_int_text :: "string \<Rightarrow> bool" where
  "is_int_text s \<longleftrightarrow> s \<noteq> [] \<and> snd (strtol s) = []"

definition LessThanIntFn :: "'c fn_type" where
  "LessThanIntFn nm state as =
     (if length as \<noteq> 2
      then Some (None, state\<lparr>errmsg := Some ''less_than_int expects 2 arguments''\<rparr>)
      else do {
        (args, state) \<leftarrow> ReadArgs state as 2;
        case args of
          None \<Rightarrow> Some (None, state)
        | Some ss \<Rightarrow>
            let left = ss ! 0; right = ss ! 1 in
            if \<not> is_int_text left
            then Some (StringValue (Some ''''), state\<lparr>stdout := stdout state @ not_an_int left\<rparr>)
            else if \<not> is_int_text right
            then Some (StringValue (Some ''''), state\<lparr>stdout := stdout state @ not_an_int right\<rparr>)
            else Some (StringValue
                   (Some (if fst (strtol left) < fst (strtol right) then ''t'' else '''')), state)})"

definition GreaterThanIntFn :: "'c fn_type" where
  "GreaterThanIntFn nm state as =
     (if length as \<noteq> 2
      then Some (None, state\<lparr>errmsg := Some ''greater_than_int expects 2 arguments''\<rparr>)
      else LessThanIntFn nm state [as ! 1, as ! 0])"

definition Literal :: "'c fn_type" where
  "Literal nm state as = Some (StringValue (Some nm), state)"

section \<open>Evaluation\<close>

fun call_fn :: "(nat \<Rightarrow> 'c fn_type) \<Rightarrow> efn \<Rightarrow> 'c fn_type" where
  "call_fn ext FLiteral = Literal"
| "call_fn ext FConcat = ConcatFn"
| "call_fn ext FIfElse = IfElseFn"
| "call_fn ext FAbort = AbortFn"
| "call_fn ext FAssert = AssertFn"
| "call_fn ext FSleep = SleepFn"
| "call_fn ext FStdout = StdoutFn"
| "call_fn ext FLogicalAnd = LogicalAndFn"
| "call_fn ext FLogicalOr = LogicalOrFn"
| "call_fn ext FLogicalNot = LogicalNotFn"
| "call_fn ext FSubstring = SubstringFn"
| "call_fn ext FEquality = EqualityFn"
| "call_fn ext FInequality = InequalityFn"
| "call_fn ext FSequence = SequenceFn"
| "call_fn ext FLessThanInt = LessThanIntFn"
| "call_fn ext FGreaterThanInt = GreaterThanIntFn"
| "call_fn ext (FExt i) = ext i"

fun EvaluateValue :: "(nat \<Rightarrow> 'c fn_type) \<Rightarrow> expr \<Rightarrow> (evalue, 'c) evaluation" where
  "EvaluateValue ext (Expr f nm as s e) =
     (\<lambda>state. call_fn ext f nm state
        (map (\<lambda>a. Arg (EvaluateValue ext a) (e_start a) (e_end a)) as))"

definition Build :: "efn \<Rightarrow> int \<Rightarrow> int \<Rightarrow> expr list \<Rightarrow> expr" where
  "Build f loc_start loc_end as = Expr f ''(operator)'' as loc_start loc_end"

section \<open>The function table\<close>

record fn_registry =
  fn_table :: "(string \<times> efn) list"
  fn_size :: nat

definition empty_registry :: fn_registry where
  "empty_registry = \<lparr>fn_table = [], fn_size = 0\<rparr>"

definition RegisterFunction :: "string \<Rightarrow> efn \<Rightarrow> fn_registry \<Rightarrow> fn_registry" where
  "RegisterFunction nm f reg =
     (let reg = (if fn_size reg \<le> length (fn_table reg)
                 then reg\<lparr>fn_size := fn_size reg * 2 + 1\<rparr> else reg)
      in reg\<lparr>fn_table := fn_table reg @ [(nm, f)]\<rparr>)"

definition FinishRegistration :: "fn_registry \<Rightarrow> fn_registry" where
  "FinishRegistration reg = reg\<lparr>fn_table := sort_key fst (fn_table reg)\<rparr>"

text \<open>\<open>bsearch\<close> over the entries \<open>base, \<dots>, base + lim - 1\<close> of the table.\<close>

function bsearch :: "string \<Rightarrow> (string \<times> efn) list \<Rightarrow> nat \<Rightarrow> nat \<Rightarrow> efn option" where
  "bsearch key tab base lim =
     (if lim = 0 then None
      else let p = base + lim div 2 in
        if key = fst (tab ! p) then Some (snd (tab ! p))
        else if fst (tab ! p) < key then bsearch key tab (p + 1) ((lim - 1) div 2)
        else bsearch key tab base (lim div 2))"
  by pat_completeness auto
termination
  by (relation "measure (\<lambda>(key, tab, base, lim). lim)") auto

declare bsearch.simps [simp del]

definition FindFunction :: "string \<Rightarrow> fn_registry \<Rightarrow> efn option" where
  "FindFunction nm reg = bsearch nm (fn_table reg) 0 (length (fn_table reg))"

definition builtins :: "(string \<times> efn) list" where
  "builtins =
     [(''ifelse'', FIfElse), (''abort'', FAbort), (''assert'', FAssert), (''concat'', FConcat),
      (''is_substring'', FSubstring), (''stdout'', FStdout), (''sleep'', FSleep),
      (''less_than_int'', FLessThanInt), (''greater_than_int'', FGreaterThanInt)]"

definition RegisterBuiltins :: "fn_registry \<Rightarrow> fn_registry" where
  "RegisterBuiltins = fold (\<lambda>(nm, f). RegisterFunction nm f) builtins"

section \<open>The contract of a function\<close>

text \<open>
  A value is well formed when it is a string whose recorded size is its length, or a blob whose
  recorded size is the length of its data, or \<open>-1\<close> for NULL.  A computation is fine for a script when it is defined, keeps the script, returns a
  value satisfying \<open>P\<close> or NULL, and leaves an error message behind whenever it returns NULL.
\<close>

definition wf_value :: "evalue \<Rightarrow> bool" where
  "wf_value v \<longleftrightarrow> vtype v = VAL_STRING \<and> vsize v = int (length (vdata v)) \<or>
     vtype v = VAL_BLOB \<and> (vsize v = int (length (vdata v)) \<or> vsize v = - 1 \<and> vdata v = [])"

definition res_ok :: "('a \<Rightarrow> bool) \<Rightarrow> string \<Rightarrow> ('a option \<times> 'c estate) ub \<Rightarrow> bool" where
  "res_ok P scr r \<longleftrightarrow>
     (\<exists>v st. r = Some (v, st) \<and> script st = scr \<and>
        (case v of None \<Rightarrow> errmsg st \<noteq> None | Some w \<Rightarrow> P w))"

definition range_ok :: "string \<Rightarrow> int \<Rightarrow> int \<Rightarrow> bool" where
  "range_ok scr s e \<longleftrightarrow> 0 \<le> s \<and> s \<le> e \<and> e \<le> int (length scr) + 1"

definition arg_ok :: "string \<Rightarrow> 'c arg \<Rightarrow> bool" where
  "arg_ok scr a \<longleftrightarrow> range_ok scr (arg_start a) (arg_end a) \<and>
     (\<forall>st. script st = scr \<longrightarrow> res_ok wf_value scr (arg_eval a st))"

locale edify_function =
  fixes F :: "'c fn_type"
    and arity :: "nat \<Rightarrow> bool"
  assumes contract: "arity (length as) \<Longrightarrow> list_all (arg_ok scr) as \<Longrightarrow> script st = scr \<Longrightarrow>
    res_ok wf_value scr (F nm st as)"
begin

lemma call_arg_ok:
  assumes "arity (length as)" and "list_all (arg_ok scr) as" and "range_ok scr s e"
  shows "arg_ok scr (Arg (\<lambda>st. F nm st as) s e)"
  using assms contract by (auto simp: arg_ok_def)

lemma call_defined:
  assumes "arity (length as)" and "list_all (arg_ok (script st)) as"
  shows "F nm st as \<noteq> None"
  using contract [OF assms refl, of nm] by (auto simp: res_ok_def)

end

lemma wf_StringValue [simp]: "StringValue (Some s) = Some v \<Longrightarrow> wf_value v"
  by (auto simp: StringValue_def wf_value_def)

lemma StringValue_Some_cases: "\<exists>v. StringValue (Some s) = Some v \<and> wf_value v"
  by (simp add: StringValue_def wf_value_def)

lemma StringValue_None [simp]: "StringValue None = None"
  by (simp add: StringValue_def)

lemma res_ok_StringValue [simp]: "res_ok wf_value scr (Some (StringValue (Some s), st)) \<longleftrightarrow> script st = scr"
  by (auto simp: res_ok_def StringValue_def wf_value_def)

lemma res_ok_None [simp]: "res_ok P scr (Some (None, st)) \<longleftrightarrow> script st = scr \<and> errmsg st \<noteq> None"
  by (auto simp: res_ok_def)

lemma res_ok_Some [simp]: "res_ok P scr (Some (Some v, st)) \<longleftrightarrow> script st = scr \<and> P v"
  by (auto simp: res_ok_def)

lemma res_ok_undefined [simp]: "\<not> res_ok P scr None"
  by (simp add: res_ok_def)

text \<open>The one rule that carries every contract proof: run \<open>m\<close>, then go on or propagate NULL.\<close>

lemma res_ok_bind:
  assumes "res_ok P scr m"
    and "\<And>v st. script st = scr \<Longrightarrow> P v \<Longrightarrow> res_ok Q scr (f (Some v, st))"
    and "\<And>st. script st = scr \<Longrightarrow> errmsg st \<noteq> None \<Longrightarrow> res_ok Q scr (f (None, st))"
  shows "res_ok Q scr (Option.bind m f)"
proof -
  from assms(1) obtain v st where m: "m = Some (v, st)" and st: "script st = scr"
    and v: "case v of None \<Rightarrow> errmsg st \<noteq> None | Some w \<Rightarrow> P w"
    unfolding res_ok_def by blast
  show ?thesis
    using assms(2,3) [OF st] m v by (cases v) simp_all
qed

lemma ErrorAbort_simps [simp]:
  "script (ErrorAbort st m) = script st" "errmsg (ErrorAbort st m) \<noteq> None"
  by (simp_all add: ErrorAbort_def)

lemma Evaluate_ok:
  assumes "arg_ok scr a" and "script st = scr"
  shows "res_ok (\<lambda>_. True) scr (Evaluate st a)"
proof -
  have "res_ok wf_value scr (arg_eval a st)"
    using assms by (simp add: arg_ok_def)
  then show ?thesis
    unfolding Evaluate_def by (rule res_ok_bind) auto
qed

lemma ReadVarArgs_ok:
  "list_all (arg_ok scr) as \<Longrightarrow> script st = scr \<Longrightarrow>
   res_ok (\<lambda>ss. length ss = length as) scr (ReadVarArgs st as)"
proof (induction as arbitrary: st)
  case Nil
  then show ?case by simp
next
  case (Cons a as)
  then have E: "res_ok (\<lambda>_. True) scr (Evaluate st a)"
    by (intro Evaluate_ok) auto
  have R: "res_ok (\<lambda>ss. length ss = length as) scr (ReadVarArgs st' as)" if "script st' = scr" for st'
    using Cons that by simp
  show ?case
    unfolding ReadVarArgs.simps
    by (rule res_ok_bind [OF E]; simp; rule res_ok_bind [OF R]; simp)
qed

lemma ReadArgs_ok:
  "list_all (arg_ok scr) as \<Longrightarrow> script st = scr \<Longrightarrow> n \<le> length as \<Longrightarrow>
   res_ok (\<lambda>ss. length ss = n) scr (ReadArgs st as n)"
proof (induction n arbitrary: st as)
  case 0
  then show ?case by simp
next
  case (Suc n)
  then obtain a as' where as: "as = a # as'"
    by (cases as) auto
  with Suc have E: "res_ok (\<lambda>_. True) scr (Evaluate st a)"
    by (intro Evaluate_ok) auto
  have R: "res_ok (\<lambda>ss. length ss = n) scr (ReadArgs st' as' n)" if "script st' = scr" for st'
    using Suc as that by simp
  show ?case
    unfolding as ReadArgs.simps
    by (rule res_ok_bind [OF E]; simp; rule res_ok_bind [OF R]; simp)
qed

lemma arg_okD: "arg_ok scr a \<Longrightarrow> script st = scr \<Longrightarrow> res_ok wf_value scr (arg_eval a st)"
  by (simp add: arg_ok_def)

lemmas eval_bind = res_ok_bind [OF Evaluate_ok]

lemma one_arg:
  assumes "1 \<le> length as"
  obtains a rest where "as = a # rest"
  using assms by (cases as) auto

lemma two_args:
  assumes "2 \<le> length as"
  obtains a b rest where "as = a # b # rest"
  using assms by (cases as; cases "tl as") auto

interpretation concat_fn: edify_function ConcatFn "\<lambda>_. True"
  by unfold_locales
     (auto simp: ConcatFn_def intro!: res_ok_bind [OF ReadVarArgs_ok])

interpretation if_else_fn: edify_function IfElseFn "\<lambda>_. True"
proof (standard, goal_cases)
  case (1 as scr st nm)
  show ?case
  proof (cases "length as = 2 \<or> length as = 3")
    case True
    then have "2 \<le> length as" by auto
    then obtain a b rest where as_eq: "as = a # b # rest"
      by (rule two_args)
    with 1 have ok: "arg_ok scr a" "arg_ok scr b" "list_all (arg_ok scr) rest"
      by auto
    have "rest = [] \<or> (\<exists>c. rest = [c])"
      using True as_eq by (cases rest) auto
    then show ?thesis
      using ok 1(3) unfolding IfElseFn_def as_eq
      by (elim disjE exE) (simp; rule eval_bind; simp add: arg_okD)+
  qed (simp add: IfElseFn_def 1)
qed

interpretation abort_fn: edify_function AbortFn "\<lambda>_. True"
proof (standard, goal_cases)
  case (1 as scr st nm)
  show ?case
  proof (cases as)
    case (Cons a rest)
    with 1 show ?thesis
      unfolding AbortFn_def by (simp; intro eval_bind; simp)
  qed (simp add: AbortFn_def 1)
qed

lemma assert_text_ok: "arg_ok scr a \<Longrightarrow> script st = scr \<Longrightarrow> \<exists>t. assert_text st a = Some t"
  by (simp add: arg_ok_def range_ok_def assert_text_def)

interpretation assert_fn: edify_function AssertFn "\<lambda>_. True"
proof (standard, goal_cases)
  case (1 as scr st nm)
  from 1(2,3) show ?case
  proof (induction as arbitrary: st)
    case (Cons a as)
    then have a: "arg_ok scr a" and as: "list_all (arg_ok scr) as"
      by auto
    have "res_ok wf_value scr (Option.bind (assert_text st' a)
        (\<lambda>err_src. Some (None, st'\<lparr>errmsg := Some err_src\<rparr>)))" if "script st' = scr" for st'
      using assert_text_ok [OF a that] that by auto
    then show ?case
      unfolding AssertFn.simps
      by (intro eval_bind [OF a Cons.prems(2)]) (simp_all add: Cons.IH [OF as])
  qed simp
qed

interpretation sleep_fn: edify_function SleepFn "\<lambda>n. 1 \<le> n"
proof (standard, goal_cases)
  case (1 as scr st nm)
  then show ?case
    unfolding SleepFn_def by (elim one_arg) (simp; rule eval_bind; simp)
qed

interpretation stdout_fn: edify_function StdoutFn "\<lambda>_. True"
proof (standard, goal_cases)
  case (1 as scr st nm)
  from 1(2,3) show ?case
  proof (induction as arbitrary: st)
    case (Cons a as)
    then have a: "arg_ok scr a" and as: "list_all (arg_ok scr) as"
      by auto
    show ?case
      unfolding StdoutFn.simps
      by (intro eval_bind [OF a Cons.prems(2)]) (simp_all add: Cons.IH [OF as])
  qed simp
qed

interpretation and_fn: edify_function LogicalAndFn "\<lambda>n. 2 \<le> n"
proof (standard, goal_cases)
  case (1 as scr st nm)
  then show ?case
    unfolding LogicalAndFn_def
    by (elim two_args) (simp; rule eval_bind; simp add: arg_okD)
qed

interpretation or_fn: edify_function LogicalOrFn "\<lambda>n. 2 \<le> n"
proof (standard, goal_cases)
  case (1 as scr st nm)
  then show ?case
    unfolding LogicalOrFn_def
    by (elim two_args) (simp; rule eval_bind; simp add: arg_okD)
qed

interpretation not_fn: edify_function LogicalNotFn "\<lambda>n. 1 \<le> n"
proof (standard, goal_cases)
  case (1 as scr st nm)
  then show ?case
    unfolding LogicalNotFn_def by (elim one_arg) (simp; rule eval_bind; simp)
qed

lemma binary_test_contract: "edify_function (binary_test test) (\<lambda>n. 2 \<le> n)"
proof (standard, goal_cases)
  case (1 as scr st nm)
  then show ?case
    unfolding binary_test_def
    by (elim two_args) (simp; rule eval_bind; simp; rule eval_bind; simp)
qed

interpretation substring_fn: edify_function SubstringFn "\<lambda>n. 2 \<le> n"
  unfolding SubstringFn_def by (rule binary_test_contract)

interpretation equality_fn: edify_function EqualityFn "\<lambda>n. 2 \<le> n"
  unfolding EqualityFn_def by (rule binary_test_contract)

interpretation inequality_fn: edify_function InequalityFn "\<lambda>n. 2 \<le> n"
  unfolding InequalityFn_def by (rule binary_test_contract)

interpretation sequence_fn: edify_function SequenceFn "\<lambda>n. 2 \<le> n"
proof (standard, goal_cases)
  case (1 as scr st nm)
  then show ?case
    unfolding SequenceFn_def
    by (elim two_args) (simp; rule res_ok_bind [OF arg_okD]; simp add: arg_okD)
qed

interpretation less_fn: edify_function LessThanIntFn "\<lambda>_. True"
proof (standard, goal_cases)
  case (1 as scr st nm)
  show ?case
  proof (cases "length as = 2")
    case True
    then have "2 \<le> length as" by simp
    with 1(2,3) show ?thesis
      unfolding LessThanIntFn_def using True
      by (auto intro!: res_ok_bind [OF ReadArgs_ok] simp: Let_def)
  qed (simp add: LessThanIntFn_def 1)
qed

interpretation greater_fn: edify_function GreaterThanIntFn "\<lambda>_. True"
proof (standard, goal_cases)
  case (1 as scr st nm)
  show ?case
  proof (cases "length as = 2")
    case True
    then have "2 \<le> length as" by simp
    then obtain a b rest where "as = a # b # rest"
      by (rule two_args)
    with 1 True show ?thesis
      by (simp add: GreaterThanIntFn_def less_fn.contract)
  qed (simp add: GreaterThanIntFn_def 1)
qed

interpretation literal_fn: edify_function Literal "\<lambda>_. True"
  by unfold_locales (simp add: Literal_def)

section \<open>Evaluation of well-formed expressions\<close>

text \<open>
  What the parser guarantees of the operators, and what a script has to respect when it calls a
  registered function, is a minimal number of arguments; ranges lie within the script.
\<close>

fun arity_of :: "(nat \<Rightarrow> nat \<Rightarrow> bool) \<Rightarrow> efn \<Rightarrow> nat \<Rightarrow> bool" where
  "arity_of ext_arity FSleep = (\<lambda>n. 1 \<le> n)"
| "arity_of ext_arity FLogicalNot = (\<lambda>n. 1 \<le> n)"
| "arity_of ext_arity FLogicalAnd = (\<lambda>n. 2 \<le> n)"
| "arity_of ext_arity FLogicalOr = (\<lambda>n. 2 \<le> n)"
| "arity_of ext_arity FSubstring = (\<lambda>n. 2 \<le> n)"
| "arity_of ext_arity FEquality = (\<lambda>n. 2 \<le> n)"
| "arity_of ext_arity FInequality = (\<lambda>n. 2 \<le> n)"
| "arity_of ext_arity FSequence = (\<lambda>n. 2 \<le> n)"
| "arity_of ext_arity (FExt i) = ext_arity i"
| "arity_of ext_arity _ = (\<lambda>_. True)"

fun wf_expr :: "(nat \<Rightarrow> nat \<Rightarrow> bool) \<Rightarrow> string \<Rightarrow> expr \<Rightarrow> bool" where
  "wf_expr ext_arity scr (Expr f nm as s e) \<longleftrightarrow>
     arity_of ext_arity f (length as) \<and> range_ok scr s e \<and> list_all (wf_expr ext_arity scr) as"

text \<open>The functions of other programs that an expression calls.\<close>

fun externals :: "expr \<Rightarrow> nat list" where
  "externals (Expr f nm as s e) = (case f of FExt i \<Rightarrow> [i] | _ \<Rightarrow> []) @ concat (map externals as)"

lemma call_fn_contract:
  assumes "\<And>i. f = FExt i \<Longrightarrow> edify_function (ext i) (ext_arity i)"
  shows "edify_function (call_fn ext f) (arity_of ext_arity f)"
  using assms
  by (cases f)
     (simp_all only: call_fn.simps arity_of.simps concat_fn.edify_function_axioms
        if_else_fn.edify_function_axioms abort_fn.edify_function_axioms
        assert_fn.edify_function_axioms sleep_fn.edify_function_axioms
        stdout_fn.edify_function_axioms and_fn.edify_function_axioms
        or_fn.edify_function_axioms not_fn.edify_function_axioms
        substring_fn.edify_function_axioms equality_fn.edify_function_axioms
        inequality_fn.edify_function_axioms sequence_fn.edify_function_axioms
        less_fn.edify_function_axioms greater_fn.edify_function_axioms
        literal_fn.edify_function_axioms)

lemma EvaluateValue_arg_ok:
  "wf_expr ext_arity scr e \<Longrightarrow> \<forall>i \<in> set (externals e). edify_function (ext i) (ext_arity i) \<Longrightarrow>
   arg_ok scr (Arg (EvaluateValue ext e) (e_start e) (e_end e))"
proof (induction e)
  case (Expr f nm as s e)
  let ?as = "map (\<lambda>a. Arg (EvaluateValue ext a) (e_start a) (e_end a)) as"
  have "list_all (arg_ok scr) ?as"
    using Expr by (auto simp: list_all_iff)
  moreover have "edify_function (ext i) (ext_arity i)" if "f = FExt i" for i
    using Expr.prems(2) that by simp
  moreover have "arity_of ext_arity f (length ?as)" and "range_ok scr s e"
    using Expr.prems by simp_all
  ultimately have "arg_ok scr (Arg (\<lambda>st. call_fn ext f nm st ?as) s e)"
    by (intro edify_function.call_arg_ok [OF call_fn_contract])
  then show ?case by simp
qed

section \<open>The function table is a dictionary\<close>

lemma bsearch_segment:
  "sorted_wrt (<) (map fst tab) \<Longrightarrow> base + lim \<le> length tab \<Longrightarrow>
   bsearch key tab base lim = map_of (segment tab base lim) key"
proof (induction key tab base lim rule: bsearch.induct)
  case (1 key tab base lim)
  show ?case
  proof (cases "lim = 0")
    case False
    define h p where "h = lim div 2" and "p = base + h"
    have p: "p < length tab" and h: "h + (1 + (lim - 1) div 2) = lim"
      using False 1(4) by (auto simp: h_def p_def)
    have split: "segment tab base lim = segment tab base h @ tab ! p # segment tab (p + 1) ((lim - 1) div 2)"
      using segment_add [of tab base h "Suc ((lim - 1) div 2)"] segment_Suc [OF p, of "(lim - 1) div 2"] h
      by (simp add: p_def)
    have nth_less: "fst (tab ! i) < fst (tab ! j)" if "i < j" "j < length tab" for i j
      using 1(3) that by (simp add: sorted_wrt_iff_nth_less)
    have left: "x < fst (tab ! p)" if "x \<in> fst ` set (segment tab base h)" for x
    proof -
      from that obtain i where "i < h" and "x = fst (tab ! (base + i))"
        using p by (force simp: segment_def in_set_conv_nth p_def)
      then show ?thesis using p by (simp add: nth_less p_def)
    qed
    have right: "fst (tab ! p) < x" if "x \<in> fst ` set (segment tab (p + 1) ((lim - 1) div 2))" for x
    proof -
      from that obtain i where "i < (lim - 1) div 2" "p + 1 + i < length tab"
          and "x = fst (segment tab (p + 1) ((lim - 1) div 2) ! i)"
        by (auto simp: in_set_conv_nth)
      then show ?thesis by (simp add: segment_def nth_less)
    qed
    consider "key = fst (tab ! p)" | "fst (tab ! p) < key" | "key < fst (tab ! p)"
      by fastforce
    then show ?thesis
    proof cases
      case 1
      then have "map_of (segment tab base h) key = None"
        using left by (auto simp: map_of_eq_None_iff)
      then show ?thesis
        using 1 False by (cases "tab ! p") (subst bsearch.simps,
            simp add: split map_add_def h_def [symmetric] p_def [symmetric] Let_def)
    next
      case 2
      then have "map_of (segment tab base h) key = None"
        using left by (force simp: map_of_eq_None_iff)
      moreover have "bsearch key tab (p + 1) ((lim - 1) div 2) =
          map_of (segment tab (p + 1) ((lim - 1) div 2)) key"
        using "1.IH"(1) [OF False] 2 "1.prems" h by (auto simp: h_def p_def)
      ultimately show ?thesis
        using 2 False by (cases "tab ! p") (auto simp: bsearch.simps [of key tab base lim] split
            map_add_def h_def [symmetric] p_def [symmetric] Let_def split: option.splits)
    next
      case 3
      then have "map_of (segment tab (p + 1) ((lim - 1) div 2)) key = None"
        using right by (force simp: map_of_eq_None_iff)
      moreover have "bsearch key tab base h = map_of (segment tab base h) key"
        using "1.IH"(2) [OF False] 3 "1.prems" h by (auto simp: h_def p_def)
      ultimately show ?thesis
        using 3 False by (cases "tab ! p") (auto simp: bsearch.simps [of key tab base lim] split
            map_add_def h_def [symmetric] p_def [symmetric] Let_def split: option.splits)
    qed
  qed (simp add: bsearch.simps)
qed

lemma fold_RegisterFunction:
  "fn_table (fold (\<lambda>(nm, f). RegisterFunction nm f) regs reg) = fn_table reg @ regs"
  by (induction regs arbitrary: reg) (auto simp: RegisterFunction_def Let_def)

lemma RegisterFunction_room:
  "length (fn_table reg) \<le> fn_size reg \<Longrightarrow>
   length (fn_table (RegisterFunction nm f reg)) \<le> fn_size (RegisterFunction nm f reg)"
  by (auto simp: RegisterFunction_def Let_def)

lemma fold_RegisterFunction_room:
  "length (fn_table reg) \<le> fn_size reg \<Longrightarrow>
   length (fn_table (fold (\<lambda>(nm, f). RegisterFunction nm f) regs reg))
     \<le> fn_size (fold (\<lambda>(nm, f). RegisterFunction nm f) regs reg)"
  by (induction regs arbitrary: reg) (auto intro: RegisterFunction_room)

lemma FindFunction_FinishRegistration:
  assumes "distinct (map fst (fn_table reg))"
  shows "FindFunction nm (FinishRegistration reg) = map_of (fn_table reg) nm"
proof -
  let ?tab = "sort_key fst (fn_table reg)"
  have d: "distinct (map fst ?tab)"
    using assms by (simp add: distinct_map)
  then have "sorted_wrt (<) (map fst ?tab)"
    by (simp add: strict_sorted_iff)
  then have "bsearch nm ?tab 0 (length ?tab) = map_of ?tab nm"
    by (subst bsearch_segment) (simp_all add: segment_def)
  moreover have "map_of ?tab = map_of (fn_table reg)"
    using assms d by (subst map_of_inject_set) simp_all
  ultimately show ?thesis
    by (simp add: FindFunction_def FinishRegistration_def)
qed

section \<open>Properties\<close>

text \<open>
  C12.  Evaluating a well-formed expression is always defined: it never reads an argument vector or
  the script out of range.  It keeps the script, the value it returns is a string or a blob whose
  recorded size is its length (or \<open>-1\<close>, for a blob without data), and when it returns NULL an error message has been
  recorded.  This holds for the builtin functions and operators; every function of
  another program that the expression calls has to satisfy the same contract.
\<close>

theorem edify_evaluation_safe:
  assumes "wf_expr ext_arity (script st) e" and "\<forall>i \<in> set (externals e). edify_function (ext i) (ext_arity i)"
  shows "\<exists>v st'. EvaluateValue ext e st = Some (v, st') \<and> script st' = script st \<and>
     (v = None \<longrightarrow> errmsg st' \<noteq> None) \<and> (\<forall>w. v = Some w \<longrightarrow> wf_value w)"
  using EvaluateValue_arg_ok [OF assms]
  by (auto simp: arg_ok_def res_ok_def split: option.splits)

text \<open>A function that returns what \<open>read_file\<close> does for a file that cannot be read.\<close>

definition no_file :: "'c fn_type" where
  "no_file nm st as = Some (Some \<lparr>vtype = VAL_BLOB, vsize = - 1, vdata = []\<rparr>, st)"

lemma no_file_function: "edify_function no_file (\<lambda>_. True)"
  by unfold_locales (simp add: no_file_def res_ok_def wf_value_def)

theorem edify_evaluation_safe_witness:
  "\<exists>v st'. EvaluateValue (\<lambda>_. no_file)
      (Build FLogicalAnd 0 1 [Build FLiteral 0 1 [], Build FAssert 0 1 [Build (FExt 0) 0 1 []]])
      \<lparr>cookie = (), script = ''a'', errmsg = None, stdout = [], slept = []\<rparr> = Some (v, st') \<and>
     script st' = ''a'' \<and> (v = None \<longrightarrow> errmsg st' \<noteq> None) \<and> (\<forall>w. v = Some w \<longrightarrow> wf_value w)"
  using edify_evaluation_safe [of "\<lambda>_ _. True"
      "\<lparr>cookie = (), script = ''a'', errmsg = None, stdout = [], slept = []\<rparr>"
      "Build FLogicalAnd 0 1 [Build FLiteral 0 1 [], Build FAssert 0 1 [Build (FExt 0) 0 1 []]]" "\<lambda>_. no_file"]
  by (simp add: Build_def range_ok_def no_file_function)

text \<open>
  \<open>&&\<close> and \<open>||\<close> short-circuit: when the left operand decides, the result is that operand's
  string and the right operand is not evaluated, whatever it would do.  An \<open>if\<close> without \<open>else\<close>
  is exactly \<open>&&\<close>.
\<close>

theorem edify_short_circuit:
  assumes "Evaluate st a = Some (Some s, st')"
  shows "(s = [] \<longrightarrow> LogicalAndFn nm st (a # rest) = Some (StringValue (Some s), st')) \<and>
     (s \<noteq> [] \<longrightarrow> LogicalOrFn nm st (a # rest) = Some (StringValue (Some s), st')) \<and>
     IfElseFn nm st [a, b] = LogicalAndFn nm' st [a, b]"
  using assms by (auto simp: LogicalAndFn_def LogicalOrFn_def IfElseFn_def BooleanString_def)

theorem edify_short_circuit_witness:
  "LogicalOrFn ''or'' \<lparr>cookie = (), script = [], errmsg = None, stdout = [], slept = []\<rparr>
     [Arg (\<lambda>st. Literal ''t'' st []) 0 1, Arg (\<lambda>st. None) 0 1] =
   Some (StringValue (Some ''t''), \<lparr>cookie = (), script = [], errmsg = None, stdout = [], slept = []\<rparr>)"
  using edify_short_circuit [of "\<lparr>cookie = (), script = [], errmsg = None, stdout = [], slept = []\<rparr>"
      "Arg (\<lambda>st. Literal ''t'' st []) 0 1" "''t''"
      "\<lparr>cookie = (), script = [], errmsg = None, stdout = [], slept = []\<rparr>"
      "''or''" "[Arg (\<lambda>st. None) 0 1]"]
  by (simp add: Evaluate_def Literal_def StringValue_def)

text \<open>
  C18.  The function table is a dictionary.  After any sequence of registrations under distinct names
  on top of the builtins, sorting the table and searching it by bisection finds exactly the
  function registered under a name, and the table never outgrows its allocation.
\<close>

theorem FindFunction_registered:
  assumes "distinct (map fst (builtins @ regs))"
  shows "FindFunction nm (FinishRegistration
      (fold (\<lambda>(nm, f). RegisterFunction nm f) regs (RegisterBuiltins empty_registry))) =
        map_of (builtins @ regs) nm \<and>
     length (builtins @ regs) \<le>
       fn_size (fold (\<lambda>(nm, f). RegisterFunction nm f) regs (RegisterBuiltins empty_registry))"
proof -
  let ?reg = "fold (\<lambda>(nm, f). RegisterFunction nm f) regs (RegisterBuiltins empty_registry)"
  have tab: "fn_table ?reg = builtins @ regs"
    by (simp add: fold_RegisterFunction RegisterBuiltins_def empty_registry_def)
  have "length (fn_table ?reg) \<le> fn_size ?reg"
    unfolding RegisterBuiltins_def
    by (intro fold_RegisterFunction_room) (simp add: empty_registry_def)
  then show ?thesis
    using FindFunction_FinishRegistration [of ?reg nm] assms by (simp add: tab)
qed

theorem FindFunction_registered_witness:
  "FindFunction ''sleep'' (FinishRegistration (RegisterFunction ''mount'' (FExt 0)
     (RegisterBuiltins empty_registry))) = Some FSleep"
  using FindFunction_registered [of "[(''mount'', FExt 0)]" "''sleep''"]
  by (simp add: builtins_def)

text \<open>
  C25.  \<open>less_than_int\<close> compares the numbers that its arguments spell, for all values of a C \<open>long\<close>,
  and \<open>greater_than_int\<close> is its converse.
\<close>

theorem LessThanIntFn_decides:
  assumes "Evaluate st a = Some (Some (show_int m), st')"
    and "Evaluate st' b = Some (Some (show_int n), st'')"
    and "LONG_MIN \<le> m" "m \<le> LONG_MAX" "LONG_MIN \<le> n" "n \<le> LONG_MAX"
  shows "LessThanIntFn nm st [a, b] =
       Some (StringValue (Some (if m < n then ''t'' else '''')), st'') \<and>
     GreaterThanIntFn nm st [b, a] =
       Some (StringValue (Some (if n > m then ''t'' else '''')), st'')"
proof -
  have "show_int i \<noteq> []" for i
    by (simp add: show_int_def)
  then show ?thesis
    using assms
    by (simp add: LessThanIntFn_def GreaterThanIntFn_def is_int_text_def numeral_2_eq_2 Let_def
        strtol_show_int)
qed

theorem LessThanIntFn_decides_witness:
  "LessThanIntFn ''less_than_int'' \<lparr>cookie = (), script = [], errmsg = None, stdout = [], slept = []\<rparr>
     [Arg (\<lambda>st. Literal (show_int (-12)) st []) 0 1, Arg (\<lambda>st. Literal (show_int 7) st []) 0 1] =
   Some (StringValue (Some ''t''), \<lparr>cookie = (), script = [], errmsg = None, stdout = [], slept = []\<rparr>)"
  using LessThanIntFn_decides [of "\<lparr>cookie = (), script = [], errmsg = None, stdout = [], slept = []\<rparr>"
      "Arg (\<lambda>st. Literal (show_int (-12)) st []) 0 1" "-12"
      "\<lparr>cookie = (), script = [], errmsg = None, stdout = [], slept = []\<rparr>"
      "Arg (\<lambda>st. Literal (show_int 7) st []) 0 1" 7
      "\<lparr>cookie = (), script = [], errmsg = None, stdout = [], slept = []\<rparr>"]
  by (simp add: Evaluate_def Literal_def StringValue_def LONG_MIN_def LONG_MAX_def)

text \<open>
  \<open>sleep\<close> and \<open>is_substring\<close> are registered for scripts but do not check their argument count:
  called with no argument, respectively with one, they read past the end of \<open>argv\<close>.
\<close>

theorem edify_missing_argument:
  "SleepFn nm st [] = None \<and>
   SubstringFn nm st [Arg (\<lambda>st. Literal s st []) 0 1] = None \<and>
   FindFunction ''sleep'' (FinishRegistration (RegisterBuiltins empty_registry)) = Some FSleep \<and>
   FindFunction ''is_substring'' (FinishRegistration (RegisterBuiltins empty_registry)) =
     Some FSubstring"
proof -
  have "fn_table (RegisterBuiltins empty_registry) = builtins"
    by (simp add: fold_RegisterFunction RegisterBuiltins_def empty_registry_def)
  then show ?thesis
    by (simp add: FindFunction_FinishRegistration builtins_def SleepFn_def SubstringFn_def
        binary_test_def Evaluate_def Literal_def StringValue_def nth_ub_def)
qed

end
