(* ===== verification/Bits.thy ===== *)
theory Bits
  imports Prelude
begin

unbundle bit_operations_syntax

text \<open>
  Byte order helpers (\<^verbatim>\<open>minzip/Bits.h\<close>).

  A source pointer is a byte array and an index into it, the \<open>read\<close> functions return the
  advanced index, and the \<open>set\<close> functions return the updated array.  Every byte access is checked
  against the array: outside, the result is undefined.
\<close>

section \<open>Fetching values\<close>

definition get1 :: "byte list \<Rightarrow> nat \<Rightarrow> byte ub" where
  "get1 src p = nth_ub src p"

definition get2BE :: "byte list \<Rightarrow> nat \<Rightarrow> 16 word ub" where
  "get2BE src p = do {
     b0 \<leftarrow> nth_ub src p; b1 \<leftarrow> nth_ub src (p + 1);
     Some (push_bit 8 (ucast b0) OR ucast b1)}"

definition get4BE :: "byte list \<Rightarrow> nat \<Rightarrow> u32 ub" where
  "get4BE src p = do {
     b0 \<leftarrow> nth_ub src p; b1 \<leftarrow> nth_ub src (p + 1); b2 \<leftarrow> nth_ub src (p + 2); b3 \<leftarrow> nth_ub src (p + 3);
     Some (push_bit 24 (ucast b0) OR push_bit 16 (ucast b1) OR push_bit 8 (ucast b2) OR ucast b3)}"

definition get8BE :: "byte list \<Rightarrow> nat \<Rightarrow> 64 word ub" where
  "get8BE src p = do {
     b0 \<leftarrow> nth_ub src p; b1 \<leftarrow> nth_ub src (p + 1); b2 \<leftarrow> nth_ub src (p + 2); b3 \<leftarrow> nth_ub src (p + 3);
     b4 \<leftarrow> nth_ub src (p + 4); b5 \<leftarrow> nth_ub src (p + 5); b6 \<leftarrow> nth_ub src (p + 6); b7 \<leftarrow> nth_ub src (p + 7);
     Some (push_bit 56 (ucast b0) OR push_bit 48 (ucast b1) OR push_bit 40 (ucast b2) OR
       push_bit 32 (ucast b3) OR push_bit 24 (ucast b4) OR push_bit 16 (ucast b5) OR
       push_bit 8 (ucast b6) OR ucast b7)}"

definition get2LE :: "byte list \<Rightarrow> nat \<Rightarrow> 16 word ub" where
  "get2LE src p = do {
     b0 \<leftarrow> nth_ub src p; b1 \<leftarrow> nth_ub src (p + 1);
     Some (ucast b0 OR push_bit 8 (ucast b1))}"

definition get4LE :: "byte list \<Rightarrow> nat \<Rightarrow> u32 ub" where
  "get4LE src p = do {
     b0 \<leftarrow> nth_ub src p; b1 \<leftarrow> nth_ub src (p + 1); b2 \<leftarrow> nth_ub src (p + 2); b3 \<leftarrow> nth_ub src (p + 3);
     Some (ucast b0 OR push_bit 8 (ucast b1) OR push_bit 16 (ucast b2) OR push_bit 24 (ucast b3))}"

definition get8LE :: "byte list \<Rightarrow> nat \<Rightarrow> 64 word ub" where
  "get8LE src p = do {
     b0 \<leftarrow> nth_ub src p; b1 \<leftarrow> nth_ub src (p + 1); b2 \<leftarrow> nth_ub src (p + 2); b3 \<leftarrow> nth_ub src (p + 3);
     b4 \<leftarrow> nth_ub src (p + 4); b5 \<leftarrow> nth_ub src (p + 5); b6 \<leftarrow> nth_ub src (p + 6); b7 \<leftarrow> nth_ub src (p + 7);
     Some (ucast b0 OR push_bit 8 (ucast b1) OR push_bit 16 (ucast b2) OR push_bit 24 (ucast b3) OR
       push_bit 32 (ucast b4) OR push_bit 40 (ucast b5) OR push_bit 48 (ucast b6) OR
       push_bit 56 (ucast b7))}"

section \<open>Reading with an advancing pointer\<close>

definition read1 :: "byte list \<Rightarrow> nat \<Rightarrow> (byte \<times> nat) ub" where
  "read1 src p = do { b \<leftarrow> nth_ub src p; Some (b, p + 1) }"

definition read2BE :: "byte list \<Rightarrow> nat \<Rightarrow> (16 word \<times> nat) ub" where
  "read2BE src p = do {
     (b0, p) \<leftarrow> read1 src p; (b1, p) \<leftarrow> read1 src p;
     Some (push_bit 8 (ucast b0) OR ucast b1, p)}"

definition read4BE :: "byte list \<Rightarrow> nat \<Rightarrow> (u32 \<times> nat) ub" where
  "read4BE src p = do {
     (b0, p) \<leftarrow> read1 src p; (b1, p) \<leftarrow> read1 src p; (b2, p) \<leftarrow> read1 src p; (b3, p) \<leftarrow> read1 src p;
     Some (push_bit 24 (ucast b0) OR push_bit 16 (ucast b1) OR push_bit 8 (ucast b2) OR ucast b3, p)}"

definition read8BE :: "byte list \<Rightarrow> nat \<Rightarrow> (64 word \<times> nat) ub" where
  "read8BE src p = do {
     (b0, p) \<leftarrow> read1 src p; (b1, p) \<leftarrow> read1 src p; (b2, p) \<leftarrow> read1 src p; (b3, p) \<leftarrow> read1 src p;
     (b4, p) \<leftarrow> read1 src p; (b5, p) \<leftarrow> read1 src p; (b6, p) \<leftarrow> read1 src p; (b7, p) \<leftarrow> read1 src p;
     Some (push_bit 56 (ucast b0) OR push_bit 48 (ucast b1) OR push_bit 40 (ucast b2) OR
       push_bit 32 (ucast b3) OR push_bit 24 (ucast b4) OR push_bit 16 (ucast b5) OR
       push_bit 8 (ucast b6) OR ucast b7, p)}"

definition read2LE :: "byte list \<Rightarrow> nat \<Rightarrow> (16 word \<times> nat) ub" where
  "read2LE src p = do {
     (b0, p) \<leftarrow> read1 src p; (b1, p) \<leftarrow> read1 src p;
     Some (ucast b0 OR push_bit 8 (ucast b1), p)}"

definition read4LE :: "byte list \<Rightarrow> nat \<Rightarrow> (u32 \<times> nat) ub" where
  "read4LE src p = do {
     (b0, p) \<leftarrow> read1 src p; (b1, p) \<leftarrow> read1 src p; (b2, p) \<leftarrow> read1 src p; (b3, p) \<leftarrow> read1 src p;
     Some (ucast b0 OR push_bit 8 (ucast b1) OR push_bit 16 (ucast b2) OR push_bit 24 (ucast b3), p)}"

definition read8LE :: "byte list \<Rightarrow> nat \<Rightarrow> (64 word \<times> nat) ub" where
  "read8LE src p = do {
     (b0, p) \<leftarrow> read1 src p; (b1, p) \<leftarrow> read1 src p; (b2, p) \<leftarrow> read1 src p; (b3, p) \<leftarrow> read1 src p;
     (b4, p) \<leftarrow> read1 src p; (b5, p) \<leftarrow> read1 src p; (b6, p) \<leftarrow> read1 src p; (b7, p) \<leftarrow> read1 src p;
     Some (ucast b0 OR push_bit 8 (ucast b1) OR push_bit 16 (ucast b2) OR push_bit 24 (ucast b3) OR
       push_bit 32 (ucast b4) OR push_bit 40 (ucast b5) OR push_bit 48 (ucast b6) OR
       push_bit 56 (ucast b7), p)}"

definition skipUtf8String :: "byte list \<Rightarrow> nat \<Rightarrow> nat ub" where
  "skipUtf8String src p = do { (len, p) \<leftarrow> read4BE src p; Some (p + unat len) }"

text \<open>
  Returns the length of the original string, the filled buffer and the advanced pointer.  With an
  empty buffer \<open>bufLen - 1\<close> wraps around.
\<close>

definition readUtf8String :: "byte list \<Rightarrow> nat \<Rightarrow> byte list \<Rightarrow> (int \<times> byte list \<times> nat) ub" where
  "readUtf8String src p buf = do {
     (len, p) \<leftarrow> read4BE src p;
     let bufLen = (of_nat (length buf) :: u32);
     let copyLen = unat (if len < bufLen then len else bufLen - 1);
     data \<leftarrow> segment_ub src p copyLen;
     if copyLen < length buf
     then Some (sint len, data @ 0 # drop (copyLen + 1) buf, p + unat len)
     else None}"

definition readNewUtf8String :: "byte list \<Rightarrow> nat \<Rightarrow> (byte list \<times> u32 \<times> nat) ub" where
  "readNewUtf8String src p = do {
     (len, p) \<leftarrow> read4BE src p;
     data \<leftarrow> segment_ub src p (unat len);
     Some (data @ [0], len, p + unat len)}"

section \<open>Storing values\<close>

definition poke :: "byte list \<Rightarrow> nat \<Rightarrow> byte list \<Rightarrow> byte list ub" where
  "poke buf p bs =
     (if p + length bs \<le> length buf then Some (take p buf @ bs @ drop (p + length bs) buf) else None)"

definition set1 :: "byte list \<Rightarrow> nat \<Rightarrow> byte \<Rightarrow> byte list ub" where
  "set1 buf p val = poke buf p [val]"

definition set2BE :: "byte list \<Rightarrow> nat \<Rightarrow> 16 word \<Rightarrow> byte list ub" where
  "set2BE buf p val = poke buf p [ucast (drop_bit 8 val), ucast val]"

definition set4BE :: "byte list \<Rightarrow> nat \<Rightarrow> u32 \<Rightarrow> byte list ub" where
  "set4BE buf p val = poke buf p
     [ucast (drop_bit 24 val), ucast (drop_bit 16 val), ucast (drop_bit 8 val), ucast val]"

definition set8BE :: "byte list \<Rightarrow> nat \<Rightarrow> 64 word \<Rightarrow> byte list ub" where
  "set8BE buf p val = poke buf p
     [ucast (drop_bit 56 val), ucast (drop_bit 48 val), ucast (drop_bit 40 val), ucast (drop_bit 32 val),
      ucast (drop_bit 24 val), ucast (drop_bit 16 val), ucast (drop_bit 8 val), ucast val]"

definition set2LE :: "byte list \<Rightarrow> nat \<Rightarrow> 16 word \<Rightarrow> byte list ub" where
  "set2LE buf p val = poke buf p [ucast val, ucast (drop_bit 8 val)]"

definition set4LE :: "byte list \<Rightarrow> nat \<Rightarrow> u32 \<Rightarrow> byte list ub" where
  "set4LE buf p val = poke buf p
     [ucast val, ucast (drop_bit 8 val), ucast (drop_bit 16 val), ucast (drop_bit 24 val)]"

definition set8LE :: "byte list \<Rightarrow> nat \<Rightarrow> 64 word \<Rightarrow> byte list ub" where
  "set8LE buf p val = poke buf p
     [ucast val, ucast (drop_bit 8 val), ucast (drop_bit 16 val), ucast (drop_bit 24 val),
      ucast (drop_bit 32 val), ucast (drop_bit 40 val), ucast (drop_bit 48 val), ucast (drop_bit 56 val)]"

definition setUtf8String :: "byte list \<Rightarrow> nat \<Rightarrow> byte list \<Rightarrow> byte list ub" where
  "setUtf8String buf p str = do {
     buf \<leftarrow> set4BE buf p (of_nat (length str));
     poke buf (p + 4) str}"

section \<open>Bit-level facts\<close>

lemma poke_Some [simp]:
  "poke buf p bs = Some buf' \<longleftrightarrow>
     p + length bs \<le> length buf \<and> buf' = take p buf @ bs @ drop (p + length bs) buf"
  by (auto simp: poke_def)

text \<open>A byte of a wider word, and a word put together from bytes, bit by bit.\<close>

lemma bit_byte_part:
  fixes w :: "'a::len word"
  shows "bit (push_bit k (ucast (ucast (drop_bit k w) :: byte)) :: 'a word) n \<longleftrightarrow>
    k \<le> n \<and> n < k + 8 \<and> n < LENGTH('a) \<and> bit w n"
  by (auto simp: bit_simps)

lemma bit_byte_low:
  fixes w :: "'a::len word"
  shows "bit (ucast (ucast w :: byte) :: 'a word) n \<longleftrightarrow> n < 8 \<and> n < LENGTH('a) \<and> bit w n"
  by (auto simp: bit_simps)

lemma join16: "push_bit 8 (ucast (ucast (drop_bit 8 w) :: byte)) OR ucast (ucast w :: byte) = (w :: 16 word)"
  by (rule bit_word_eqI) (simp add: bit_or_iff bit_byte_part bit_byte_low, linarith)

lemma join32: "push_bit 24 (ucast (ucast (drop_bit 24 w) :: byte)) OR push_bit 16 (ucast (ucast (drop_bit 16 w) :: byte)) OR
    push_bit 8 (ucast (ucast (drop_bit 8 w) :: byte)) OR ucast (ucast w :: byte) = (w :: u32)"
  by (rule bit_word_eqI) (simp add: bit_or_iff bit_byte_part bit_byte_low, linarith)

lemma join64: "push_bit 56 (ucast (ucast (drop_bit 56 w) :: byte)) OR push_bit 48 (ucast (ucast (drop_bit 48 w) :: byte)) OR
    push_bit 40 (ucast (ucast (drop_bit 40 w) :: byte)) OR push_bit 32 (ucast (ucast (drop_bit 32 w) :: byte)) OR
    push_bit 24 (ucast (ucast (drop_bit 24 w) :: byte)) OR push_bit 16 (ucast (ucast (drop_bit 16 w) :: byte)) OR
    push_bit 8 (ucast (ucast (drop_bit 8 w) :: byte)) OR ucast (ucast w :: byte) = (w :: 64 word)"
  by (rule bit_word_eqI) (simp add: bit_or_iff bit_byte_part bit_byte_low, linarith)


text \<open>The same words in arithmetic form.\<close>

lemma or_push_nat: "a < 2 ^ k \<Longrightarrow> a OR push_bit k b = a + 2 ^ k * (b :: nat)"
proof -
  assume a: "a < 2 ^ k"
  have "\<not> bit a n \<or> \<not> bit (push_bit k b) n" for n
  proof (cases "n < k")
    case False
    then have "(2 :: nat) ^ k \<le> 2 ^ n" by (simp add: power_increasing)
    then have "a < 2 ^ n" using a by linarith
    then show ?thesis by (simp add: bit_iff_odd)
  qed (simp add: bit_push_bit_iff)
  then have "a + push_bit k b = a OR push_bit k b"
    by (rule disjunctive_add)
  then show ?thesis by (simp add: push_bit_eq_mult mult.commute)
qed

lemma or_bytes_nat:
  assumes "a < 256" "b < 256" "c < 256"
  shows "a OR push_bit 8 b OR push_bit 16 c OR push_bit 24 (d :: nat) = a + 256 * b + 65536 * c + 16777216 * d"
proof -
  have "a OR push_bit 8 b OR push_bit 16 c OR push_bit 24 d = a OR push_bit 8 (b OR push_bit 8 (c OR push_bit 8 d))"
    by (simp add: push_bit_or)
  then show ?thesis
    using assms by (simp add: or_push_nat)
qed

lemma unat_byte_lt: "unat (b :: byte) < 256"
  using unsigned_less [where 'a = nat and w = b] by simp

lemma unat_push_byte: "k + 8 \<le> 32 \<Longrightarrow> unat (push_bit k (ucast (b :: byte)) :: u32) = push_bit k (unat b)"
proof -
  assume "k + 8 \<le> 32"
  then have "unat b * 2 ^ k < 2 ^ 8 * 2 ^ (32 - 8)"
    using unat_byte_lt [of b] by (intro mult_less_le_imp_less power_increasing) auto
  then have "push_bit k (unat b) < 2 ^ 32" and "unat b < 2 ^ 32"
    using unat_byte_lt [of b] by (simp_all add: push_bit_eq_mult)
  then show ?thesis
    unfolding unsigned_push_bit_eq unsigned_ucast_eq by (simp add: take_bit_nat_eq_self)
qed

lemma get4LE_eq:
  "get4LE src p = (if p + 4 \<le> length src then Some (of_nat (le32 src p)) else None)"
proof (cases "p + 4 \<le> length src")
  case True
  let ?b = "\<lambda>i. src ! (p + i)"
  let ?w = "ucast (?b 0) OR push_bit 8 (ucast (?b 1)) OR push_bit 16 (ucast (?b 2)) OR push_bit 24 (ucast (?b 3)) :: u32"
  have "unat ?w = unat (?b 0) OR push_bit 8 (unat (?b 1)) OR push_bit 16 (unat (?b 2)) OR push_bit 24 (unat (?b 3))"
    using unat_push_byte [of 0 "?b 0"] by (simp add: unsigned_or_eq unat_push_byte)
  also have "\<dots> = le32 src p"
    by (subst or_bytes_nat) (simp_all add: unat_byte_lt le32_def byte_val_def)
  finally have "?w = of_nat (le32 src p)"
    using le32_lt [of src p] by (simp add: word_unat_eq_iff unat_of_nat_u32)
  then show ?thesis
    using True by (simp add: get4LE_def nth_ub_def)
qed (auto simp: get4LE_def nth_ub_def)

lemma get2LE_eq:
  "get2LE src p = (if p + 2 \<le> length src then Some (of_nat (le16 src p)) else None)"
proof (cases "p + 2 \<le> length src")
  case True
  let ?w = "ucast (src ! p) OR push_bit 8 (ucast (src ! (p + 1))) :: 16 word"
  have "unat (push_bit 8 (ucast (src ! (p + 1))) :: 16 word) = push_bit 8 (unat (src ! (p + 1)))"
    unfolding unsigned_push_bit_eq unsigned_ucast_eq
    using unat_byte_lt [of "src ! (p + 1)"] by (simp add: take_bit_nat_eq_self push_bit_eq_mult)
  moreover have "unat (ucast (src ! p) :: 16 word) = unat (src ! p)"
    unfolding unsigned_ucast_eq using unat_byte_lt [of "src ! p"] by (simp add: take_bit_nat_eq_self)
  ultimately have "unat ?w = unat (src ! p) OR push_bit 8 (unat (src ! (p + 1)))"
    by (simp add: unsigned_or_eq)
  also have "\<dots> = le16 src p"
    using unat_byte_lt [of "src ! p"] by (simp add: or_push_nat le16_def byte_val_def)
  finally have "?w = of_nat (le16 src p)"
    using le16_lt [of src p] by (simp add: word_unat_eq_iff unsigned_of_nat take_bit_nat_eq_self)
  then show ?thesis
    using True by (simp add: get2LE_def nth_ub_def)
qed (auto simp: get2LE_def nth_ub_def)

section \<open>Round trips\<close>

lemma join16_le: "ucast (ucast w :: byte) OR push_bit 8 (ucast (ucast (drop_bit 8 w) :: byte)) = (w :: 16 word)"
  using join16 [of w] by (simp only: ac_simps)

lemma join32_le: "ucast (ucast w :: byte) OR push_bit 8 (ucast (ucast (drop_bit 8 w) :: byte)) OR
    push_bit 16 (ucast (ucast (drop_bit 16 w) :: byte)) OR push_bit 24 (ucast (ucast (drop_bit 24 w) :: byte)) = (w :: u32)"
  using join32 [of w] by (simp only: ac_simps)

lemma join64_le: "ucast (ucast w :: byte) OR push_bit 8 (ucast (ucast (drop_bit 8 w) :: byte)) OR
    push_bit 16 (ucast (ucast (drop_bit 16 w) :: byte)) OR push_bit 24 (ucast (ucast (drop_bit 24 w) :: byte)) OR
    push_bit 32 (ucast (ucast (drop_bit 32 w) :: byte)) OR push_bit 40 (ucast (ucast (drop_bit 40 w) :: byte)) OR
    push_bit 48 (ucast (ucast (drop_bit 48 w) :: byte)) OR push_bit 56 (ucast (ucast (drop_bit 56 w) :: byte)) =
    (w :: 64 word)"
  using join64 [of w] by (simp only: ac_simps)

definition stored :: "byte list \<Rightarrow> nat \<Rightarrow> nat \<Rightarrow> byte list \<Rightarrow> bool" where
  "stored buf p n buf' \<longleftrightarrow> length buf' = length buf \<and> take p buf' = take p buf \<and>
     drop (p + n) buf' = drop (p + n) buf"

lemma roundtrip_2: 
  "set2BE buf p v = Some buf' \<Longrightarrow> get2BE buf' p = Some v \<and> stored buf p 2 buf'"
  "set2LE buf p v = Some buf' \<Longrightarrow> get2LE buf' p = Some v \<and> stored buf p 2 buf'"
  by (auto simp: set2BE_def get2BE_def set2LE_def get2LE_def nth_ub_append_right join16 join16_le stored_def)

lemma roundtrip_4: 
  "set4BE buf p w = Some buf' \<Longrightarrow> get4BE buf' p = Some w \<and> stored buf p 4 buf'"
  "set4LE buf p w = Some buf' \<Longrightarrow> get4LE buf' p = Some w \<and> stored buf p 4 buf'"
  by (auto simp: set4BE_def get4BE_def set4LE_def get4LE_def nth_ub_append_right join32 join32_le stored_def)
     (simp_all add: eval_nat_numeral)

lemma roundtrip_8: 
  "set8BE buf p x = Some buf' \<Longrightarrow> get8BE buf' p = Some x \<and> stored buf p 8 buf'"
  "set8LE buf p x = Some buf' \<Longrightarrow> get8LE buf' p = Some x \<and> stored buf p 8 buf'"
  by (auto simp: set8BE_def get8BE_def set8LE_def get8LE_def nth_ub_append_right join64 join64_le stored_def)
     (simp_all add: eval_nat_numeral)

lemma read4BE_get: "read4BE src p = map_option (\<lambda>v. (v, p + 4)) (get4BE src p)"
  by (auto simp: read4BE_def get4BE_def read1_def numeral_3_eq_3 split: Option.bind_splits)

section \<open>Properties\<close>

text \<open>
  C33.  Storing a value and fetching it again returns it, for every width and both byte orders, at
  every position of the buffer where it fits; nothing else in the buffer changes.
\<close>

theorem set_get_roundtrip:
  "(set2BE buf p v = Some buf' \<longrightarrow> get2BE buf' p = Some v \<and> stored buf p 2 buf') \<and>
   (set2LE buf p v = Some buf' \<longrightarrow> get2LE buf' p = Some v \<and> stored buf p 2 buf') \<and>
   (set4BE buf p w = Some buf' \<longrightarrow> get4BE buf' p = Some w \<and> stored buf p 4 buf') \<and>
   (set4LE buf p w = Some buf' \<longrightarrow> get4LE buf' p = Some w \<and> stored buf p 4 buf') \<and>
   (set8BE buf p x = Some buf' \<longrightarrow> get8BE buf' p = Some x \<and> stored buf p 8 buf') \<and>
   (set8LE buf p x = Some buf' \<longrightarrow> get8LE buf' p = Some x \<and> stored buf p 8 buf')"
  by (intro conjI impI roundtrip_2 roundtrip_4 roundtrip_8)

theorem set_get_roundtrip_witness:
  "get4LE [9, 0x78, 0x56, 0x34, 0x12, 9] 1 = Some 0x12345678"
  using set_get_roundtrip [where buf = "[9, 0, 0, 0, 0, 9]" and p = 1 and buf' = "[9, 0x78, 0x56, 0x34, 0x12, 9]" and w = "0x12345678"]
  by (simp add: set4LE_def poke_def)

text \<open>
  A string stored with its length prefix is read back unchanged and NUL-terminated, and the
  pointer ends up right behind it.
\<close>

theorem utf8_string_roundtrip:
  assumes "setUtf8String buf p str = Some buf'" and "length str < 2 ^ 32"
  shows "readNewUtf8String buf' p = Some (str @ [0], of_nat (length str), p + 4 + length str) \<and>
    skipUtf8String buf' p = Some (p + 4 + length str)"
proof -
  obtain buf1 where 1: "set4BE buf p (of_nat (length str)) = Some buf1" "poke buf1 (p + 4) str = Some buf'"
    using assms(1) by (auto simp: setUtf8String_def elim: bind_eq_SomeE)
  have seg: "segment_ub buf' (p + 4) (length str) = Some str" and pre: "take (p + 4) buf' = take (p + 4) buf1"
    using 1(2) by (auto simp: segment_def)
  have "get4BE buf' p = get4BE buf1 p"
  proof -
    have "nth_ub buf' (p + i) = nth_ub buf1 (p + i)" if "i < 4" for i
      using 1(2) that by (auto simp: nth_ub_def nth_append)
    from this [of 0] this [of 1] this [of 2] this [of 3] show ?thesis
      by (simp add: get4BE_def)
  qed
  then have "read4BE buf' p = Some (of_nat (length str), p + 4)"
    using roundtrip_4(1) [OF 1(1)] by (simp add: read4BE_get)
  then show ?thesis
    using seg assms(2) by (simp add: readNewUtf8String_def skipUtf8String_def unat_of_nat_u32 del: segment_ub_Some)
qed

theorem utf8_string_roundtrip_witness:
  "readNewUtf8String [0, 0, 0, 2, 104, 105] 0 = Some ([104, 105, 0], 2, 6)"
  using utf8_string_roundtrip [of "[1, 2, 3, 4, 5, 6]" 0 "[104, 105]" "[0, 0, 0, 2, 104, 105]"]
  by (simp add: setUtf8String_def set4BE_def poke_def)

end
