(* ===== verification/Hash.thy ===== *)
theory Hash
  imports Prelude "HOL-Library.Multiset"
begin

unbundle bit_operations_syntax

text \<open>
  The open-addressing hash table (\<^verbatim>\<open>minzip/Hash.c\<close>, \<^verbatim>\<open>minzip/Hash.h\<close>).

  A slot holds NULL, the tombstone pointer or an item pointer.  A probe loop is run for at most
  \<open>tableSize\<close> steps: a longer run would revisit slots without changing anything, so running out
  of steps is exactly the case in which the C loop never ends (or, for a single-entry table, leaves
  the array).  \<open>calloc\<close> fails when the byte count does not fit a \<open>size_t\<close>, and otherwise as the
  parameter \<open>heap_ok\<close> decides.  Sizes and counters are
  natural numbers; the invariant bounds the table so that no \<open>int\<close> expression overflows.
\<close>

datatype 'a slot = Null | Tombstone | Item 'a

record 'a HashEntry =
  hashValue :: u32
  hdata :: "'a slot"

record 'a HashTable =
  tableSize :: nat
  numEntries :: nat
  numDeadEntries :: nat
  pEntries :: "'a HashEntry list"
  freeFunc :: bool

text \<open>A call returns, stops the process through \<open>abort\<close> or \<open>assert\<close>, or never returns.\<close>

datatype 'a run = Done 'a | Aborts | Hangs

definition LOAD_NUMER :: nat where "LOAD_NUMER = 5"

definition LOAD_DENOM :: nat where "LOAD_DENOM = 8"

definition sizeof_HashTable :: nat where "sizeof_HashTable = 20"

definition calloc :: "(nat \<Rightarrow> nat \<Rightarrow> bool) \<Rightarrow> nat \<Rightarrow> nat \<Rightarrow> bool" where
  "calloc heap_ok n sz \<longleftrightarrow> n * sz < 2 ^ 32 \<and> heap_ok n sz"

section \<open>Sizes\<close>

definition mzHashSize :: "u32 \<Rightarrow> u32" where
  "mzHashSize n = (n * of_nat LOAD_DENOM) div of_nat LOAD_NUMER + 1"

definition roundUpPower2 :: "u32 \<Rightarrow> u32" where
  "roundUpPower2 val =
     (let val = val - 1;
          val = val OR drop_bit 1 val;
          val = val OR drop_bit 2 val;
          val = val OR drop_bit 4 val;
          val = val OR drop_bit 8 val;
          val = val OR drop_bit 16 val
      in val + 1)"

section \<open>Creation and clearing\<close>

definition empty_entry :: "'a HashEntry" where
  "empty_entry = \<lparr>hashValue = 0, hdata = Null\<rparr>"

definition mzHashTableCreate :: "(nat \<Rightarrow> nat \<Rightarrow> bool) \<Rightarrow> u32 \<Rightarrow> bool \<Rightarrow> 'a HashTable option run" where
  "mzHashTableCreate heap_ok initialSize ff =
     (if initialSize = 0 then Aborts
      else let n = unat (roundUpPower2 initialSize) in
        if calloc heap_ok n sizeof_HashTable
        then Done (Some \<lparr>tableSize = n, numEntries = 0, numDeadEntries = 0,
               pEntries = replicate n empty_entry, freeFunc = ff\<rparr>)
        else Done None)"

text \<open>The second component is the sequence of items handed to the free function.\<close>

fun clear_entries :: "bool \<Rightarrow> 'a HashEntry list \<Rightarrow> 'a HashEntry list \<times> 'a list" where
  "clear_entries ff [] = ([], [])"
| "clear_entries ff (e # es) =
     (let (es', freed) = clear_entries ff es in
      case hdata e of
        Tombstone \<Rightarrow> (e\<lparr>hdata := Null\<rparr> # es', freed)
      | Item x \<Rightarrow> (e\<lparr>hdata := Null\<rparr> # es', if ff then x # freed else freed)
      | Null \<Rightarrow> (e # es', freed))"

definition mzHashTableClear :: "'a HashTable \<Rightarrow> 'a HashTable \<times> 'a list" where
  "mzHashTableClear t =
     (let (es, freed) = clear_entries (freeFunc t) (pEntries t)
      in (t\<lparr>pEntries := es, numEntries := 0, numDeadEntries := 0\<rparr>, freed))"

definition mzHashTableFree :: "'a HashTable option \<Rightarrow> 'a list" where
  "mzHashTableFree pt = (case pt of None \<Rightarrow> [] | Some t \<Rightarrow> snd (mzHashTableClear t))"

section \<open>Probing\<close>

definition slot_of :: "nat \<Rightarrow> u32 \<Rightarrow> nat" where
  "slot_of n h = unat (h AND of_nat (n - 1))"

definition wrap_next :: "nat \<Rightarrow> nat \<Rightarrow> nat" where
  "wrap_next n i = (if i + 1 = n then 0 else i + 1)"

definition mask_next :: "nat \<Rightarrow> nat \<Rightarrow> nat" where
  "mask_next n i = (i + 1) AND (n - 1)"

fun probe :: "('e \<Rightarrow> bool) \<Rightarrow> (nat \<Rightarrow> nat) \<Rightarrow> 'e list \<Rightarrow> nat \<Rightarrow> nat \<Rightarrow> nat option" where
  "probe stop next es 0 i = None"
| "probe stop next es (Suc fuel) i =
     (if length es \<le> i then None
      else if stop (es ! i) then Some i
      else probe stop next es fuel (next i))"

definition is_null :: "'a HashEntry \<Rightarrow> bool" where
  "is_null e \<longleftrightarrow> hdata e = Null"

definition matches :: "u32 \<Rightarrow> ('a \<Rightarrow> bool) \<Rightarrow> 'a HashEntry \<Rightarrow> bool" where
  "matches h eq e \<longleftrightarrow>
     (case hdata e of Item x \<Rightarrow> hashValue e = h \<and> eq x | _ \<Rightarrow> False)"

section \<open>Resizing\<close>

definition countTombStones :: "'a HashEntry list \<Rightarrow> nat" where
  "countTombStones es = length (filter (\<lambda>e. case hdata e of Tombstone \<Rightarrow> True | _ \<Rightarrow> False) es)"

fun rehash :: "nat \<Rightarrow> 'a HashEntry list \<Rightarrow> 'a HashEntry list \<Rightarrow> 'a HashEntry list option" where
  "rehash newSize [] new = Some new"
| "rehash newSize (e # es) new =
     (case hdata e of
        Item x \<Rightarrow>
          (case probe is_null (mask_next newSize) new newSize (slot_of newSize (hashValue e)) of
             None \<Rightarrow> None
           | Some newIdx \<Rightarrow>
               rehash newSize es (new[newIdx := \<lparr>hashValue = hashValue e, hdata = Item x\<rparr>]))
      | _ \<Rightarrow> rehash newSize es new)"

definition resizeHash :: "(nat \<Rightarrow> nat \<Rightarrow> bool) \<Rightarrow> 'a HashTable \<Rightarrow> nat \<Rightarrow> (bool \<times> 'a HashTable) run" where
  "resizeHash heap_ok t newSize =
     (if countTombStones (pEntries t) \<noteq> numDeadEntries t then Aborts
      else if \<not> calloc heap_ok newSize sizeof_HashTable then Done (False, t)
      else case rehash newSize (pEntries t) (replicate newSize empty_entry) of
          None \<Rightarrow> Hangs
        | Some es \<Rightarrow>
            if countTombStones es \<noteq> 0 then Aborts
            else Done (True, t\<lparr>pEntries := es, tableSize := newSize, numDeadEntries := 0\<rparr>))"

section \<open>Lookup and removal\<close>

text \<open>
  \<open>doAdd\<close> is \<open>None\<close> for \<open>false\<close> and carries the pointer to store otherwise: the searched item may
  have another type than the stored ones when nothing is added.
\<close>

definition add_entry :: "(nat \<Rightarrow> nat \<Rightarrow> bool) \<Rightarrow> 'a HashTable \<Rightarrow> u32 \<Rightarrow> 'a \<Rightarrow> nat \<Rightarrow> ('a option \<times> 'a HashTable) run" where
  "add_entry heap_ok t itemHash x i =
     (let t = t\<lparr>pEntries := (pEntries t)[i := \<lparr>hashValue = itemHash, hdata = Item x\<rparr>],
                numEntries := numEntries t + 1\<rparr>;
          r = (if tableSize t * LOAD_NUMER < (numEntries t + numDeadEntries t) * LOAD_DENOM
               then resizeHash heap_ok t (tableSize t * 2) else Done (True, t))
      in case r of
          Done (True, t) \<Rightarrow> if numEntries t < tableSize t then Done (Some x, t) else Aborts
        | Done (False, t) \<Rightarrow> Aborts
        | Aborts \<Rightarrow> Aborts
        | Hangs \<Rightarrow> Hangs)"

definition mzHashTableLookup ::
  "(nat \<Rightarrow> nat \<Rightarrow> bool) \<Rightarrow> 'a HashTable \<Rightarrow> u32 \<Rightarrow> 'i \<Rightarrow> ('a \<Rightarrow> 'i \<Rightarrow> int) \<Rightarrow> ('i \<Rightarrow> 'a) option \<Rightarrow>
   ('a option \<times> 'a HashTable) run" where
  "mzHashTableLookup heap_ok t itemHash item cmpFunc doAdd =
     (if tableSize t = 0 then Aborts
      else case probe (\<lambda>e. is_null e \<or> matches itemHash (\<lambda>x. cmpFunc x item = 0) e)
             (wrap_next (tableSize t)) (pEntries t) (tableSize t) (slot_of (tableSize t) itemHash) of
          None \<Rightarrow> Hangs
        | Some i \<Rightarrow>
            (case hdata (pEntries t ! i) of
               Null \<Rightarrow> (case doAdd of
                   None \<Rightarrow> Done (None, t)
                 | Some ptr \<Rightarrow> add_entry heap_ok t itemHash (ptr item) i)
             | Item x \<Rightarrow> Done (Some x, t)
             | Tombstone \<Rightarrow> Hangs))"

definition mzHashTableRemove :: "'a HashTable \<Rightarrow> u32 \<Rightarrow> 'a \<Rightarrow> (bool \<times> 'a HashTable) run" where
  "mzHashTableRemove t itemHash item =
     (if tableSize t = 0 then Aborts
      else case probe (\<lambda>e. is_null e \<or> hdata e = Item item)
             (wrap_next (tableSize t)) (pEntries t) (tableSize t) (slot_of (tableSize t) itemHash) of
          None \<Rightarrow> Hangs
        | Some i \<Rightarrow>
            if is_null (pEntries t ! i) then Done (False, t)
            else Done (True, t\<lparr>pEntries := (pEntries t)[i := (pEntries t ! i)\<lparr>hdata := Tombstone\<rparr>],
                   numEntries := numEntries t - 1, numDeadEntries := numDeadEntries t + 1\<rparr>))"

section \<open>Iteration and statistics\<close>

fun foreach_entries :: "('a \<Rightarrow> 's \<Rightarrow> int \<times> 's) \<Rightarrow> 'a HashEntry list \<Rightarrow> 's \<Rightarrow> int \<times> 's" where
  "foreach_entries func [] s = (0, s)"
| "foreach_entries func (e # es) s =
     (case hdata e of
        Item x \<Rightarrow> (let (val, s) = func x s in if val \<noteq> 0 then (val, s) else foreach_entries func es s)
      | _ \<Rightarrow> foreach_entries func es s)"

definition mzHashForeach :: "'a HashTable \<Rightarrow> ('a \<Rightarrow> 's \<Rightarrow> int \<times> 's) \<Rightarrow> 's \<Rightarrow> int \<times> 's" where
  "mzHashForeach t func arg = foreach_entries func (pEntries t) arg"

text \<open>An iterator is its index; \<open>iter_next es i\<close> is the first live slot from \<open>i\<close> on, or the end.\<close>

function iter_next :: "'a HashEntry list \<Rightarrow> nat \<Rightarrow> nat" where
  "iter_next es i =
     (if length es \<le> i then i
      else case hdata (es ! i) of Item x \<Rightarrow> i | _ \<Rightarrow> iter_next es (i + 1))"
  by pat_completeness auto
termination
  by (relation "measure (\<lambda>(es, i). length es - i)") auto

declare iter_next.simps [simp del]

definition mzHashIterNext :: "'a HashTable \<Rightarrow> int \<Rightarrow> int" where
  "mzHashIterNext t idx = int (iter_next (pEntries t) (nat (idx + 1)))"

definition mzHashIterBegin :: "'a HashTable \<Rightarrow> int" where
  "mzHashIterBegin t = mzHashIterNext t (- 1)"

definition mzHashIterDone :: "'a HashTable \<Rightarrow> int \<Rightarrow> bool" where
  "mzHashIterDone t idx \<longleftrightarrow> int (tableSize t) \<le> idx"

definition mzHashIterData :: "'a HashTable \<Rightarrow> int \<Rightarrow> 'a slot run" where
  "mzHashIterData t idx =
     (if 0 \<le> idx \<and> idx < int (tableSize t) then Done (hdata (pEntries t ! nat idx)) else Aborts)"

text \<open>
  \<open>for (mzHashIterBegin; !mzHashIterDone; mzHashIterNext)\<close>: the data met in order.  Every step
  moves the index on, so \<open>tableSize\<close> steps reach the end.
\<close>

fun iter_loop :: "'a HashTable \<Rightarrow> nat \<Rightarrow> int \<Rightarrow> 'a slot run list" where
  "iter_loop t 0 idx = []"
| "iter_loop t (Suc fuel) idx =
     (if mzHashIterDone t idx then []
      else mzHashIterData t idx # iter_loop t fuel (mzHashIterNext t idx))"

definition iter_all :: "'a HashTable \<Rightarrow> 'a slot run list" where
  "iter_all t = iter_loop t (tableSize t) (mzHashIterBegin t)"

definition mzHashTableNumEntries :: "'a HashTable \<Rightarrow> nat" where
  "mzHashTableNumEntries t = numEntries t"

definition mzHashTableMemUsage :: "'a HashTable \<Rightarrow> nat" where
  "mzHashTableMemUsage t = sizeof_HashTable + tableSize t * 8"

fun count_probe :: "('e \<Rightarrow> bool) \<Rightarrow> (nat \<Rightarrow> nat) \<Rightarrow> 'e list \<Rightarrow> nat \<Rightarrow> nat \<Rightarrow> int \<Rightarrow> (nat \<times> int) option" where
  "count_probe stop next es 0 i cnt = None"
| "count_probe stop next es (Suc fuel) i cnt =
     (if length es \<le> i then None
      else if stop (es ! i) then Some (i, cnt)
      else count_probe stop next es fuel (next i) (cnt + 1))"

definition countProbes :: "'a HashTable \<Rightarrow> u32 \<Rightarrow> 'i \<Rightarrow> ('a \<Rightarrow> 'i \<Rightarrow> int) \<Rightarrow> int run" where
  "countProbes t itemHash item cmpFunc =
     (if tableSize t = 0 then Aborts
      else case count_probe (\<lambda>e. is_null e \<or> matches itemHash (\<lambda>x. cmpFunc x item = 0) e)
             (wrap_next (tableSize t)) (pEntries t) (tableSize t) (slot_of (tableSize t) itemHash) 0 of
          None \<Rightarrow> Hangs
        | Some (i, cnt) \<Rightarrow> if is_null (pEntries t ! i) then Done (-1) else Done cnt)"

text \<open>The figures that the statistics function logs: entries, minimum, maximum and total probes.\<close>

fun probe_stats :: "'a HashTable \<Rightarrow> ('a \<Rightarrow> u32) \<Rightarrow> ('a \<Rightarrow> 'a \<Rightarrow> int) \<Rightarrow> 'a slot run list \<Rightarrow>
    int \<times> int \<times> int \<times> int \<Rightarrow> (int \<times> int \<times> int \<times> int) run" where
  "probe_stats t calcFunc cmpFunc [] acc = Done acc"
| "probe_stats t calcFunc cmpFunc (d # ds) (num, mn, mx, tot) =
     (case d of
        Done (Item x) \<Rightarrow>
          (case countProbes t (calcFunc x) x cmpFunc of
             Done cnt \<Rightarrow> probe_stats t calcFunc cmpFunc ds
               (num + 1, if cnt < mn then cnt else mn, if cnt > mx then cnt else mx, tot + cnt)
           | Aborts \<Rightarrow> Aborts
           | Hangs \<Rightarrow> Hangs)
      | _ \<Rightarrow> Aborts)"

definition mzHashTableProbeCount ::
  "'a HashTable \<Rightarrow> ('a \<Rightarrow> u32) \<Rightarrow> ('a \<Rightarrow> 'a \<Rightarrow> int) \<Rightarrow> (int \<times> int \<times> int \<times> int) run" where
  "mzHashTableProbeCount t calcFunc cmpFunc =
     probe_stats t calcFunc cmpFunc (iter_all t) (0, 65536 * 32767, 0, 0)"

section \<open>Powers of two\<close>

lemma slot_of_pow2: "k \<le> 32 \<Longrightarrow> slot_of (2 ^ k) h = unat h mod 2 ^ k"
proof -
  assume "k \<le> 32"
  have "(of_nat (2 ^ k - 1) :: u32) = mask k"
    by (metis mask_eq_exp_minus_1 of_nat_mask_eq)
  then show ?thesis
    unfolding slot_of_def by (simp only: take_bit_eq_mask [symmetric] unsigned_take_bit_eq)
       (rule take_bit_eq_mod)
qed

lemma mask_next_pow2: "mask_next (2 ^ k) i = (i + 1) mod 2 ^ k"
  unfolding mask_next_def mask_eq_exp_minus_1 [symmetric] take_bit_eq_mask [symmetric]
  by (rule take_bit_eq_mod)

lemma wrap_next_mod: "i < n \<Longrightarrow> wrap_next n i = (i + 1) mod n"
  by (auto simp: wrap_next_def mod_less)

lemma smear_bits:
  fixes w m :: u32
  assumes "\<And>i. bit w i \<longleftrightarrow> (\<exists>j < s. bit m (i + j))"
  shows "bit (w OR drop_bit s w) i \<longleftrightarrow> (\<exists>j < s + s. bit m (i + j))"
proof -
  have "(\<exists>j < s + s. bit m (i + j)) \<longleftrightarrow> (\<exists>j < s. bit m (i + j)) \<or> (\<exists>j < s. bit m (i + s + j))"
  proof (intro iffI; (elim disjE exE conjE)?)
    fix j assume "j < s + s" "bit m (i + j)"
    then show "(\<exists>j < s. bit m (i + j)) \<or> (\<exists>j < s. bit m (i + s + j))"
      by (cases "j < s") (auto simp: not_less le_iff_add add.assoc)
  next
    fix j assume "j < s" "bit m (i + s + j)"
    then show "\<exists>j < s + s. bit m (i + j)"
      by (intro exI [of _ "s + j"]) (simp add: add.assoc)
  next
    fix j assume "j < s" "bit m (i + j)"
    then show "\<exists>j < s + s. bit m (i + j)"
      by (intro exI [of _ j]) simp
  qed
  then show ?thesis
    by (simp add: bit_or_iff bit_drop_bit_eq assms add.commute)
qed

lemma smeared_bits:
  "bit (roundUpPower2 (m + 1) - 1) i \<longleftrightarrow> (\<exists>j<32. bit m (i + j))"
proof -
  define w1 where "w1 = m OR drop_bit 1 m"
  define w2 where "w2 = w1 OR drop_bit 2 w1"
  define w3 where "w3 = w2 OR drop_bit 4 w2"
  define w4 where "w4 = w3 OR drop_bit 8 w3"
  have "bit w1 i \<longleftrightarrow> (\<exists>j<2. bit m (i + j))" for i
    unfolding w1_def using smear_bits [of m 1 m i] by (simp add: numeral_2_eq_2)
  then have "bit w2 i \<longleftrightarrow> (\<exists>j<4. bit m (i + j))" for i
    unfolding w2_def using smear_bits [of w1 2 m i] by simp
  then have "bit w3 i \<longleftrightarrow> (\<exists>j<8. bit m (i + j))" for i
    unfolding w3_def using smear_bits [of w2 4 m i] by simp
  then have "bit w4 i \<longleftrightarrow> (\<exists>j<16. bit m (i + j))" for i
    unfolding w4_def using smear_bits [of w3 8 m i] by simp
  then have "bit (w4 OR drop_bit 16 w4) i \<longleftrightarrow> (\<exists>j<32. bit m (i + j))"
    using smear_bits [of w4 16 m i] by simp
  then show ?thesis
    by (simp add: roundUpPower2_def w1_def w2_def w3_def w4_def Let_def)
qed

lemma highest_bit:
  fixes m :: u32
  assumes "m \<noteq> 0"
  obtains k where "2 ^ k \<le> unat m" "unat m < 2 ^ Suc k" "\<And>i. bit m i \<Longrightarrow> i \<le> k" "bit m k"
proof -
  have "1 \<le> unat m"
    using assms by (simp add: Suc_le_eq unat_gt_0)
  then obtain k where k: "2 ^ k \<le> unat m" "unat m < 2 ^ (k + 1)"
    using ex_power_ivl1 [of 2 "unat m"] by auto
  have bit_unat: "bit m i \<longleftrightarrow> odd (unat m div 2 ^ i)" for i
    using bit_unsigned_iff [where 'a = nat, of m i] bit_imp_possible_bit [of m i]
    by (auto simp: bit_iff_odd)
  have "unat m div 2 ^ k = 1"
    using k by (simp add: div_nat_eqI)
  moreover have "i \<le> k" if "bit m i" for i
  proof (rule ccontr)
    assume "\<not> i \<le> k"
    then have "(2 :: nat) ^ (k + 1) \<le> 2 ^ i" by (intro power_increasing) auto
    then have "unat m div 2 ^ i = 0" using k(2) by simp
    with that show False by (simp add: bit_unat)
  qed
  ultimately show ?thesis
    using that k bit_unat by auto
qed

lemma roundUpPower2_pow2:
  assumes "0 < val" and "val \<le> 2 ^ 31"
  obtains k where "k < 32" "unat (roundUpPower2 val) = 2 ^ k" "unat val \<le> 2 ^ k" "2 ^ k < 2 * unat val"
proof (cases "val = 1")
  case True
  have "roundUpPower2 1 = 1" by (simp add: roundUpPower2_def)
  then show ?thesis using that [of 0] True by simp
next
  case False
  define m where "m = val - 1"
  have val: "val = m + 1" and "m \<noteq> 0" using False by (simp_all add: m_def)
  have um: "unat val = unat m + 1"
    using assms(1) unat_minus_one [of val] by (simp add: m_def word_gt_0 unat_gt_0)
  obtain k where k: "2 ^ k \<le> unat m" "unat m < 2 ^ Suc k" "\<And>i. bit m i \<Longrightarrow> i \<le> k" "bit m k"
    using highest_bit [OF \<open>m \<noteq> 0\<close>] by metis
  have "unat val \<le> 2 ^ 31"
    using assms(2) by (simp add: word_le_nat_alt)
  then have "(2 :: nat) ^ k < 2 ^ 31" using k(1) um by linarith
  then have k31: "k < 31" using power_strict_increasing_iff [of "2 :: nat" k 31] by simp
  have "bit (roundUpPower2 val - 1) i \<longleftrightarrow> i < Suc k" for i
  proof -
    have "(\<exists>j<32. bit m (i + j)) \<longleftrightarrow> i \<le> k"
      using k(3,4) k31 by (force intro: exI [of _ "k - i"])
    then show ?thesis by (simp add: val smeared_bits less_Suc_eq_le)
  qed
  then have "roundUpPower2 val - 1 = mask (Suc k)"
    using k31 by (intro bit_word_eqI) (simp add: bit_mask_iff)
  then have "roundUpPower2 val = 2 ^ Suc k"
    by (metis add.commute diff_add_cancel mask_eq_exp_minus_1)
  moreover have "unat (2 ^ Suc k :: u32) = 2 ^ Suc k"
  proof -
    have "(2 :: nat) ^ Suc k < 2 ^ 32"
      using k31 by (intro power_strict_increasing) auto
    then show ?thesis
      using unat_of_nat_u32 [of "2 ^ Suc k"] by (simp only: of_nat_power of_nat_numeral)
  qed
  ultimately show ?thesis
    using that [of "Suc k"] k31 k(1,2) um by simp
qed

lemma unat_mzHashSize: "n < 2 ^ 28 \<Longrightarrow> unat (mzHashSize (of_nat n)) = n * 8 div 5 + 1"
proof -
  assume n: "n < 2 ^ 28"
  let ?w = "of_nat (n * 8) div 5 :: u32"
  have "unat ?w = n * 8 div 5"
    using n unat_of_nat_u32 [of "n * 8"] by (simp add: unat_div)
  then have "?w = of_nat (n * 8 div 5)"
    using n by (simp add: word_unat_eq_iff unat_of_nat_u32)
  then have "mzHashSize (of_nat n) = of_nat (n * 8 div 5 + 1)"
    by (simp add: mzHashSize_def LOAD_DENOM_def LOAD_NUMER_def)
  moreover have "n * 8 div 5 + 1 < 2 ^ 32" using n by simp
  ultimately show ?thesis using unat_of_nat_u32 by metis
qed

section \<open>Probe sequences\<close>

lemma probe_Some:
  assumes nx: "\<And>i. i < length es \<Longrightarrow> next i = (i + 1) mod length es"
  shows "s < length es \<Longrightarrow> probe stop next es fuel s = Some j \<Longrightarrow>
    \<exists>d<fuel. j = (s + d) mod length es \<and> stop (es ! j) \<and>
      (\<forall>d'<d. \<not> stop (es ! ((s + d') mod length es)))"
proof (induction fuel arbitrary: s)
  case (Suc fuel)
  show ?case
  proof (cases "stop (es ! s)")
    case True
    then show ?thesis using Suc.prems by (intro exI [of _ 0]) auto
  next
    case False
    let ?s = "(s + 1) mod length es"
    have "?s < length es" and "probe stop next es fuel ?s = Some j"
      using Suc.prems False nx by (auto intro: mod_less_divisor)
    from Suc.IH [OF this] obtain d where d: "d < fuel" "j = (?s + d) mod length es" "stop (es ! j)"
      "\<And>d'. d' < d \<Longrightarrow> \<not> stop (es ! ((?s + d') mod length es))" by blast
    have "\<not> stop (es ! ((s + d') mod length es))" if "d' < Suc d" for d'
      using that False d(4) [of "d' - 1"] Suc.prems(1)
      by (cases d') (simp_all add: mod_simps)
    then show ?thesis
      using d by (intro exI [of _ "Suc d"]) (simp add: mod_simps)
  qed
qed simp

lemma probe_total:
  assumes nx: "\<And>i. i < length es \<Longrightarrow> next i = (i + 1) mod length es"
  shows "s < length es \<Longrightarrow> d < fuel \<Longrightarrow> stop (es ! ((s + d) mod length es)) \<Longrightarrow>
    \<exists>j. probe stop next es fuel s = Some j"
proof (induction fuel arbitrary: s d)
  case (Suc fuel)
  show ?case
  proof (cases "stop (es ! s)")
    case False
    with Suc.prems obtain d' where d: "d = Suc d'" by (cases d) auto
    have "\<exists>j. probe stop next es fuel ((s + 1) mod length es) = Some j"
      by (rule Suc.IH [of _ d']) (use Suc.prems d in \<open>auto simp: mod_simps intro: mod_less_divisor\<close>)
    then show ?thesis using Suc.prems False nx by auto
  qed (use Suc.prems in auto)
qed simp

lemma cyclic_distance:
  assumes "s < n" and "j < (n :: nat)"
  obtains d where "d < n" "(s + d) mod n = j"
proof
  show "(if s \<le> j then j - s else j + n - s) < n" using assms by auto
  show "(s + (if s \<le> j then j - s else j + n - s)) mod n = j" using assms by auto
qed

lemma probe_found:
  assumes nx: "\<And>i. i < length es \<Longrightarrow> next i = (i + 1) mod length es"
    and "s < length es" and "j < length es" and "stop (es ! j)"
  obtains i d where "probe stop next es (length es) s = Some i" "i < length es"
    "i = (s + d) mod length es" "stop (es ! i)"
    "\<And>d'. d' < d \<Longrightarrow> \<not> stop (es ! ((s + d') mod length es))"
proof -
  obtain d where "d < length es" "(s + d) mod length es = j"
    using cyclic_distance assms(2,3) .
  then obtain i where i: "probe stop next es (length es) s = Some i"
    using probe_total [OF nx assms(2), of d] assms(4) by auto
  with probe_Some [OF nx assms(2) i] assms(2) that show ?thesis
    by (metis mod_less_divisor length_greater_0_conv list.size(3) not_less_zero)
qed

section \<open>The table invariant\<close>

definition entry_item :: "'a HashEntry \<Rightarrow> 'a list" where
  "entry_item e = (case hdata e of Item x \<Rightarrow> [x] | _ \<Rightarrow> [])"

definition live :: "'a HashEntry list \<Rightarrow> 'a list" where
  "live es = concat (map entry_item es)"

text \<open>From the home slot of \<open>h\<close>, slot \<open>j\<close> is reached without meeting an empty slot.\<close>

definition reaches :: "'a HashEntry list \<Rightarrow> u32 \<Rightarrow> nat \<Rightarrow> bool" where
  "reaches es h j \<longleftrightarrow>
     (\<exists>d. j = (slot_of (length es) h + d) mod length es \<and>
        (\<forall>d'<d. \<not> is_null (es ! ((slot_of (length es) h + d') mod length es))))"

definition chained :: "('a \<Rightarrow> u32) \<Rightarrow> 'a HashEntry list \<Rightarrow> bool" where
  "chained hk es \<longleftrightarrow>
     (\<forall>j<length es. \<forall>x. hdata (es ! j) = Item x \<longrightarrow> hashValue (es ! j) = hk x \<and> reaches es (hk x) j)"

definition table_ok :: "('a \<Rightarrow> 'k) \<Rightarrow> ('k \<Rightarrow> u32) \<Rightarrow> 'a HashTable \<Rightarrow> bool" where
  "table_ok key hash t \<longleftrightarrow>
     (\<exists>k<32. tableSize t = 2 ^ k) \<and> length (pEntries t) = tableSize t \<and>
     tableSize t * sizeof_HashTable < 2 ^ 32 \<and>
     numEntries t = length (live (pEntries t)) \<and> numDeadEntries t = countTombStones (pEntries t) \<and>
     (numEntries t + numDeadEntries t) * LOAD_DENOM \<le> tableSize t * LOAD_NUMER \<and>
     chained (\<lambda>x. hash (key x)) (pEntries t) \<and> distinct (map key (live (pEntries t)))"

definition table_map :: "('a \<Rightarrow> 'k) \<Rightarrow> 'a HashTable \<Rightarrow> 'k \<Rightarrow> 'a option" where
  "table_map key t = map_of (map (\<lambda>x. (key x, x)) (live (pEntries t)))"

lemma entry_item_simps [simp]:
  "entry_item \<lparr>hashValue = h, hdata = Item x\<rparr> = [x]" "is_null e \<Longrightarrow> entry_item e = []"
  "hdata e = Tombstone \<Longrightarrow> entry_item e = []" "hdata e = Item x \<Longrightarrow> entry_item e = [x]"
  by (simp_all add: entry_item_def is_null_def)

lemma set_live: "x \<in> set (live es) \<longleftrightarrow> (\<exists>j<length es. hdata (es ! j) = Item x)"
proof -
  have "set (entry_item e) = {x. hdata e = Item x}" for e :: "'a HashEntry"
    by (cases "hdata e") (simp_all add: entry_item_def)
  then show ?thesis
    by (simp add: live_def) (metis in_set_conv_nth)
qed

lemma live_update:
  assumes "j < length es"
  shows "mset (live (es[j := e])) + mset (entry_item (es ! j)) = mset (live es) + mset (entry_item e)"
proof -
  have es: "es = take j es @ es ! j # drop (Suc j) es"
    using assms by (rule id_take_nth_drop)
  show ?thesis
    by (subst (3) es) (simp add: upd_conv_take_nth_drop assms live_def)
qed

lemma live_replicate_empty [simp]: "live (replicate n empty_entry) = []"
  by (simp add: live_def empty_entry_def entry_item_def)

lemma slots_partition:
  "length es = length (live es) + countTombStones es + length (filter is_null es)"
  by (induction es)
     (auto simp: live_def countTombStones_def entry_item_def is_null_def split: slot.splits)

lemma null_slot_exists:
  assumes "length (live es) + countTombStones es < length es"
  obtains j where "j < length es" "is_null (es ! j)"
proof -
  have "filter is_null es \<noteq> []"
    using assms slots_partition [of es] by auto
  then show ?thesis
    using that by (auto simp: filter_empty_conv in_set_conv_nth)
qed

lemma countTombStones_update:
  assumes "j < length es"
  shows "countTombStones (es[j := e]) + (if hdata (es ! j) = Tombstone then 1 else 0) =
    countTombStones es + (if hdata e = Tombstone then 1 else 0)"
proof -
  have es: "es = take j es @ es ! j # drop (Suc j) es"
    using assms by (rule id_take_nth_drop)
  have T: "(case d of Tombstone \<Rightarrow> True | _ \<Rightarrow> False) \<longleftrightarrow> d = Tombstone" for d :: "'a slot"
    by (cases d) auto
  show ?thesis
    by (subst (3) es) (simp add: upd_conv_take_nth_drop assms countTombStones_def T)
qed

text \<open>Occupying an empty slot at the end of a probe run, or burying an item, keeps all chains.\<close>

lemma reaches_mono:
  assumes "reaches es h j" and "es \<noteq> []" and "length es' = length es"
    and "\<And>i. i < length es \<Longrightarrow> is_null (es' ! i) \<Longrightarrow> is_null (es ! i)"
  shows "reaches es' h j"
  using assms unfolding reaches_def by (metis length_greater_0_conv mod_less_divisor)

lemma chained_occupy:
  assumes "chained hk es" and "j < length es" and "is_null (es ! j)" and "reaches es (hk x) j"
  shows "chained hk (es[j := \<lparr>hashValue = hk x, hdata = Item x\<rparr>])"
proof -
  let ?es = "es[j := \<lparr>hashValue = hk x, hdata = Item x\<rparr>]"
  have "reaches ?es h i" if "reaches es h i" for h i
    by (rule reaches_mono [OF that]) (use assms(2,3) in \<open>auto simp: nth_list_update split: if_splits\<close>)
  then show ?thesis
    using assms unfolding chained_def by (auto simp: nth_list_update)
qed

lemma chained_bury:
  assumes "chained hk es" and "j < length es"
  shows "chained hk (es[j := (es ! j)\<lparr>hdata := Tombstone\<rparr>])"
proof -
  let ?es = "es[j := (es ! j)\<lparr>hdata := Tombstone\<rparr>]"
  have "reaches ?es h i" if "reaches es h i" for h i
    by (rule reaches_mono [OF that])
       (use assms(2) in \<open>auto simp: nth_list_update is_null_def split: if_splits\<close>)
  then show ?thesis
    using assms unfolding chained_def by (auto simp: nth_list_update)
qed

text \<open>
  The heart of the matter: a probe that stops at an empty slot has passed every slot at which an
  item with this hash value could be.
\<close>

lemma probe_complete:
  assumes "\<And>d'. d' < d \<Longrightarrow> \<not> stop (es ! ((slot_of (length es) h + d') mod length es))"
    and "is_null (es ! ((slot_of (length es) h + d) mod length es))"
    and "reaches es h j" and "stop (es ! j)" and "\<not> is_null (es ! j)"
  shows False
proof -
  let ?at = "\<lambda>d. (slot_of (length es) h + d) mod length es"
  obtain d' where d': "j = ?at d'" "\<And>d''. d'' < d' \<Longrightarrow> \<not> is_null (es ! ?at d'')"
    using assms(3) unfolding reaches_def by blast
  then have "\<not> d < d'" and "d' \<noteq> d"
    using assms(2,5) by auto
  then show False
    using assms(1) [of d'] assms(4) d' by simp
qed

section \<open>Rehashing\<close>

definition table_wf :: "('a \<Rightarrow> 'k) \<Rightarrow> ('k \<Rightarrow> u32) \<Rightarrow> 'a HashTable \<Rightarrow> bool" where
  "table_wf key hash t \<longleftrightarrow>
     (\<exists>k<32. tableSize t = 2 ^ k) \<and> length (pEntries t) = tableSize t \<and>
     tableSize t * sizeof_HashTable < 2 ^ 32 \<and>
     numEntries t = length (live (pEntries t)) \<and> numDeadEntries t = countTombStones (pEntries t) \<and>
     chained (\<lambda>x. hash (key x)) (pEntries t) \<and> distinct (map key (live (pEntries t)))"

lemma table_ok_wf:
  "table_ok key hash t \<longleftrightarrow> table_wf key hash t \<and>
     (numEntries t + numDeadEntries t) * LOAD_DENOM \<le> tableSize t * LOAD_NUMER"
  by (auto simp: table_ok_def table_wf_def)

lemma slot_of_less: "k < 32 \<Longrightarrow> slot_of (2 ^ k) h < 2 ^ k"
  by (simp add: slot_of_pow2)

lemma probe_null_reaches:
  assumes n: "length es = 2 ^ k" "k < 32"
    and nx: "\<And>i. i < length es \<Longrightarrow> next i = (i + 1) mod length es"
    and room: "length (live es) + countTombStones es < length es"
    and null_stops: "\<And>e. is_null e \<Longrightarrow> stop e"
  obtains i d where "probe stop next es (length es) (slot_of (length es) h) = Some i" "i < length es"
    "i = (slot_of (length es) h + d) mod length es" "stop (es ! i)"
    "\<And>d'. d' < d \<Longrightarrow> \<not> stop (es ! ((slot_of (length es) h + d') mod length es))" "reaches es h i"
proof -
  obtain j where "j < length es" "is_null (es ! j)"
    using null_slot_exists [OF room] .
  moreover have "slot_of (length es) h < length es"
    using n by (simp add: slot_of_less)
  ultimately obtain i d where i: "probe stop next es (length es) (slot_of (length es) h) = Some i"
    "i < length es" "i = (slot_of (length es) h + d) mod length es" "stop (es ! i)"
    "\<And>d'. d' < d \<Longrightarrow> \<not> stop (es ! ((slot_of (length es) h + d') mod length es))"
    using probe_found [OF nx, of "slot_of (length es) h" j stop] null_stops by metis
  moreover have "reaches es h i"
    unfolding reaches_def using i(3,5) null_stops by blast
  ultimately show ?thesis using that by metis
qed

lemma rehash_ok:
  assumes k: "k < 32"
  shows "length new = 2 ^ k \<Longrightarrow> chained hk new \<Longrightarrow> countTombStones new = 0 \<Longrightarrow>
    (\<forall>e \<in> set es. \<forall>x. hdata e = Item x \<longrightarrow> hashValue e = hk x) \<Longrightarrow>
    length (live new) + length (live es) < 2 ^ k \<Longrightarrow>
    \<exists>new'. rehash (2 ^ k) es new = Some new' \<and> length new' = 2 ^ k \<and> chained hk new' \<and>
      countTombStones new' = 0 \<and> mset (live new') = mset (live new) + mset (live es)"
proof (induction es arbitrary: new)
  case Nil
  then show ?case by (simp add: live_def)
next
  case (Cons e es)
  show ?case
  proof (cases "hdata e")
    case (Item x)
    have hv: "hashValue e = hk x" and len: "length (live new) + length (live es) + 1 < 2 ^ k"
      using Cons.prems(4,5) Item by (auto simp: live_def)
    obtain i d where i: "probe is_null (mask_next (2 ^ k)) new (length new)
        (slot_of (length new) (hk x)) = Some i" "i < length new" "is_null (new ! i)" "reaches new (hk x) i"
      by (rule probe_null_reaches [OF Cons.prems(1) k, of "mask_next (2 ^ k)" is_null "hk x"])
         (use Cons.prems(1,3) len mask_next_pow2 in \<open>auto simp del: add_Suc_right\<close>)
    let ?new = "new[i := \<lparr>hashValue = hk x, hdata = Item x\<rparr>]"
    have live: "mset (live ?new) = mset (live new) + {#x#}"
      using live_update [OF i(2), of "\<lparr>hashValue = hk x, hdata = Item x\<rparr>"] i(3) by simp
    have ll: "length (live ?new) = Suc (length (live new))"
      using arg_cong [OF live, of size] by simp
    have "countTombStones ?new = 0"
      using countTombStones_update [OF i(2), of "\<lparr>hashValue = hk x, hdata = Item x\<rparr>"] i(3) Cons.prems(3)
      by (simp split: if_splits)
    then obtain new' where "rehash (2 ^ k) es ?new = Some new'" "length new' = 2 ^ k" "chained hk new'"
      "countTombStones new' = 0" "mset (live new') = mset (live ?new) + mset (live es)"
      using Cons.IH [of ?new] chained_occupy [OF Cons.prems(2) i(2,3,4)] Cons.prems(1,4) ll len by auto
    then show ?thesis
      using i(1) Item hv live Cons.prems(1) by (simp add: live_def)
  qed (use Cons in \<open>auto simp: live_def entry_item_def\<close>)
qed

lemma resizeHash_ok:
  fixes t :: "'a HashTable"
  assumes wf: "table_wf key hash t" and calloc: "calloc heap_ok (tableSize t * 2) sizeof_HashTable"
    and room: "numEntries t < tableSize t * 2"
  obtains t' where "resizeHash heap_ok t (tableSize t * 2) = Done (True, t')" "table_wf key hash t'"
    "mset (live (pEntries t')) = mset (live (pEntries t))" "tableSize t' = tableSize t * 2"
    "numEntries t' = numEntries t" "numDeadEntries t' = 0"
proof -
  obtain k where k: "tableSize t = 2 ^ k" "k < 32"
    using wf by (auto simp: table_wf_def)
  have fits: "2 ^ Suc k * sizeof_HashTable < 2 ^ 32"
    using calloc k by (simp add: calloc_def mult.commute)
  have "(2 :: nat) ^ Suc k < 2 ^ 32"
    using fits by (simp add: sizeof_HashTable_def)
  then have k': "Suc k < 32"
    using power_strict_increasing_iff [of "2 :: nat" "Suc k" 32] by simp
  let ?hk = "\<lambda>x. hash (key x)"
  let ?es = "pEntries t"
  have hv: "\<forall>e \<in> set ?es. \<forall>x. hdata e = Item x \<longrightarrow> hashValue e = ?hk x"
    using wf by (auto simp: table_wf_def chained_def in_set_conv_nth)
  let ?new = "replicate (2 ^ Suc k) (empty_entry :: 'a HashEntry)"
  have chained: "chained ?hk ?new" and tombs: "countTombStones ?new = 0"
    by (simp_all add: chained_def countTombStones_def empty_entry_def)
  have fill: "length (live ?new) + length (live ?es) < 2 ^ Suc k"
    using room wf k by (simp add: table_wf_def mult.commute)
  obtain new where new: "rehash (2 ^ Suc k) ?es ?new = Some new" "length new = 2 ^ Suc k"
    "chained ?hk new" "countTombStones new = 0" "mset (live new) = mset (live ?es)"
    using rehash_ok [OF k' length_replicate chained tombs hv fill]
    by (auto simp del: power_Suc)
  have "distinct (map key (live new))"
    using wf new(5) unfolding table_wf_def
    by (metis mset_eq_imp_distinct_iff mset_map)
  moreover have "length (live new) = length (live ?es)"
    using new(5) by (metis size_mset)
  moreover have "\<exists>k'<32. tableSize t * 2 = 2 ^ k'"
    using k k' by (intro exI [of _ "Suc k"]) simp
  ultimately have "table_wf key hash (t\<lparr>pEntries := new, tableSize := tableSize t * 2, numDeadEntries := 0\<rparr>)"
    using wf new k fits by (simp add: table_wf_def mult.commute)
  then show ?thesis
    using that [of "t\<lparr>pEntries := new, tableSize := tableSize t * 2, numDeadEntries := 0\<rparr>"]
      wf calloc new k by (simp add: resizeHash_def table_wf_def mult.commute)
qed

section \<open>The table as a map\<close>

lemma keyed_map_Some:
  "distinct (map key xs) \<Longrightarrow>
   map_of (map (\<lambda>x. (key x, x)) xs) k = Some x \<longleftrightarrow> x \<in> set xs \<and> key x = k"
  by (subst map_of_eq_Some_iff) (auto simp: comp_def)

lemma keyed_map_None: "map_of (map (\<lambda>x. (key x, x)) xs) k = None \<longleftrightarrow> k \<notin> key ` set xs"
  by (auto simp: map_of_eq_None_iff image_iff)

lemma keyed_map_eqI:
  assumes "distinct (map key xs)" and "distinct (map key ys)" and "set xs = set ys"
  shows "map_of (map (\<lambda>x. (key x, x)) xs) = map_of (map (\<lambda>x. (key x, x)) ys)"
  using assms by (subst map_of_inject_set) (auto simp: comp_def)

lemma keyed_map_add:
  assumes "distinct (map key ys)" and "mset ys = add_mset x (mset xs)"
  shows "map_of (map (\<lambda>x. (key x, x)) ys) = (map_of (map (\<lambda>x. (key x, x)) xs))(key x \<mapsto> x)"
proof -
  have "mset ys = mset (x # xs)" using assms(2) by simp
  then have "distinct (map key (x # xs))" and "set ys = set (x # xs)"
    using assms(1) by (metis mset_eq_imp_distinct_iff mset_map, metis set_mset_mset)
  then show ?thesis
    using keyed_map_eqI [OF assms(1), of "x # xs"] by simp
qed

lemma table_room:
  assumes "table_ok key hash t"
  shows "length (live (pEntries t)) + countTombStones (pEntries t) < length (pEntries t)"
proof -
  obtain k where "tableSize t = 2 ^ k"
    using assms by (auto simp: table_ok_def)
  then have "0 < tableSize t" by simp
  then show ?thesis
    using assms by (simp add: table_ok_def LOAD_DENOM_def LOAD_NUMER_def)
qed

lemma table_size: 
  assumes "table_ok key hash t"
  obtains k where "k < 32" "tableSize t = 2 ^ k" "length (pEntries t) = 2 ^ k"
  using assms unfolding table_ok_def by metis

lemma add_entry_ok:
  assumes ok: "table_ok key hash t" and j: "j < length (pEntries t)" "is_null (pEntries t ! j)"
    and reach: "reaches (pEntries t) (hash (key x)) j" and fresh: "table_map key t (key x) = None"
  shows "(\<exists>t'. add_entry heap_ok t (hash (key x)) x j = Done (Some x, t') \<and> table_ok key hash t' \<and>
            table_map key t' = (table_map key t)(key x \<mapsto> x)) \<or>
         (add_entry heap_ok t (hash (key x)) x j = Aborts \<and> \<not> calloc heap_ok (tableSize t * 2) sizeof_HashTable)"
proof -
  let ?e = "\<lparr>hashValue = hash (key x), hdata = Item x\<rparr>"
  define t1 where "t1 = t\<lparr>pEntries := (pEntries t)[j := ?e], numEntries := numEntries t + 1\<rparr>"
  have live: "mset (live (pEntries t1)) = add_mset x (mset (live (pEntries t)))"
    using live_update [OF j(1), of ?e] j(2) by (simp add: t1_def)
  then have ll: "length (live (pEntries t1)) = Suc (length (live (pEntries t)))"
    by (metis size_add_mset size_mset)
  have tombs: "countTombStones (pEntries t1) = countTombStones (pEntries t)"
    using countTombStones_update [OF j(1), of ?e] j(2) by (simp add: t1_def is_null_def)
  have "mset (map key (live (pEntries t1))) = mset (key x # map key (live (pEntries t)))"
    using live by simp
  moreover have "distinct (key x # map key (live (pEntries t)))"
    using fresh ok by (simp add: table_map_def keyed_map_None table_ok_def)
  ultimately have dist: "distinct (map key (live (pEntries t1)))"
    using mset_eq_imp_distinct_iff by blast
  have wf: "table_wf key hash t1"
    using ok ll tombs dist chained_occupy [of "\<lambda>x. hash (key x)", OF _ j reach]
    by (auto simp: table_ok_def table_wf_def t1_def)
  have map1: "table_map key t1 = (table_map key t)(key x \<mapsto> x)"
    unfolding table_map_def by (rule keyed_map_add [OF dist live])
  obtain k where "tableSize t = 2 ^ k" using ok by (rule table_size)
  then have pos: "0 < tableSize t" by simp
  have load: "(numEntries t + numDeadEntries t) * 8 \<le> tableSize t * 5"
    using ok by (simp add: table_ok_def LOAD_DENOM_def LOAD_NUMER_def)
  have step: "add_entry heap_ok t (hash (key x)) x j =
      (case (if tableSize t1 * LOAD_NUMER < (numEntries t1 + numDeadEntries t1) * LOAD_DENOM
             then resizeHash heap_ok t1 (tableSize t1 * 2) else Done (True, t1)) of
          Done (True, t) \<Rightarrow> if numEntries t < tableSize t then Done (Some x, t) else Aborts
        | Done (False, t) \<Rightarrow> Aborts | Aborts \<Rightarrow> Aborts | Hangs \<Rightarrow> Hangs)"
    by (simp add: add_entry_def t1_def Let_def)
  show ?thesis
  proof (cases "tableSize t1 * LOAD_NUMER < (numEntries t1 + numDeadEntries t1) * LOAD_DENOM")
    case False
    then have "table_ok key hash t1" and "numEntries t1 < tableSize t1"
      using wf pos by (auto simp: table_ok_wf LOAD_DENOM_def LOAD_NUMER_def t1_def)
    then show ?thesis using False map1 by (simp add: step)
  next
    case True
    have sz: "tableSize t1 = tableSize t" by (simp add: t1_def)
    show ?thesis
    proof (cases "calloc heap_ok (tableSize t1 * 2) sizeof_HashTable")
      case False
      then show ?thesis
        using True wf sz by (simp add: step resizeHash_def table_wf_def)
    next
      case calloc: True
      have "numEntries t1 < tableSize t1 * 2"
        using load pos by (simp add: t1_def)
      then obtain t2 where t2: "resizeHash heap_ok t1 (tableSize t1 * 2) = Done (True, t2)"
        "table_wf key hash t2" "mset (live (pEntries t2)) = mset (live (pEntries t1))"
        "tableSize t2 = tableSize t1 * 2" "numEntries t2 = numEntries t1" "numDeadEntries t2 = 0"
        using resizeHash_ok [OF wf calloc] by metis
      have "(numEntries t + 1) * 8 \<le> tableSize t * 2 * 5"
        using load pos by presburger
      then have "table_ok key hash t2" and "numEntries t2 < tableSize t2"
        using t2 load pos by (auto simp: table_ok_wf LOAD_DENOM_def LOAD_NUMER_def t1_def)
      moreover have "table_map key t2 = table_map key t1"
        unfolding table_map_def using t2(2,3) dist
        by (intro keyed_map_eqI) (auto simp: table_wf_def dest: mset_eq_setD)
      ultimately show ?thesis using True t2(1) map1 by (simp add: step)
    qed
  qed
qed

lemma lookup_probe:
  assumes ok: "table_ok key hash t" and cmp: "\<And>x. cmp x i = (0 :: int) \<longleftrightarrow> key x = k"
  obtains j where "probe (\<lambda>e. is_null e \<or> matches (hash k) (\<lambda>x. cmp x i = 0) e)
      (wrap_next (tableSize t)) (pEntries t) (tableSize t) (slot_of (tableSize t) (hash k)) = Some j"
    "j < length (pEntries t)"
    "(is_null (pEntries t ! j) \<and> table_map key t k = None \<and> reaches (pEntries t) (hash k) j) \<or>
     (\<exists>x. hdata (pEntries t ! j) = Item x \<and> table_map key t k = Some x)"
proof -
  let ?stop = "\<lambda>e. is_null e \<or> matches (hash k) (\<lambda>x. cmp x i = 0) e" and ?es = "pEntries t"
  obtain n where n: "n < 32" "tableSize t = 2 ^ n" "length ?es = 2 ^ n"
    using ok by (rule table_size)
  obtain j d where j: "probe ?stop (wrap_next (tableSize t)) ?es (length ?es) (slot_of (length ?es) (hash k)) = Some j"
    "j < length ?es" "j = (slot_of (length ?es) (hash k) + d) mod length ?es" "?stop (?es ! j)"
    "\<And>d'. d' < d \<Longrightarrow> \<not> ?stop (?es ! ((slot_of (length ?es) (hash k) + d') mod length ?es))"
    "reaches ?es (hash k) j"
    by (rule probe_null_reaches [OF n(3,1) _ table_room [OF ok], of "wrap_next (tableSize t)" ?stop "hash k"])
       (use n wrap_next_mod in auto)
  have dist: "distinct (map key (live ?es))" and ch: "chained (\<lambda>x. hash (key x)) ?es"
    using ok by (auto simp: table_ok_def)
  have "table_map key t k = None" if "is_null (?es ! j)"
  proof (rule ccontr)
    assume "table_map key t k \<noteq> None"
    then obtain x where "x \<in> set (live ?es)" "key x = k"
      by (auto simp: table_map_def keyed_map_None)
    then obtain i' where "i' < length ?es" "hdata (?es ! i') = Item x" by (auto simp: set_live)
    with ch \<open>key x = k\<close> have "?stop (?es ! i')" "\<not> is_null (?es ! i')" "reaches ?es (hash k) i'"
      by (auto simp: chained_def matches_def cmp is_null_def)
    then show False
      using probe_complete [of d ?stop ?es "hash k" i'] j(3,5) that by blast
  qed
  moreover have "\<exists>x. hdata (?es ! j) = Item x \<and> table_map key t k = Some x" if "\<not> is_null (?es ! j)"
    using that j(2,4) dist
    by (auto simp: matches_def cmp table_map_def keyed_map_Some set_live split: slot.splits)
  ultimately show ?thesis
    using that j(1,2,6) n by auto
qed

section \<open>The dictionary interface\<close>

text \<open>
  What a client relies on: searching returns the entry of the abstract map, adding a present key
  returns the old entry and changes nothing, adding a new key extends the map.  Adding may abort
  the process, never loop.
\<close>

fun add_all :: "('t \<Rightarrow> 'a \<Rightarrow> ('a option \<times> 't) run) \<Rightarrow> 'a list \<Rightarrow> 't \<Rightarrow> 't run" where
  "add_all add [] t = Done t"
| "add_all add (x # xs) t =
     (case add t x of Done (r, t) \<Rightarrow> add_all add xs t | Aborts \<Rightarrow> Aborts | Hangs \<Rightarrow> Hangs)"

locale dictionary =
  fixes ok :: "'t \<Rightarrow> bool"
    and dmap :: "'t \<Rightarrow> 'k \<Rightarrow> 'a option"
    and key :: "'a \<Rightarrow> 'k"
    and ikey :: "'i \<Rightarrow> 'k"
    and find :: "'t \<Rightarrow> 'i \<Rightarrow> ('a option \<times> 't) run"
    and add :: "'t \<Rightarrow> 'a \<Rightarrow> ('a option \<times> 't) run"
  assumes find_law: "ok t \<Longrightarrow> find t i = Done (dmap t (ikey i), t)"
    and add_present: "ok t \<Longrightarrow> dmap t (key x) = Some y \<Longrightarrow> add t x = Done (Some y, t)"
    and add_absent: "ok t \<Longrightarrow> dmap t (key x) = None \<Longrightarrow> add t x = Aborts \<or>
      (\<exists>t'. add t x = Done (Some x, t') \<and> ok t' \<and> dmap t' = (dmap t)(key x \<mapsto> x))"
begin

lemma add_cases:
  assumes "ok t"
  obtains "add t x = Aborts"
  | t' y where "add t x = Done (Some y, t')" "ok t'" "dmap t' = [key x \<mapsto> x] ++ dmap t"
proof (cases "dmap t (key x)")
  case None
  then have "(dmap t)(key x \<mapsto> x) = [key x \<mapsto> x] ++ dmap t"
    by (auto simp: map_add_def split: option.splits)
  then show ?thesis using add_absent [OF assms None] that by metis
next
  case (Some y)
  then have "dmap t = [key x \<mapsto> x] ++ dmap t"
    by (auto simp: map_add_def split: option.splits)
  then show ?thesis using add_present [OF assms Some] assms that by metis
qed

lemma add_all_map:
  "ok t \<Longrightarrow> add_all add xs t = Done t' \<Longrightarrow>
   ok t' \<and> dmap t' = map_of (map (\<lambda>x. (key x, x)) xs) ++ dmap t"
proof (induction xs arbitrary: t)
  case (Cons x xs)
  from Cons.prems(1) show ?case
  proof (cases rule: add_cases [where x = x])
    case (2 t'' y)
    have "map_of (map (\<lambda>x. (key x, x)) xs) ++ ([key x \<mapsto> x] ++ dmap t) =
        (map_of (map (\<lambda>x. (key x, x)) xs))(key x \<mapsto> x) ++ dmap t"
      by (simp add: map_add_assoc)
    then show ?thesis using Cons 2 by (simp add: fun_upd_def)
  qed (use Cons.prems in simp)
qed simp

lemma add_all_returns: "ok t \<Longrightarrow> add_all add xs t \<noteq> Hangs"
proof (induction xs arbitrary: t)
  case (Cons x xs)
  from Cons.prems(1) show ?case
    by (cases rule: add_cases [where x = x]) (use Cons in auto)
qed simp

end

section \<open>The hash table provides a dictionary\<close>

text \<open>
  The client's side of the contract: both comparison functions return zero exactly on equal keys,
  and the hash value that accompanies an item is a function of its key.
\<close>

locale hash_client =
  fixes key :: "'a \<Rightarrow> 'k"
    and hash :: "'k \<Rightarrow> u32"
    and ikey :: "'i \<Rightarrow> 'k"
    and cmp :: "'a \<Rightarrow> 'i \<Rightarrow> int"
    and cmpE :: "'a \<Rightarrow> 'a \<Rightarrow> int"
  assumes cmp_key: "cmp x i = 0 \<longleftrightarrow> key x = ikey i"
    and cmpE_key: "cmpE x y = 0 \<longleftrightarrow> key x = key y"
begin

lemma lookup_find:
  assumes "table_ok key hash t"
  shows "mzHashTableLookup heap_ok t (hash (ikey i)) i cmp None = Done (table_map key t (ikey i), t)"
proof -
  have "tableSize t \<noteq> 0"
    using assms by (auto elim!: table_size)
  moreover obtain j where "probe (\<lambda>e. is_null e \<or> matches (hash (ikey i)) (\<lambda>y. cmp y i = 0) e)
      (wrap_next (tableSize t)) (pEntries t) (tableSize t) (slot_of (tableSize t) (hash (ikey i))) = Some j"
    "(is_null (pEntries t ! j) \<and> table_map key t (ikey i) = None \<and> reaches (pEntries t) (hash (ikey i)) j) \<or>
     (\<exists>y. hdata (pEntries t ! j) = Item y \<and> table_map key t (ikey i) = Some y)"
    using lookup_probe [OF assms, where cmp = cmp and i = i and k = "ikey i", OF cmp_key] by blast
  ultimately show ?thesis
    by (elim disjE conjE exE) (simp_all add: mzHashTableLookup_def is_null_def)
qed

lemma lookup_add:
  assumes "table_ok key hash t"
  shows "case table_map key t (key x) of
      Some y \<Rightarrow> mzHashTableLookup heap_ok t (hash (key x)) x cmpE (Some id) = Done (Some y, t)
    | None \<Rightarrow> (mzHashTableLookup heap_ok t (hash (key x)) x cmpE (Some id) = Aborts \<and>
            \<not> calloc heap_ok (tableSize t * 2) sizeof_HashTable) \<or>
        (\<exists>t'. mzHashTableLookup heap_ok t (hash (key x)) x cmpE (Some id) = Done (Some x, t') \<and>
            table_ok key hash t' \<and> table_map key t' = (table_map key t)(key x \<mapsto> x))"
proof -
  have ne: "tableSize t \<noteq> 0"
    using assms by (auto elim!: table_size)
  obtain j where j: "probe (\<lambda>e. is_null e \<or> matches (hash (key x)) (\<lambda>y. cmpE y x = 0) e)
      (wrap_next (tableSize t)) (pEntries t) (tableSize t) (slot_of (tableSize t) (hash (key x))) = Some j"
    "j < length (pEntries t)"
    "(is_null (pEntries t ! j) \<and> table_map key t (key x) = None \<and> reaches (pEntries t) (hash (key x)) j) \<or>
     (\<exists>y. hdata (pEntries t ! j) = Item y \<and> table_map key t (key x) = Some y)"
    using lookup_probe [OF assms, where cmp = cmpE and i = x and k = "key x", OF cmpE_key] .
  from j(3) show ?thesis
  proof (elim disjE conjE exE)
    assume a: "is_null (pEntries t ! j)" "table_map key t (key x) = None" "reaches (pEntries t) (hash (key x)) j"
    then show ?thesis
      using add_entry_ok [OF assms j(2) a(1,3,2), of heap_ok] ne j(1)
      by (auto simp: mzHashTableLookup_def is_null_def)
  next
    fix y assume "hdata (pEntries t ! j) = Item y" "table_map key t (key x) = Some y"
    then show ?thesis
      using ne j(1) by (simp add: mzHashTableLookup_def)
  qed
qed

end

sublocale hash_client \<subseteq> dict: dictionary "table_ok key hash" "table_map key" key ikey
  "\<lambda>t i. mzHashTableLookup heap_ok t (hash (ikey i)) i cmp None"
  "\<lambda>t x. mzHashTableLookup heap_ok t (hash (key x)) x cmpE (Some id)" for heap_ok
proof (standard, goal_cases)
  case (1 t i)
  then show ?case by (rule lookup_find)
next
  case (2 t x y)
  then show ?case using lookup_add [OF 2(1), where x = x] by simp
next
  case (3 t x)
  then show ?case using lookup_add [OF 3(1), where x = x and heap_ok = heap_ok] by auto
qed

section \<open>Creation, removal, clearing, iteration\<close>

lemma create_ok:
  assumes "mzHashTableCreate heap_ok initialSize ff = Done (Some t)" and "initialSize \<le> 2 ^ 31"
  shows "table_ok key hash t \<and> table_map key t = Map.empty \<and> unat initialSize \<le> tableSize t"
proof -
  have "0 < initialSize" and n: "calloc heap_ok (unat (roundUpPower2 initialSize)) sizeof_HashTable"
    and t: "t = \<lparr>tableSize = unat (roundUpPower2 initialSize), numEntries = 0, numDeadEntries = 0,
       pEntries = replicate (unat (roundUpPower2 initialSize)) empty_entry, freeFunc = ff\<rparr>"
    using assms(1) by (auto simp: mzHashTableCreate_def Let_def word_gt_0 split: if_splits)
  then obtain k where "k < 32" "unat (roundUpPower2 initialSize) = 2 ^ k" "unat initialSize \<le> 2 ^ k"
    using roundUpPower2_pow2 [OF _ assms(2)] by metis
  then show ?thesis
    using n unfolding t
    by (auto simp: table_ok_def table_map_def calloc_def chained_def countTombStones_def empty_entry_def
        live_replicate_empty [unfolded empty_entry_def])
qed

lemma remove_ok:
  assumes ok: "table_ok key hash t"
  shows "if x \<in> set (live (pEntries t))
    then \<exists>t'. mzHashTableRemove t (hash (key x)) x = Done (True, t') \<and> table_ok key hash t' \<and>
      table_map key t' = (table_map key t)(key x := None)
    else mzHashTableRemove t (hash (key x)) x = Done (False, t)"
proof -
  let ?stop = "\<lambda>e. is_null e \<or> hdata e = Item x" and ?es = "pEntries t"
  obtain n where n: "n < 32" "tableSize t = 2 ^ n" "length ?es = 2 ^ n"
    using ok by (rule table_size)
  obtain j d where j: "probe ?stop (wrap_next (tableSize t)) ?es (length ?es)
      (slot_of (length ?es) (hash (key x))) = Some j"
    "j < length ?es" "j = (slot_of (length ?es) (hash (key x)) + d) mod length ?es" "?stop (?es ! j)"
    "\<And>d'. d' < d \<Longrightarrow> \<not> ?stop (?es ! ((slot_of (length ?es) (hash (key x)) + d') mod length ?es))"
    by (rule probe_null_reaches [OF n(3,1) _ table_room [OF ok], of "wrap_next (tableSize t)" ?stop "hash (key x)"])
       (use n wrap_next_mod in auto)
  have ch: "chained (\<lambda>x. hash (key x)) ?es" using ok by (simp add: table_ok_def)
  have in_live: "x \<in> set (live ?es) \<longleftrightarrow> hdata (?es ! j) = Item x"
  proof
    assume "x \<in> set (live ?es)"
    then obtain i where "i < length ?es" "hdata (?es ! i) = Item x" by (auto simp: set_live)
    then have "\<not> is_null (?es ! j)"
      using probe_complete [of d ?stop ?es "hash (key x)" i] j(3,5) ch
      by (auto simp: chained_def is_null_def)
    then show "hdata (?es ! j) = Item x" using j(4) by simp
  qed (use j(2) in \<open>auto simp: set_live\<close>)
  show ?thesis
  proof (cases "hdata (?es ! j) = Item x")
    case False
    then show ?thesis using j(1,4) n in_live by (simp add: mzHashTableRemove_def)
  next
    case True
    let ?e = "(?es ! j)\<lparr>hdata := Tombstone\<rparr>"
    let ?t = "t\<lparr>pEntries := ?es[j := ?e], numEntries := numEntries t - 1, numDeadEntries := numDeadEntries t + 1\<rparr>"
    have live: "mset (live ?es) = add_mset x (mset (live (?es[j := ?e])))"
      using live_update [OF j(2), of ?e] True by simp
    then have ll: "length (live ?es) = Suc (length (live (?es[j := ?e])))"
      by (metis size_add_mset size_mset)
    have tombs: "countTombStones (?es[j := ?e]) = Suc (countTombStones ?es)"
      using countTombStones_update [OF j(2), of ?e] True by simp
    have dist: "distinct (map key (live ?es))" using ok by (simp add: table_ok_def)
    have "mset (map key (live ?es)) = mset (key x # map key (live (?es[j := ?e])))"
      using live by simp
    with dist have dist': "distinct (key x # map key (live (?es[j := ?e])))"
      using mset_eq_imp_distinct_iff by blast
    then have "table_ok key hash ?t"
      using ok ll tombs chained_bury [OF ch j(2)]
      by (simp add: table_ok_def LOAD_DENOM_def LOAD_NUMER_def)
    moreover have "table_map key ?t = (table_map key t)(key x := None)"
    proof -
      have "table_map key t = (table_map key ?t)(key x \<mapsto> x)"
        using keyed_map_add [OF dist live] by (simp add: table_map_def)
      moreover have "table_map key ?t (key x) = None"
        using dist' by (simp add: table_map_def keyed_map_None)
      ultimately show ?thesis by (simp add: fun_upd_idem)
    qed
    moreover have "mzHashTableRemove t (hash (key x)) x = Done (True, ?t)"
      using True j(1) n by (simp add: mzHashTableRemove_def is_null_def)
    ultimately show ?thesis using True in_live by auto
  qed
qed

lemma clear_entries_spec:
  "clear_entries ff es = (map (\<lambda>e. e\<lparr>hdata := Null\<rparr>) es, if ff then live es else [])"
  by (induction es) (auto simp: live_def entry_item_def split: slot.splits)

lemma clear_ok:
  assumes "table_ok key hash t"
  shows "table_ok key hash (fst (mzHashTableClear t)) \<and>
    table_map key (fst (mzHashTableClear t)) = Map.empty"
proof -
  have [simp]: "live (map (\<lambda>e. e\<lparr>hdata := Null\<rparr>) es) = []"
    "countTombStones (map (\<lambda>e. e\<lparr>hdata := Null\<rparr>) es) = 0" for es :: "'a HashEntry list"
    by (simp_all add: live_def entry_item_def countTombStones_def comp_def)
  show ?thesis
    using assms by (simp add: table_ok_def table_map_def mzHashTableClear_def clear_entries_spec chained_def)
qed

lemma iter_loop_live:
  assumes "length (pEntries t) = tableSize t"
  shows "i \<le> tableSize t \<Longrightarrow> tableSize t - i \<le> fuel \<Longrightarrow>
    iter_loop t fuel (int (iter_next (pEntries t) i)) = map (\<lambda>x. Done (Item x)) (live (drop i (pEntries t)))"
proof (induction "tableSize t - i" arbitrary: i fuel)
  case 0
  then have "iter_next (pEntries t) i = tableSize t"
    using assms by (simp add: iter_next.simps)
  then show ?case
    using 0 assms by (cases fuel) (simp_all add: mzHashIterDone_def live_def)
next
  case (Suc m)
  let ?es = "pEntries t"
  have i: "i < length ?es" "m = tableSize t - Suc i" using Suc(2) assms by auto
  have live: "live (drop i ?es) = entry_item (?es ! i) @ live (drop (Suc i) ?es)"
    using i(1) by (simp add: live_def Cons_nth_drop_Suc [symmetric])
  show ?case
  proof (cases "hdata (?es ! i)")
    case (Item x)
    obtain f where f: "fuel = Suc f" using Suc(2,4) by (cases fuel) auto
    have "iter_next ?es i = i" using i(1) Item by (simp add: iter_next.simps)
    moreover have "nat (int i + 1) = Suc i" by simp
    ultimately show ?thesis
      using Suc(1) [OF i(2), of f] Suc(4) f i assms Item live
      by (simp add: mzHashIterDone_def mzHashIterData_def mzHashIterNext_def)
  qed (use Suc(1) [OF i(2), of fuel] Suc(4) i assms live in
       \<open>simp_all add: iter_next.simps [of ?es i] entry_item_def\<close>)
qed

section \<open>Reachable tables\<close>

text \<open>All tables that a client obeying the contract can produce.\<close>

inductive reachable :: "(nat \<Rightarrow> nat \<Rightarrow> bool) \<Rightarrow> ('a \<Rightarrow> 'k) \<Rightarrow> ('k \<Rightarrow> u32) \<Rightarrow> ('a \<Rightarrow> 'a \<Rightarrow> int) \<Rightarrow> 'a HashTable \<Rightarrow> bool"
  for heap_ok key hash cmpE where
  create: "mzHashTableCreate heap_ok n ff = Done (Some t) \<Longrightarrow> n \<le> 2 ^ 31 \<Longrightarrow>
    reachable heap_ok key hash cmpE t"
| add: "reachable heap_ok key hash cmpE t \<Longrightarrow>
    mzHashTableLookup heap_ok t (hash (key x)) x cmpE (Some id) = Done (r, t') \<Longrightarrow>
    reachable heap_ok key hash cmpE t'"
| remove: "reachable heap_ok key hash cmpE t \<Longrightarrow>
    mzHashTableRemove t (hash (key x)) x = Done (r, t') \<Longrightarrow> reachable heap_ok key hash cmpE t'"
| clear: "reachable heap_ok key hash cmpE t \<Longrightarrow> reachable heap_ok key hash cmpE (fst (mzHashTableClear t))"

lemma hash_clientI: "(\<And>x y. cmpE x y = 0 \<longleftrightarrow> key x = key y) \<Longrightarrow> hash_client key key cmpE cmpE"
  by (simp add: hash_client_def)

lemma reachable_ok:
  assumes "reachable heap_ok key hash cmpE t" and cmpE: "\<And>x y. cmpE x y = 0 \<longleftrightarrow> key x = key y"
  shows "table_ok key hash t"
  using assms(1)
proof induction
  case (create n ff t)
  then show ?case using create_ok by blast
next
  case (add t x r t')
  then show ?case
    using hash_client.lookup_add [OF hash_clientI [OF cmpE] add.IH, where x = x and heap_ok = heap_ok]
    by (auto split: option.splits)
next
  case (remove t x r t')
  then show ?case
    using remove_ok [OF remove.IH, of x] by (auto split: if_splits)
next
  case (clear t)
  then show ?case by (simp add: clear_ok)
qed

fun visit :: "('a \<Rightarrow> 's \<Rightarrow> int \<times> 's) \<Rightarrow> 'a list \<Rightarrow> 's \<Rightarrow> int \<times> 's" where
  "visit func [] s = (0, s)"
| "visit func (x # xs) s = (let (val, s) = func x s in if val \<noteq> 0 then (val, s) else visit func xs s)"

lemma foreach_entries_visit: "foreach_entries func es s = visit func (live es) s"
  by (induction es arbitrary: s) (auto simp: live_def entry_item_def split: slot.splits prod.splits)

section \<open>Properties\<close>

text \<open>
  C3.  The hash table is a finite map.  For a client whose comparison functions decide equality of
  keys, on every table that satisfies the invariant: a search returns what the map holds under
  the key; adding a present key returns the old item and changes nothing; adding a new key
  extends the map, across a possible resize, or aborts when no memory is left; removing an item
  deletes its key, and removing an item that is not there reports so.
\<close>

theorem mzHashTable_is_map:
  assumes "\<And>x i. cmp x i = 0 \<longleftrightarrow> key x = ikey i" and "\<And>x y. cmpE x y = 0 \<longleftrightarrow> key x = key y"
    and "table_ok key hash t"
  shows "mzHashTableLookup heap_ok t (hash (ikey i)) i cmp None = Done (table_map key t (ikey i), t) \<and>
    (case table_map key t (key x) of
      Some y \<Rightarrow> mzHashTableLookup heap_ok t (hash (key x)) x cmpE (Some id) = Done (Some y, t)
    | None \<Rightarrow> (mzHashTableLookup heap_ok t (hash (key x)) x cmpE (Some id) = Aborts \<and>
            \<not> calloc heap_ok (tableSize t * 2) sizeof_HashTable) \<or>
        (\<exists>t'. mzHashTableLookup heap_ok t (hash (key x)) x cmpE (Some id) = Done (Some x, t') \<and>
            table_ok key hash t' \<and> table_map key t' = (table_map key t)(key x \<mapsto> x))) \<and>
    (if x \<in> set (live (pEntries t))
     then \<exists>t'. mzHashTableRemove t (hash (key x)) x = Done (True, t') \<and> table_ok key hash t' \<and>
       table_map key t' = (table_map key t)(key x := None)
     else mzHashTableRemove t (hash (key x)) x = Done (False, t))"
proof -
  have client: "hash_client key ikey cmp cmpE"
    using assms(1,2) by (simp add: hash_client_def)
  show ?thesis
    using hash_client.lookup_find [OF client assms(3)] hash_client.lookup_add [OF client assms(3)]
      remove_ok [OF assms(3)] by blast
qed

definition sample_table :: "nat HashTable" where
  "sample_table = \<lparr>tableSize = 2, numEntries = 1, numDeadEntries = 0,
     pEntries = [\<lparr>hashValue = 4, hdata = Item 4\<rparr>, empty_entry], freeFunc = False\<rparr>"

lemma sample_table_ok: "table_ok id of_nat sample_table"
proof -
  have "reaches (pEntries sample_table) 4 0"
    by (auto simp: reaches_def sample_table_def slot_of_def intro!: exI [of _ 0])
  then have "chained (\<lambda>x. of_nat (id x)) (pEntries sample_table)"
    by (auto simp: chained_def sample_table_def empty_entry_def less_Suc_eq)
  then show ?thesis
    by (auto simp: table_ok_def sample_table_def live_def entry_item_def empty_entry_def
        countTombStones_def sizeof_HashTable_def LOAD_DENOM_def LOAD_NUMER_def intro!: exI [of _ 1])
qed

lemma sample_table_live [simp]: "live (pEntries sample_table) = [4]"
  by (simp add: sample_table_def live_def entry_item_def empty_entry_def)

theorem mzHashTable_is_map_witness:
  "mzHashTableLookup (\<lambda>_ _. True) sample_table 4 (4 :: nat) (\<lambda>x i. int x - int i) None =
     Done (Some 4, sample_table) \<and>
   (\<exists>t'. mzHashTableRemove sample_table 4 4 = Done (True, t') \<and> table_map id t' 4 = None)"
  using mzHashTable_is_map [of "\<lambda>x i. int x - int i" id id "\<lambda>x i. int x - int i" of_nat sample_table
      "\<lambda>_ _. True" 4 4] sample_table_ok
  by (auto simp: table_map_def)

text \<open>
  C4.  Every table that a client can build from a successful creation by adding, removing and
  clearing satisfies the invariant.  Hence there is always an empty slot, no probe loop runs
  forever, and none of the \<open>int\<close> expressions of the load test or of the resize overflows.
\<close>

theorem mzHashTable_reachable_safe:
  assumes "reachable heap_ok key hash cmpE t" and "\<And>x y. cmpE x y = 0 \<longleftrightarrow> key x = key y"
  shows "table_ok key hash t \<and>
    length (live (pEntries t)) + countTombStones (pEntries t) < tableSize t \<and>
    mzHashTableLookup heap_ok t (hash (key x)) x cmpE (Some id) \<noteq> Hangs \<and>
    mzHashTableRemove t (hash (key x)) x \<notin> {Hangs, Aborts} \<and>
    (numEntries t + 1 + numDeadEntries t) * LOAD_DENOM < 2 ^ 31 \<and>
    tableSize t * LOAD_NUMER < 2 ^ 31 \<and> tableSize t * 2 < 2 ^ 31"
proof -
  have ok: "table_ok key hash t"
    using reachable_ok [OF assms] .
  have "mzHashTableLookup heap_ok t (hash (key x)) x cmpE (Some id) \<noteq> Hangs"
    using hash_client.lookup_add [OF hash_clientI [OF assms(2)] ok, where x = x and heap_ok = heap_ok]
    by (auto split: option.splits)
  moreover have "mzHashTableRemove t (hash (key x)) x \<notin> {Hangs, Aborts}"
    using remove_ok [OF ok, of x] by (auto split: if_splits)
  ultimately show ?thesis
    using ok table_room [OF ok]
    by (auto simp: table_ok_def LOAD_DENOM_def LOAD_NUMER_def sizeof_HashTable_def)
qed

theorem mzHashTable_reachable_safe_witness:
  "\<exists>t. mzHashTableCreate (\<lambda>_ _. True) 1 False = Done (Some t) \<and>
     mzHashTableLookup (\<lambda>_ _. True) t (of_nat 9) 9 (\<lambda>x y. int x - int y) (Some id) \<noteq> Hangs"
proof -
  let ?t = "\<lparr>tableSize = 1, numEntries = 0, numDeadEntries = 0, pEntries = [empty_entry], freeFunc = False\<rparr>"
  have t: "mzHashTableCreate (\<lambda>_ _. True) 1 False = Done (Some ?t)"
    by (simp add: mzHashTableCreate_def roundUpPower2_def calloc_def sizeof_HashTable_def Let_def)
  then have "reachable (\<lambda>_ _. True) id of_nat (\<lambda>x y. int x - int y) ?t"
    by (rule reachable.create) simp
  from mzHashTable_reachable_safe [OF this, of 9] t show ?thesis by auto
qed

text \<open>
  C31.  Sizing.  \<open>roundUpPower2\<close> returns the least power of two that is at least its argument, for all
  arguments up to \<open>2 ^ 31\<close>, and a table created with the size that \<open>mzHashSize(n)\<close> computes
  holds \<open>n\<close> elements without passing the load limit, so that it is never reallocated.
\<close>

theorem mzHash_sizing:
  assumes "0 < val" and "val \<le> 2 ^ 31" and "n < 2 ^ 28"
  shows "(\<exists>k<32. unat (roundUpPower2 val) = 2 ^ k) \<and> unat val \<le> unat (roundUpPower2 val) \<and>
    (\<forall>k. unat val \<le> 2 ^ k \<longrightarrow> unat (roundUpPower2 val) \<le> 2 ^ k) \<and>
    n * LOAD_DENOM \<le> unat (roundUpPower2 (mzHashSize (of_nat n))) * LOAD_NUMER"
proof -
  obtain k where k: "k < 32" "unat (roundUpPower2 val) = 2 ^ k" "unat val \<le> 2 ^ k" "2 ^ k < 2 * unat val"
    using roundUpPower2_pow2 [OF assms(1,2)] by metis
  have "(2 :: nat) ^ k \<le> 2 ^ k'" if "unat val \<le> 2 ^ k'" for k'
  proof -
    have "(2 :: nat) ^ k < 2 ^ Suc k'" using k(4) that by simp
    then show ?thesis by (metis less_Suc_eq_le one_less_numeral_iff power_increasing_iff power_strict_increasing_iff semiring_norm(76))
  qed
  moreover have "n * 8 \<le> unat (roundUpPower2 (mzHashSize (of_nat n))) * 5"
  proof -
    have u: "unat (mzHashSize (of_nat n)) = n * 8 div 5 + 1"
      using assms(3) by (rule unat_mzHashSize)
    then have "0 < mzHashSize (of_nat n)" and "mzHashSize (of_nat n) \<le> 2 ^ 31"
      using assms(3) by (auto simp: word_gt_0 word_le_nat_alt unat_gt_0 [symmetric])
    then have "n * 8 div 5 + 1 \<le> unat (roundUpPower2 (mzHashSize (of_nat n)))"
      using roundUpPower2_pow2 u by metis
    then show ?thesis by linarith
  qed
  ultimately show ?thesis
    using k by (auto simp: LOAD_DENOM_def LOAD_NUMER_def)
qed

theorem mzHash_sizing_witness:
  "unat (roundUpPower2 100) \<le> 2 ^ 7 \<and> 20 * LOAD_DENOM \<le> unat (roundUpPower2 (mzHashSize 20)) * LOAD_NUMER"
proof -
  have "(\<forall>k. unat (100 :: u32) \<le> 2 ^ k \<longrightarrow> unat (roundUpPower2 100) \<le> 2 ^ k) \<and>
      20 * LOAD_DENOM \<le> unat (roundUpPower2 (mzHashSize 20)) * LOAD_NUMER"
    using mzHash_sizing [of 100 20] by (simp del: power_increasing_iff)
  then show ?thesis by (elim conjE allE [of _ 7]) simp
qed

text \<open>
  C34.  Iteration.  Both the callback iteration and the iterator visit exactly the live items, in
  table order and each once; the callback iteration stops at the first nonzero result.  Clearing
  hands exactly these items to the free function and leaves an empty map.
\<close>

theorem mzHash_iteration:
  assumes "table_ok key hash t"
  shows "mzHashForeach t func s = visit func (live (pEntries t)) s \<and>
    iter_all t = map (\<lambda>x. Done (Item x)) (live (pEntries t)) \<and>
    table_map key (fst (mzHashTableClear t)) = Map.empty \<and>
    snd (mzHashTableClear t) = (if freeFunc t then live (pEntries t) else [])"
proof -
  have len: "length (pEntries t) = tableSize t"
    using assms by (simp add: table_ok_def)
  then have "iter_all t = map (\<lambda>x. Done (Item x)) (live (pEntries t))"
    using iter_loop_live [OF len, of 0 "tableSize t"]
    by (simp add: iter_all_def mzHashIterBegin_def mzHashIterNext_def)
  then show ?thesis
    using clear_ok [OF assms]
    by (simp add: mzHashForeach_def foreach_entries_visit mzHashTableClear_def clear_entries_spec)
qed

theorem mzHash_iteration_witness:
  "iter_all sample_table = [Done (Item 4)] \<and> table_map id (fst (mzHashTableClear sample_table)) = Map.empty"
  using mzHash_iteration [OF sample_table_ok, where func = "\<lambda>x s. (0, s)" and s = "()"] by simp

end
