(* ===== verification/Zip.thy ===== *)
theory Zip
  imports Bits Hash
begin

unbundle bit_operations_syntax

text \<open>
  The Zip archive reader (\<^verbatim>\<open>minzip/Zip.c\<close>, \<^verbatim>\<open>minzip/Zip.h\<close>): finding the end-of-central-directory
  record, parsing the central directory into a sorted array with a hash index, opening, closing
  and searching an archive.

  A mapping is its start address and its bytes, pointers into it are offsets, and a read outside
  the mapping is undefined.  Entries point to their names in the mapping; here they hold them.
  Items of the hash index are indices into the entry array.  \<open>sau\<close> and \<open>sal\<close> stand for the
  \<open>safe_add\<close> of the external safe_iop library at types \<open>uintptr_t\<close> and \<open>long\<close>.
\<close>

section \<open>Format constants\<close>

definition CENSIG :: u32 where "CENSIG = 0x02014b50"
definition CENHDR :: nat where "CENHDR = 46"
definition CENVEM :: nat where "CENVEM = 4"
definition CENHOW :: nat where "CENHOW = 10"
definition CENTIM :: nat where "CENTIM = 12"
definition CENCRC :: nat where "CENCRC = 16"
definition CENSIZ :: nat where "CENSIZ = 20"
definition CENLEN :: nat where "CENLEN = 24"
definition CENNAM :: nat where "CENNAM = 28"
definition CENEXT :: nat where "CENEXT = 30"
definition CENCOM :: nat where "CENCOM = 32"
definition CENATX :: nat where "CENATX = 38"
definition CENOFF :: nat where "CENOFF = 42"
definition ENDSIG :: u32 where "ENDSIG = 0x06054b50"
definition ENDHDR :: nat where "ENDHDR = 22"
definition ENDSUB :: nat where "ENDSUB = 8"
definition ENDOFF :: nat where "ENDOFF = 16"
definition LOCSIG :: u32 where "LOCSIG = 0x04034b50"
definition LOCHDR :: nat where "LOCHDR = 30"
definition LOCNAM :: nat where "LOCNAM = 26"
definition LOCEXT :: nat where "LOCEXT = 28"
definition STORED :: nat where "STORED = 0"
definition DEFLATED :: nat where "DEFLATED = 8"
definition CENVEM_UNIX :: nat where "CENVEM_UNIX = 768"
definition PATH_MAX :: nat where "PATH_MAX = 4096"

section \<open>Archives and entries\<close>

record MemMapping =
  addr :: nat
  mbytes :: "byte list"

record ZipEntry =
  fileName :: string
  offset :: int
  compLen :: int
  uncompLen :: int
  compression :: nat
  modTime :: int
  crc32 :: int
  versionMadeBy :: nat
  externalFileAttributes :: int

record ZipArchive =
  zfd :: int
  zNumEntries :: nat
  zEntries :: "ZipEntry list"
  zHash :: "nat HashTable option"
  zmap :: "MemMapping option"

definition fileNameLen :: "ZipEntry \<Rightarrow> nat" where
  "fileNameLen e = length (fileName e)"

definition sizeof_ZipEntry :: nat where "sizeof_ZipEntry = 40"

section \<open>Names\<close>

definition memcmp_sign :: "string \<Rightarrow> string \<Rightarrow> int" where
  "memcmp_sign a b = (if a = b then 0 else if a < b then - 1 else 1)"

definition hashcmpZipEntry :: "ZipEntry list \<Rightarrow> nat \<Rightarrow> nat \<Rightarrow> int" where
  "hashcmpZipEntry es i j =
     (let entry1 = es ! i; entry2 = es ! j in
      if fileNameLen entry1 \<noteq> fileNameLen entry2
      then int (fileNameLen entry1) - int (fileNameLen entry2)
      else memcmp_sign (fileName entry1) (fileName entry2))"

definition hashcmpZipName :: "ZipEntry list \<Rightarrow> nat \<Rightarrow> string \<Rightarrow> int" where
  "hashcmpZipName es i name =
     (let entry = es ! i; nameLen = length name in
      if fileNameLen entry \<noteq> nameLen then int (fileNameLen entry) - int nameLen
      else memcmp_sign (fileName entry) name)"

definition computeHash :: "string \<Rightarrow> u32" where
  "computeHash name = foldl (\<lambda>hash c. hash * 31 + of_char c) 2 name"

definition validFilename :: "string \<Rightarrow> bool" where
  "validFilename name \<longleftrightarrow>
     length name < PATH_MAX \<and> list_all (\<lambda>c. 32 \<le> (of_char c :: nat) \<and> (of_char c :: nat) < 127) name"

definition addEntryToHashTable ::
  "(nat \<Rightarrow> nat \<Rightarrow> bool) \<Rightarrow> ZipEntry list \<Rightarrow> nat HashTable \<Rightarrow> nat \<Rightarrow> (nat option \<times> nat HashTable) run" where
  "addEntryToHashTable heap_ok es pHash i =
     mzHashTableLookup heap_ok pHash (computeHash (fileName (es ! i))) i (hashcmpZipEntry es) (Some id)"

section \<open>The end of the central directory\<close>

text \<open>\<open>scan_eocd bs n\<close> looks at the positions \<open>n - 1\<close> down to \<open>0\<close>.\<close>

fun scan_eocd :: "byte list \<Rightarrow> nat \<Rightarrow> nat option ub" where
  "scan_eocd bs 0 = Some None"
| "scan_eocd bs (Suc ptr) = do {
     b \<leftarrow> nth_ub bs ptr;
     if b = ucast ENDSIG then do {
       v \<leftarrow> get4LE bs ptr;
       if v = ENDSIG then Some (Some ptr) else scan_eocd bs ptr}
     else scan_eocd bs ptr}"

definition find_eocd :: "byte list \<Rightarrow> nat option ub" where
  "find_eocd bs = scan_eocd bs (length bs + 1 - ENDHDR)"

section \<open>Sorted insertion\<close>

definition name_diff :: "string \<Rightarrow> string \<Rightarrow> int" where
  "name_diff a b =
     (let diffLen = (if length a < length b then length a else length b);
          diff = memcmp_sign (take diffLen a) (take diffLen b)
      in if diff = 0 then int (length a) - int (length b) else diff)"

function binary_search :: "ZipEntry list \<Rightarrow> string \<Rightarrow> int \<Rightarrow> int \<Rightarrow> int" where
  "binary_search es name low high =
     (if high < low then high
      else let mid = low + (high - low) div 2;
               diff = name_diff (fileName (es ! nat mid)) name
           in if diff < 0 then binary_search es name (mid + 1) high
              else if diff > 0 then binary_search es name low (mid - 1)
              else mid)"
  by pat_completeness auto
termination
  by (relation "measure (\<lambda>(es, name, low, high). nat (high + 1 - low))") auto

declare binary_search.simps [simp del]

definition insert_entry :: "ZipEntry \<Rightarrow> ZipEntry list \<Rightarrow> ZipEntry list" where
  "insert_entry e es =
     (if es = [] then [e]
      else let target = nat (binary_search es (fileName e) 0 (int (length es) - 1) + 1)
           in take target es @ e # drop target es)"

section \<open>One central directory record\<close>

definition bytes_string :: "byte list \<Rightarrow> string" where
  "bytes_string bs = map (\<lambda>b. char_of (unat b)) bs"

text \<open>The test whether the address at an offset is beyond the end; addresses are computed modulo \<open>2 ^ 32\<close>.\<close>

definition beyond :: "MemMapping \<Rightarrow> nat \<Rightarrow> bool" where
  "beyond m k \<longleftrightarrow> (addr m + length (mbytes m)) mod 2 ^ 32 < (addr m + k) mod 2 ^ 32"

text \<open>The local header part: the offset of the entry's data, if all checks succeed.\<close>

definition entry_offset ::
  "(nat \<Rightarrow> nat \<Rightarrow> bool) \<Rightarrow> (int \<Rightarrow> int \<Rightarrow> bool) \<Rightarrow> MemMapping \<Rightarrow> u32 \<Rightarrow> int \<Rightarrow> int option ub" where
  "entry_offset sau sal m localHdrOffset clen =
     (if \<not> sau (addr m) (unat localHdrOffset) then Some None
      else if beyond m (unat localHdrOffset + LOCHDR) then Some None
      else do {
        sig \<leftarrow> get4LE (mbytes m) (unat localHdrOffset);
        if sig \<noteq> LOCSIG then Some None
        else do {
          nam \<leftarrow> get2LE (mbytes m) (unat localHdrOffset + LOCNAM);
          ext \<leftarrow> get2LE (mbytes m) (unat localHdrOffset + LOCEXT);
          let off = sint (localHdrOffset + of_nat LOCHDR + ucast nam + ucast ext);
          if \<not> sal off clen then Some None
          else if int (length (mbytes m)) < (off + clen) mod 2 ^ 32 then Some None
          else Some (Some off)}})"

definition parse_cd_entry ::
  "(nat \<Rightarrow> nat \<Rightarrow> bool) \<Rightarrow> (int \<Rightarrow> int \<Rightarrow> bool) \<Rightarrow> MemMapping \<Rightarrow> nat \<Rightarrow> (ZipEntry \<times> nat) option ub" where
  "parse_cd_entry sau sal m ptr =
     (let bs = mbytes m in
      if beyond m (ptr + CENHDR) then Some None
      else do {
        sig \<leftarrow> get4LE bs ptr;
        if sig \<noteq> CENSIG then Some None
        else do {
          localHdrOffset \<leftarrow> get4LE bs (ptr + CENOFF);
          fnLen \<leftarrow> get2LE bs (ptr + CENNAM);
          extraLen \<leftarrow> get2LE bs (ptr + CENEXT);
          commentLen \<leftarrow> get2LE bs (ptr + CENCOM);
          if beyond m (ptr + CENHDR + unat fnLen) then Some None
          else do {
            chars \<leftarrow> segment_ub bs (ptr + CENHDR) (unat fnLen);
            let name = bytes_string chars;
            if \<not> validFilename name then Some None
            else do {
              clen \<leftarrow> get4LE bs (ptr + CENSIZ);
              ulen \<leftarrow> get4LE bs (ptr + CENLEN);
              how \<leftarrow> get2LE bs (ptr + CENHOW);
              tim \<leftarrow> get4LE bs (ptr + CENTIM);
              crc \<leftarrow> get4LE bs (ptr + CENCRC);
              vem \<leftarrow> get2LE bs (ptr + CENVEM);
              if vem AND 0xff00 \<noteq> 0 \<and> vem AND 0xff00 \<noteq> of_nat CENVEM_UNIX then Some None
              else do {
                atx \<leftarrow> get4LE bs (ptr + CENATX);
                r \<leftarrow> entry_offset sau sal m localHdrOffset (sint clen);
                case r of
                  None \<Rightarrow> Some None
                | Some off \<Rightarrow> Some (Some
                    (\<lparr>fileName = name, offset = off, compLen = sint clen, uncompLen = sint ulen,
                      compression = unat how, modTime = sint tim, crc32 = sint crc,
                      versionMadeBy = unat vem, externalFileAttributes = sint atx\<rparr>,
                     ptr + CENHDR + unat fnLen + unat extraLen + unat commentLen))}}}}})"

fun parse_cd ::
  "(nat \<Rightarrow> nat \<Rightarrow> bool) \<Rightarrow> (int \<Rightarrow> int \<Rightarrow> bool) \<Rightarrow> MemMapping \<Rightarrow> nat \<Rightarrow> nat \<Rightarrow> ZipEntry list \<Rightarrow> ZipEntry list option ub" where
  "parse_cd sau sal m 0 ptr es = Some (Some es)"
| "parse_cd sau sal m (Suc n) ptr es = do {
     r \<leftarrow> parse_cd_entry sau sal m ptr;
     case r of
       None \<Rightarrow> Some None
     | Some (e, ptr) \<Rightarrow> parse_cd sau sal m n ptr (insert_entry e es)}"

section \<open>Archives\<close>

text \<open>
  \<open>None\<close> in the result is the \<open>bail\<close> exit, after which the caller closes the archive and thereby
  frees whatever was allocated.
\<close>

definition parseZipArchive ::
  "(nat \<Rightarrow> nat \<Rightarrow> bool) \<Rightarrow> (nat \<Rightarrow> nat \<Rightarrow> bool) \<Rightarrow> (int \<Rightarrow> int \<Rightarrow> bool) \<Rightarrow> MemMapping \<Rightarrow> ZipArchive \<Rightarrow>
   ZipArchive option run ub" where
  "parseZipArchive heap_ok sau sal m pArchive = do {
     let bs = mbytes m;
     val \<leftarrow> get4LE bs 0;
     if val = ENDSIG then Some (Done None)
     else if val \<noteq> LOCSIG then Some (Done None)
     else do {
       p \<leftarrow> find_eocd bs;
       case p of
         None \<Rightarrow> Some (Done None)
       | Some ptr \<Rightarrow> do {
           n \<leftarrow> get2LE bs (ptr + ENDSUB);
           cdOffset \<leftarrow> get4LE bs (ptr + ENDOFF);
           if n = 0 \<or> length bs \<le> unat cdOffset then Some (Done None)
           else if \<not> calloc heap_ok (unat n) sizeof_ZipEntry then Some (Done None)
           else case mzHashTableCreate heap_ok (mzHashSize (ucast n)) False of
               Aborts \<Rightarrow> Some Aborts
             | Hangs \<Rightarrow> Some Hangs
             | Done None \<Rightarrow> Some (Done None)
             | Done (Some t) \<Rightarrow> do {
                 r \<leftarrow> parse_cd sau sal m (unat n) (unat cdOffset) [];
                 case r of
                   None \<Rightarrow> Some (Done None)
                 | Some es \<Rightarrow>
                     Some (case add_all (addEntryToHashTable heap_ok es) [0..<unat n] t of
                         Done t \<Rightarrow> Done (Some (pArchive\<lparr>zNumEntries := unat n, zEntries := es, zHash := Some t\<rparr>))
                       | Aborts \<Rightarrow> Aborts
                       | Hangs \<Rightarrow> Hangs)}}}}"

text \<open>The free function is NULL, so closing calls it on nothing; the fields are reset.\<close>

definition mzCloseZipArchive :: "ZipArchive \<Rightarrow> ZipArchive" where
  "mzCloseZipArchive a = a\<lparr>zfd := - 1, zHash := None, zEntries := []\<rparr>"

definition empty_archive :: ZipArchive where
  "empty_archive = \<lparr>zfd = 0, zNumEntries = 0, zEntries = [], zHash = None, zmap = None\<rparr>"

text \<open>
  \<open>fd\<close> is what \<open>open\<close> returned, \<open>errno\<close> its error number and \<open>mapped\<close> the result of mapping the
  file.
\<close>

definition mzOpenZipArchive ::
  "(nat \<Rightarrow> nat \<Rightarrow> bool) \<Rightarrow> (nat \<Rightarrow> nat \<Rightarrow> bool) \<Rightarrow> (int \<Rightarrow> int \<Rightarrow> bool) \<Rightarrow> int \<Rightarrow> int \<Rightarrow> MemMapping option \<Rightarrow>
   (int \<times> ZipArchive) run ub" where
  "mzOpenZipArchive heap_ok sau sal fd errno mapped =
     (let a = empty_archive\<lparr>zfd := fd\<rparr> in
      if fd < 0 then Some (Done (if errno \<noteq> 0 then errno else - 1, mzCloseZipArchive a))
      else case mapped of
        None \<Rightarrow> Some (Done (- 1, mzCloseZipArchive a))
      | Some m \<Rightarrow>
          if length (mbytes m) < ENDHDR then Some (Done (- 1, mzCloseZipArchive a))
          else do {
            r \<leftarrow> parseZipArchive heap_ok sau sal m a;
            Some (case r of
                Done None \<Rightarrow> Done (- 1, mzCloseZipArchive a)
              | Done (Some a) \<Rightarrow> Done (0, a\<lparr>zmap := Some m\<rparr>)
              | Aborts \<Rightarrow> Aborts
              | Hangs \<Rightarrow> Hangs)})"

text \<open>The result is the index of the entry; a closed archive has no table to search.\<close>

definition mzFindZipEntry :: "ZipArchive \<Rightarrow> string \<Rightarrow> nat option run ub" where
  "mzFindZipEntry a entryName =
     (case zHash a of
        None \<Rightarrow> None
      | Some t \<Rightarrow> Some
          (case mzHashTableLookup (\<lambda>_ _. False) t (computeHash entryName) entryName
                  (hashcmpZipName (zEntries a)) None of
             Done (r, t) \<Rightarrow> Done r | Aborts \<Rightarrow> Aborts | Hangs \<Rightarrow> Hangs))"

definition mzZipEntryCount :: "ZipArchive \<Rightarrow> nat" where
  "mzZipEntryCount a = zNumEntries a"

definition mzGetZipEntryAt :: "ZipArchive \<Rightarrow> nat \<Rightarrow> ZipEntry option" where
  "mzGetZipEntryAt a i = (if i < zNumEntries a then Some (zEntries a ! i) else None)"

text \<open>\<open>S_ISLNK(mode)\<close> tests \<open>(mode & S_IFMT) == S_IFLNK\<close>.\<close>

definition mzIsZipEntrySymlink :: "ZipEntry \<Rightarrow> bool" where
  "mzIsZipEntrySymlink e \<longleftrightarrow>
     (versionMadeBy e AND 0xff00) = CENVEM_UNIX \<and>
     (drop_bit 16 (externalFileAttributes e) AND 0xf000) = 0xa000"

section \<open>Comparison and sorted insertion\<close>

lemma memcmp_sign_simps [simp]:
  "memcmp_sign a b = 0 \<longleftrightarrow> a = b" "memcmp_sign a b < 0 \<longleftrightarrow> a < b" "0 < memcmp_sign a b \<longleftrightarrow> b < a"
  by (auto simp: memcmp_sign_def)

lemma name_diff_Cons:
  "name_diff (x # a) (y # b) = (if x = y then name_diff a b else if x < y then - 1 else 1)"
  by (auto simp: name_diff_def memcmp_sign_def Let_def)

lemma name_diff_sign: "(name_diff a b < 0 \<longleftrightarrow> a < b) \<and> (0 < name_diff a b \<longleftrightarrow> b < a)"
proof (induction a arbitrary: b)
  case Nil
  then show ?case by (cases b) (auto simp: name_diff_def)
next
  case (Cons x a)
  show ?case
  proof (cases b)
    case (Cons y b')
    consider "x = y" | "x < y" | "y < x" by fastforce
    then show ?thesis
      by cases (simp_all add: Cons Cons.IH name_diff_Cons order_less_imp_not_less less_imp_neq
          less_imp_neq [symmetric])
  qed (simp add: name_diff_def memcmp_sign_def)
qed

lemma name_diff_less [simp]: "name_diff a b < 0 \<longleftrightarrow> a < b"
  and name_diff_greater [simp]: "0 < name_diff a b \<longleftrightarrow> b < a"
  using name_diff_sign by auto

lemma binary_search_spec:
  "sorted (map fileName es) \<Longrightarrow> 0 \<le> low \<Longrightarrow> low \<le> high + 1 \<Longrightarrow> high < int (length es) \<Longrightarrow>
    (\<forall>i. int i < low \<longrightarrow> fileName (es ! i) \<le> name) \<Longrightarrow>
    (\<forall>i. high < int i \<and> i < length es \<longrightarrow> name \<le> fileName (es ! i)) \<Longrightarrow>
    - 1 \<le> binary_search es name low high \<and> binary_search es name low high < int (length es) \<and>
    (\<forall>i. int i \<le> binary_search es name low high \<longrightarrow> fileName (es ! i) \<le> name) \<and>
    (\<forall>i. binary_search es name low high < int i \<and> i < length es \<longrightarrow> name \<le> fileName (es ! i))"
proof (induction es name low high rule: binary_search.induct)
  case (1 es name low high)
  show ?case
  proof (cases "high < low")
    case True
    then show ?thesis using "1.prems" by (auto simp: binary_search.simps [of es name low high])
  next
    case False
    define mid where "mid = low + (high - low) div 2"
    have mid: "low \<le> mid" "mid \<le> high" using False by (auto simp: mid_def)
    have mono: "fileName (es ! i) \<le> fileName (es ! j)" if "i \<le> j" "j < length es" for i j
      using sorted_nth_mono [OF "1.prems"(1), of i j] that by simp
    have m: "nat mid < length es" using mid "1.prems" by auto
    let ?x = "fileName (es ! nat mid)" and ?goal = "binary_search es name"
    have step: "binary_search es name low high =
        (if ?x < name then binary_search es name (mid + 1) high
         else if name < ?x then binary_search es name low (mid - 1) else mid)"
      using False by (subst binary_search.simps) (simp add: mid_def [symmetric] Let_def)
    consider "?x < name" | "name < ?x" | "?x = name" by fastforce
    then show ?thesis
    proof cases
      case 1
      have "fileName (es ! i) \<le> name" if "int i < mid + 1" for i
      proof -
        have "i \<le> nat mid" using that by linarith
        then show ?thesis using mono [OF _ m, of i] 1 by (meson less_imp_le order_trans)
      qed
      then have "- 1 \<le> ?goal (mid + 1) high \<and> ?goal (mid + 1) high < int (length es) \<and>
          (\<forall>i. int i \<le> ?goal (mid + 1) high \<longrightarrow> fileName (es ! i) \<le> name) \<and>
          (\<forall>i. ?goal (mid + 1) high < int i \<and> i < length es \<longrightarrow> name \<le> fileName (es ! i))"
        by (intro "1.IH"(1) [OF False mid_def refl]) (use 1 "1.prems" mid in auto)
      then show ?thesis using 1 unfolding step by simp
    next
      case 2
      have "name \<le> fileName (es ! i)" if "mid - 1 < int i \<and> i < length es" for i
      proof -
        have "nat mid \<le> i" using that by linarith
        then show ?thesis using mono [of "nat mid" i] 2 that by (meson less_imp_le order_trans)
      qed
      then have "- 1 \<le> ?goal low (mid - 1) \<and> ?goal low (mid - 1) < int (length es) \<and>
          (\<forall>i. int i \<le> ?goal low (mid - 1) \<longrightarrow> fileName (es ! i) \<le> name) \<and>
          (\<forall>i. ?goal low (mid - 1) < int i \<and> i < length es \<longrightarrow> name \<le> fileName (es ! i))"
        by (intro "1.IH"(2) [OF False mid_def refl]) (use 2 "1.prems" mid in auto)
      moreover have "\<not> ?x < name" using 2 by (rule less_not_sym)
      ultimately show ?thesis using 2 unfolding step by simp
    next
      case 3
      have "\<forall>i. int i \<le> mid \<longrightarrow> fileName (es ! i) \<le> ?x"
        using mono [OF _ m] by (simp add: nat_le_iff le_nat_iff)
      moreover have "\<forall>i. mid < int i \<and> i < length es \<longrightarrow> ?x \<le> fileName (es ! i)"
        using mono [of "nat mid"] by (simp add: nat_le_iff)
      moreover have "- 1 \<le> mid" "mid < int (length es)"
        using m mid "1.prems"(2) by linarith+
      ultimately show ?thesis unfolding step 3 by simp
    qed
  qed
qed

lemma insert_entry_target:
  assumes "sorted (map fileName es)"
  obtains k where "k \<le> length es" "insert_entry e es = take k es @ e # drop k es"
    "\<And>x. x \<in> set (take k es) \<Longrightarrow> fileName x \<le> fileName e"
    "\<And>x. x \<in> set (drop k es) \<Longrightarrow> fileName e \<le> fileName x"
proof (cases "es = []")
  case True
  then show ?thesis using that [of 0] by (simp add: insert_entry_def)
next
  case False
  let ?r = "binary_search es (fileName e) 0 (int (length es) - 1)"
  have vac: "\<forall>i. int (length es) - 1 < int i \<and> i < length es \<longrightarrow> fileName e \<le> fileName (es ! i)"
    by auto
  have r: "- 1 \<le> ?r" "?r < int (length es)" "\<forall>i. int i \<le> ?r \<longrightarrow> fileName (es ! i) \<le> fileName e"
    "\<forall>i. ?r < int i \<and> i < length es \<longrightarrow> fileName e \<le> fileName (es ! i)"
    using binary_search_spec [OF assms _ _ _ _ vac, of 0] by auto
  show ?thesis
  proof (rule that [of "nat (?r + 1)"])
    show "fileName x \<le> fileName e" if "x \<in> set (take (nat (?r + 1)) es)" for x
      using that r(3) by (auto simp: in_set_conv_nth)
    show "fileName e \<le> fileName x" if "x \<in> set (drop (nat (?r + 1)) es)" for x
      using that r(1,4) by (fastforce simp: in_set_conv_nth)
  qed (use r False in \<open>auto simp: insert_entry_def Let_def\<close>)
qed

lemma insert_entry_sorted:
  assumes "sorted (map fileName es)"
  shows "sorted (map fileName (insert_entry e es)) \<and> mset (insert_entry e es) = add_mset e (mset es)"
proof -
  obtain k where k: "insert_entry e es = take k es @ e # drop k es"
    "\<And>x. x \<in> set (take k es) \<Longrightarrow> fileName x \<le> fileName e"
    "\<And>x. x \<in> set (drop k es) \<Longrightarrow> fileName e \<le> fileName x"
    using insert_entry_target [OF assms, of e] by metis
  have "sorted (map fileName (take k es) @ map fileName (drop k es))"
    using assms by (simp add: map_append [symmetric] del: map_append)
  then have "sorted (map fileName (insert_entry e es))"
    using k by (auto simp: sorted_append intro: order_trans)
  moreover have "mset (take k es) + mset (drop k es) = mset es"
    by (simp add: mset_append [symmetric] del: mset_append)
  ultimately show ?thesis using k(1) by simp
qed

section \<open>What the central directory parser guarantees\<close>

definition entry_ok :: "nat \<Rightarrow> ZipEntry \<Rightarrow> bool" where
  "entry_ok len e \<longleftrightarrow> validFilename (fileName e) \<and>
     (0 \<le> offset e \<and> 0 \<le> compLen e \<longrightarrow> offset e + compLen e \<le> int len)"

lemma entry_offset_bound:
  assumes "entry_offset sau sal m lho clen = Some (Some off)"
    and "\<And>a b. sal a b \<Longrightarrow> a + b < 2 ^ 31" and "0 \<le> off" and "0 \<le> clen"
  shows "off + clen \<le> int (length (mbytes m))"
proof -
  have "sal off clen" and "(off + clen) mod 2 ^ 32 \<le> int (length (mbytes m))"
    using assms(1) by (auto simp: entry_offset_def Let_def split: if_splits elim!: bind_eq_SomeE)
  moreover have "(off + clen) mod 2 ^ 32 = off + clen"
    using assms(2) [OF \<open>sal off clen\<close>] assms(3,4) by simp
  ultimately show ?thesis by simp
qed

lemma parse_cd_entry_ok:
  assumes "parse_cd_entry sau sal m ptr = Some (Some (e, ptr'))"
    and "\<And>a b. sal a b \<Longrightarrow> a + b < 2 ^ 31"
  shows "entry_ok (length (mbytes m)) e"
  using assms(1) entry_offset_bound [OF _ assms(2)] unfolding parse_cd_entry_def Let_def entry_ok_def
  by (auto split: if_splits option.splits elim!: bind_eq_SomeE)

text \<open>
  The directory as the format defines it: the records follow each other, each of 46 bytes and three fields whose
  lengths it holds; the data of an entry follow the local header of 30 bytes and two such fields.
\<close>

definition next_record :: "byte list \<Rightarrow> nat \<Rightarrow> nat" where
  "next_record bs ptr = ptr + 46 + le16 bs (ptr + 28) + le16 bs (ptr + 30) + le16 bs (ptr + 32)"

fun record_pos :: "byte list \<Rightarrow> nat \<Rightarrow> nat \<Rightarrow> nat" where
  "record_pos bs ptr 0 = ptr"
| "record_pos bs ptr (Suc k) = record_pos bs (next_record bs ptr) k"

definition read_record :: "byte list \<Rightarrow> nat \<Rightarrow> ZipEntry" where
  "read_record bs ptr =
     (let signed = (\<lambda>n. sint (of_nat n :: u32)); hdr = le32 bs (ptr + 42) in
      \<lparr>fileName = bytes_string (segment bs (ptr + 46) (le16 bs (ptr + 28))),
       offset = signed (hdr + 30 + le16 bs (hdr + 26) + le16 bs (hdr + 28)),
       compLen = signed (le32 bs (ptr + 20)), uncompLen = signed (le32 bs (ptr + 24)), compression = le16 bs (ptr + 10),
       modTime = signed (le32 bs (ptr + 12)), crc32 = signed (le32 bs (ptr + 16)), versionMadeBy = le16 bs (ptr + 4),
       externalFileAttributes = signed (le32 bs (ptr + 38))\<rparr>)"

definition directory :: "byte list \<Rightarrow> nat \<Rightarrow> ZipEntry list" where
  "directory bs p = map (\<lambda>k. read_record bs (record_pos bs (le32 bs (p + 16)) k)) [0..<le16 bs (p + 8)]"

lemma unat_of_le16 [simp]: "unat (of_nat (le16 bs p) :: 16 word) = le16 bs p"
  using le16_lt [of bs p] by (simp add: unsigned_of_nat take_bit_nat_eq_self)

lemma unat_of_le32 [simp]: "unat (of_nat (le32 bs p) :: u32) = le32 bs p"
  by (rule unat_of_nat_u32 [OF le32_lt])

lemma ucast_of_le16 [simp]: "(ucast (of_nat (le16 bs p) :: 16 word) :: u32) = of_nat (le16 bs p)"
  by (rule word_unat_eq_iff [THEN iffD2]) (use le16_lt [of bs p] in \<open>simp add: unsigned_ucast_eq unsigned_of_nat take_bit_nat_eq_self\<close>)

lemma entry_offset_eq:
  assumes "entry_offset sau sal m lho clen = Some (Some off)"
  shows "off = sint (lho + 30 + of_nat (le16 (mbytes m) (unat lho + 26)) + of_nat (le16 (mbytes m) (unat lho + 28)))"
  using assms by (auto simp: entry_offset_def LOCHDR_def LOCNAM_def LOCEXT_def Let_def get2LE_eq split: if_splits elim!: bind_eq_SomeE)

lemma parse_cd_entry_reads:
  assumes "parse_cd_entry sau sal m ptr = Some (Some (e, ptr'))"
  shows "e = read_record (mbytes m) ptr \<and> ptr' = next_record (mbytes m) ptr"
  using assms unfolding parse_cd_entry_def Let_def
  by (auto simp: get4LE_eq get2LE_eq read_record_def Let_def next_record_def CENHDR_def CENOFF_def CENNAM_def CENEXT_def
      CENCOM_def CENSIZ_def CENLEN_def CENHOW_def CENTIM_def CENCRC_def CENVEM_def CENATX_def
      split: if_splits option.splits elim!: bind_eq_SomeE dest!: entry_offset_eq)

lemma parse_cd_reads:
  "parse_cd sau sal m n ptr es = Some (Some es') \<Longrightarrow> sorted (map fileName es) \<Longrightarrow>
    mset es' = mset es + mset (map (\<lambda>k. read_record (mbytes m) (record_pos (mbytes m) ptr k)) [0..<n])"
proof (induction n arbitrary: ptr es)
  case (Suc n)
  then obtain e p where e: "parse_cd_entry sau sal m ptr = Some (Some (e, p))"
    "parse_cd sau sal m n p (insert_entry e es) = Some (Some es')"
    by (auto elim!: bind_eq_SomeE split: option.splits)
  have ins: "sorted (map fileName (insert_entry e es))" "mset (insert_entry e es) = add_mset e (mset es)"
    using insert_entry_sorted [OF Suc.prems(2)] by auto
  let ?f = "\<lambda>k. read_record (mbytes m) (record_pos (mbytes m) ptr k)"
  have "map ?f [0..<Suc n] = ?f 0 # map (\<lambda>k. ?f (Suc k)) [0..<n]"
    by (simp add: upt_conv_Cons map_Suc_upt [symmetric] del: upt_Suc)
  then have "mset (map ?f [0..<Suc n]) = add_mset e (mset (map (\<lambda>k. ?f (Suc k)) [0..<n]))"
    using parse_cd_entry_reads [OF e(1)] by (simp only: mset.simps) simp
  then show ?case
    using Suc.IH [OF e(2) ins(1)] ins(2) parse_cd_entry_reads [OF e(1)] by (simp del: upt_Suc)
qed simp

lemma parse_cd_ok:
  assumes sal: "\<And>a b. sal a b \<Longrightarrow> a + b < 2 ^ 31"
  shows "parse_cd sau sal m n ptr es = Some (Some es') \<Longrightarrow> sorted (map fileName es) \<Longrightarrow>
    list_all (entry_ok (length (mbytes m))) es \<Longrightarrow>
    sorted (map fileName es') \<and> list_all (entry_ok (length (mbytes m))) es' \<and> length es' = length es + n"
proof (induction n arbitrary: ptr es)
  case (Suc n)
  then obtain e p where e: "parse_cd_entry sau sal m ptr = Some (Some (e, p))"
    "parse_cd sau sal m n p (insert_entry e es) = Some (Some es')"
    by (auto elim!: bind_eq_SomeE split: option.splits)
  have ins: "sorted (map fileName (insert_entry e es))" "mset (insert_entry e es) = add_mset e (mset es)"
    using insert_entry_sorted [OF Suc.prems(2)] by auto
  then have "set (insert_entry e es) = insert e (set es)" "length (insert_entry e es) = Suc (length es)"
    by (metis set_mset_mset set_mset_add_mset_insert) (metis ins(2) size_mset size_add_mset)
  then show ?case
    using Suc.IH [OF e(2) ins(1)] parse_cd_entry_ok [OF e(1) sal] Suc.prems(3)
    by (simp add: list_all_iff)
qed simp

section \<open>The index\<close>

interpretation zip_index: hash_client "\<lambda>i. fileName (es ! i)" computeHash "\<lambda>name. name"
  "hashcmpZipName es" "hashcmpZipEntry es" for es
  by unfold_locales (auto simp: hashcmpZipName_def hashcmpZipEntry_def fileNameLen_def Let_def)

lemma index_create:
  assumes "mzHashTableCreate heap_ok (mzHashSize (ucast (n :: 16 word))) False = Done (Some t)"
  shows "table_ok (\<lambda>i. fileName (es ! i)) computeHash t \<and> table_map (\<lambda>i. fileName (es ! i)) t = Map.empty"
proof -
  have "unat n < 2 ^ 28"
    using unsigned_less [where 'a = nat and w = n] by simp
  moreover have "(ucast n :: u32) = of_nat (unat n)" by simp
  ultimately have "mzHashSize (ucast n) \<le> 2 ^ 31"
    using unat_mzHashSize [of "unat n"] by (simp add: word_le_nat_alt)
  then show ?thesis using create_ok [OF assms] by blast
qed

definition archive_ok :: "nat \<Rightarrow> ZipArchive \<Rightarrow> bool" where
  "archive_ok len a \<longleftrightarrow>
     length (zEntries a) = zNumEntries a \<and> 0 < zNumEntries a \<and> sorted (map fileName (zEntries a)) \<and>
     list_all (entry_ok len) (zEntries a) \<and>
     (\<exists>t. zHash a = Some t \<and> table_ok (\<lambda>i. fileName (zEntries a ! i)) computeHash t \<and>
        table_map (\<lambda>i. fileName (zEntries a ! i)) t =
          map_of (map (\<lambda>i. (fileName (zEntries a ! i), i)) [0..<zNumEntries a]))"

lemma parse_archive_ok:
  assumes "parseZipArchive heap_ok sau sal m pArchive = Some (Done (Some a))"
    and sal: "\<And>a b. sal a b \<Longrightarrow> a + b < 2 ^ 31"
  shows "archive_ok (length (mbytes m)) a"
proof -
  obtain n t es t' ptr where n: "n \<noteq> 0"
    "mzHashTableCreate heap_ok (mzHashSize (ucast (n :: 16 word))) False = Done (Some t)"
    "parse_cd sau sal m (unat n) ptr [] = Some (Some es)"
    "add_all (addEntryToHashTable heap_ok es) [0..<unat n] t = Done t'"
    "a = pArchive\<lparr>zNumEntries := unat n, zEntries := es, zHash := Some t'\<rparr>"
    using assms(1) unfolding parseZipArchive_def Let_def
    by (auto elim!: bind_eq_SomeE split: if_splits option.splits run.splits)
  have es: "sorted (map fileName es)" "list_all (entry_ok (length (mbytes m))) es" "length es = unat n"
    using parse_cd_ok [OF sal n(3)] by auto
  have t: "table_ok (\<lambda>i. fileName (es ! i)) computeHash t" "table_map (\<lambda>i. fileName (es ! i)) t = Map.empty"
    using index_create [OF n(2)] by auto
  have "addEntryToHashTable heap_ok es =
      (\<lambda>t x. mzHashTableLookup heap_ok t (computeHash (fileName (es ! x))) x (hashcmpZipEntry es) (Some id))"
    by (simp add: addEntryToHashTable_def fun_eq_iff)
  then show ?thesis
    using zip_index.dict.add_all_map [OF t(1), where heap_ok = heap_ok] n es t(2)
    by (simp add: archive_ok_def unat_gt_0)
qed

lemma parse_archive_directory:
  assumes "parseZipArchive heap_ok sau sal m pArchive = Some (Done (Some a))"
  shows "\<exists>p. find_eocd (mbytes m) = Some (Some p) \<and> zNumEntries a = le16 (mbytes m) (p + 8) \<and>
    mset (zEntries a) = mset (directory (mbytes m) p)"
proof -
  obtain p n es off t' where p: "find_eocd (mbytes m) = Some (Some p)" "get2LE (mbytes m) (p + ENDSUB) = Some n"
    "get4LE (mbytes m) (p + ENDOFF) = Some off" "parse_cd sau sal m (unat n) (unat off) [] = Some (Some es)"
    "a = pArchive\<lparr>zNumEntries := unat n, zEntries := es, zHash := Some t'\<rparr>"
    using assms unfolding parseZipArchive_def Let_def
    by (auto elim!: bind_eq_SomeE split: if_splits option.splits run.splits)
  have "unat n = le16 (mbytes m) (p + 8)" "unat off = le32 (mbytes m) (p + 16)"
    using p(2,3) by (auto simp: get2LE_eq get4LE_eq ENDSUB_def ENDOFF_def split: if_splits)
  then show ?thesis
    using p(1,5) parse_cd_reads [OF p(4)] by (simp add: directory_def)
qed

section \<open>Finding the end record\<close>

lemma endsig_first_byte:
  assumes "of_nat (le32 bs p) = ENDSIG"
  shows "bs ! p = ucast ENDSIG"
proof -
  have "le32 bs p = unat ENDSIG"
    using assms unat_of_nat_u32 [OF le32_lt] by metis
  then have "le32 bs p mod 256 = 0x50" by (simp add: ENDSIG_def)
  moreover have "le32 bs p mod 256 = unat (bs ! p)"
  proof -
    have "le32 bs p = byte_val bs p + 256 * (byte_val bs (p + 1) + 256 * byte_val bs (p + 2) + 65536 * byte_val bs (p + 3))"
      by (simp add: le32_def)
    then have "le32 bs p mod 256 = byte_val bs p mod 256"
      by (simp only: mod_mult_self2)
    then show ?thesis by (simp add: byte_val_def [symmetric])
  qed
  ultimately have "unat (bs ! p) = unat (0x50 :: byte)" by simp
  then show ?thesis by (simp add: ENDSIG_def word_unat_eq_iff)
qed

lemma scan_eocd_spec:
  "n + 3 \<le> length bs \<Longrightarrow> \<exists>r. scan_eocd bs n = Some r \<and>
    (case r of
       None \<Rightarrow> \<forall>q<n. get4LE bs q \<noteq> Some ENDSIG
     | Some p \<Rightarrow> p < n \<and> get4LE bs p = Some ENDSIG \<and> (\<forall>q<n. get4LE bs q = Some ENDSIG \<longrightarrow> q \<le> p))"
proof (induction n)
  case (Suc n)
  then obtain r where r: "scan_eocd bs n = Some r"
    "case r of None \<Rightarrow> \<forall>q<n. get4LE bs q \<noteq> Some ENDSIG
     | Some p \<Rightarrow> p < n \<and> get4LE bs p = Some ENDSIG \<and> (\<forall>q<n. get4LE bs q = Some ENDSIG \<longrightarrow> q \<le> p)"
    by auto
  have get: "get4LE bs n = Some (of_nat (le32 bs n))" using Suc.prems by (simp add: get4LE_eq)
  show ?case
  proof (cases "of_nat (le32 bs n) = ENDSIG")
    case True
    then have "scan_eocd bs (Suc n) = Some (Some n)"
      using Suc.prems endsig_first_byte [OF True] get by (simp add: nth_ub_def)
    then show ?thesis using get True by auto
  next
    case False
    then have "scan_eocd bs (Suc n) = Some r"
      using Suc.prems get r(1) by (simp add: nth_ub_def)
    moreover have "get4LE bs n \<noteq> Some ENDSIG" using get False by simp
    ultimately show ?thesis
      using r(2) by (cases r) (auto simp: less_Suc_eq)
  qed
qed simp

lemma find_eocd_spec:
  assumes "ENDHDR \<le> length bs"
  obtains "find_eocd bs = Some None" "\<And>q. q + ENDHDR \<le> length bs \<Longrightarrow> get4LE bs q \<noteq> Some ENDSIG"
  | p where "find_eocd bs = Some (Some p)" "p + ENDHDR \<le> length bs" "get4LE bs p = Some ENDSIG"
    "\<And>q. q + ENDHDR \<le> length bs \<Longrightarrow> get4LE bs q = Some ENDSIG \<Longrightarrow> q \<le> p"
proof -
  have n: "q < length bs + 1 - ENDHDR \<longleftrightarrow> q + ENDHDR \<le> length bs" for q
    using assms by auto
  have "length bs + 1 - ENDHDR + 3 \<le> length bs"
    using assms by (simp add: ENDHDR_def)
  then obtain r where "find_eocd bs = Some r"
    "case r of None \<Rightarrow> \<forall>q. q + ENDHDR \<le> length bs \<longrightarrow> get4LE bs q \<noteq> Some ENDSIG
     | Some p \<Rightarrow> p + ENDHDR \<le> length bs \<and> get4LE bs p = Some ENDSIG \<and>
         (\<forall>q. q + ENDHDR \<le> length bs \<longrightarrow> get4LE bs q = Some ENDSIG \<longrightarrow> q \<le> p)"
    using scan_eocd_spec [of "length bs + 1 - ENDHDR" bs] unfolding find_eocd_def n by blast
  then show ?thesis
    using that by (cases r) auto
qed

section \<open>All reads stay inside the mapping\<close>

text \<open>
  The header that a record of the directory names does not wrap around: its address is not in the last
  bytes of the address space.
\<close>

definition header_clear :: "MemMapping \<Rightarrow> nat \<Rightarrow> bool" where
  "header_clear m ptr \<longleftrightarrow>
     (let hdr = addr m + le32 (mbytes m) (ptr + 42) in ptr + 46 \<le> length (mbytes m) \<longrightarrow> hdr + 30 < 2 ^ 32 \<or> 2 ^ 32 \<le> hdr)"

definition no_header_wrap :: "MemMapping \<Rightarrow> bool" where
  "no_header_wrap m \<longleftrightarrow>
     (case find_eocd (mbytes m) of
        Some (Some p) \<Rightarrow> list_all (\<lambda>k. header_clear m (record_pos (mbytes m) (le32 (mbytes m) (p + 16)) k)) [0..<le16 (mbytes m) (p + 8)]
      | _ \<Rightarrow> True)"

text \<open>The mapping ends far enough below the end of the address space that positions in a record are addresses.\<close>

definition low_mapping :: "MemMapping \<Rightarrow> bool" where
  "low_mapping m \<longleftrightarrow> addr m + length (mbytes m) + 46 + 3 * 2 ^ 16 < 2 ^ 32"

lemma beyond_low: "low_mapping m \<Longrightarrow> k \<le> length (mbytes m) + 46 + 3 * 2 ^ 16 \<Longrightarrow> beyond m k \<longleftrightarrow> length (mbytes m) < k"
  by (simp add: beyond_def low_mapping_def)

lemma entry_offset_defined:
  assumes "low_mapping m" and "\<And>a b. sau a b \<longleftrightarrow> a + b < 2 ^ 32"
    and "addr m + unat lho + LOCHDR < 2 ^ 32 \<or> 2 ^ 32 \<le> addr m + unat lho"
  shows "entry_offset sau sal m lho clen \<noteq> None"
proof (cases "addr m + unat lho + LOCHDR < 2 ^ 32 \<and> unat lho + LOCHDR \<le> length (mbytes m)")
  case True
  then show ?thesis
    using assms(1,2) by (auto simp: entry_offset_def get4LE_eq get2LE_eq LOCHDR_def LOCNAM_def LOCEXT_def Let_def)
next
  case False
  then show ?thesis
    using assms by (auto simp: entry_offset_def beyond_def low_mapping_def LOCHDR_def)
qed

lemma parse_cd_entry_defined:
  assumes low: "low_mapping m" and sau: "\<And>a b. sau a b \<longleftrightarrow> a + b < 2 ^ 32"
    and ptr: "ptr \<le> length (mbytes m) + 2 ^ 17" and clear: "header_clear m ptr"
  shows "\<exists>r. parse_cd_entry sau sal m ptr = Some r \<and> (\<forall>e q. r = Some (e, q) \<longrightarrow> q \<le> length (mbytes m) + 2 ^ 17)"
proof (cases "ptr + CENHDR \<le> length (mbytes m)")
  case True
  let ?bs = "mbytes m"
  have "entry_offset sau sal m (of_nat (le32 ?bs (ptr + 42))) clen \<noteq> None" for clen
    using True clear by (intro entry_offset_defined [OF low sau]) (simp add: header_clear_def CENHDR_def LOCHDR_def Let_def)
  then obtain r where r: "entry_offset sau sal m (of_nat (le32 ?bs (ptr + 42))) (sint (of_nat (le32 ?bs (ptr + 20)) :: u32)) = Some r"
    by blast
  have len: "le16 ?bs k \<le> 2 ^ 16" for k using le16_lt [of ?bs k] by simp
  have "beyond m (ptr + 46) \<longleftrightarrow> False" "beyond m (ptr + 46 + le16 ?bs (ptr + 28)) \<longleftrightarrow> length ?bs < ptr + 46 + le16 ?bs (ptr + 28)"
    using True len [of "ptr + 28"] by (simp_all add: beyond_low [OF low] CENHDR_def)
  moreover have "ptr + 46 + le16 ?bs (ptr + 28) \<le> length ?bs \<Longrightarrow>
      ptr + 46 + le16 ?bs (ptr + 28) + le16 ?bs (ptr + 30) + le16 ?bs (ptr + 32) \<le> length ?bs + 2 ^ 17"
    using len [of "ptr + 30"] len [of "ptr + 32"] by simp
  ultimately show ?thesis
    using True r
    by (cases r)
       (auto simp add: parse_cd_entry_def get4LE_eq get2LE_eq segment_ub_def Let_def CENHDR_def CENOFF_def CENNAM_def CENEXT_def
        CENCOM_def CENSIZ_def CENLEN_def CENHOW_def CENTIM_def CENCRC_def CENVEM_def CENATX_def)
next
  case False
  then have "beyond m (ptr + CENHDR)" using ptr by (subst beyond_low [OF low]) (simp_all add: CENHDR_def)
  then show ?thesis by (simp add: parse_cd_entry_def)
qed

lemma parse_cd_defined:
  assumes low: "low_mapping m" and sau: "\<And>a b. sau a b \<longleftrightarrow> a + b < 2 ^ 32"
  shows "ptr \<le> length (mbytes m) + 2 ^ 17 \<Longrightarrow> \<forall>k<n. header_clear m (record_pos (mbytes m) ptr k) \<Longrightarrow> parse_cd sau sal m n ptr es \<noteq> None"
proof (induction n arbitrary: ptr es)
  case (Suc n)
  have "header_clear m ptr" using Suc.prems(2) by auto
  from parse_cd_entry_defined [OF low sau Suc.prems(1) this] obtain r where
    r: "parse_cd_entry sau sal m ptr = Some r" "\<forall>e q. r = Some (e, q) \<longrightarrow> q \<le> length (mbytes m) + 2 ^ 17"
    by blast
  show ?case
  proof (cases r)
    case (Some eq)
    obtain e q where eq: "eq = (e, q)" by (cases eq)
    have "q = next_record (mbytes m) ptr" using parse_cd_entry_reads r(1) Some eq by blast
    then have "\<forall>k<n. header_clear m (record_pos (mbytes m) q k)" using Suc.prems(2) by auto
    then show ?thesis using Suc.IH [of q] r Some eq by simp
  qed (simp add: r)
qed simp

lemma index_map_of:
  "case map_of (map (\<lambda>i. (f i, i)) [0..<n]) k of
     None \<Rightarrow> \<forall>i<n. f i \<noteq> k
   | Some i \<Rightarrow> i < n \<and> f i = k \<and> (\<forall>j<i. f j \<noteq> k)"
proof (induction n)
  case (Suc n)
  have "map_of (map (\<lambda>i. (f i, i)) [0..<Suc n]) k =
      (case map_of (map (\<lambda>i. (f i, i)) [0..<n]) k of None \<Rightarrow> if f n = k then Some n else None | Some i \<Rightarrow> Some i)"
    by (auto simp: map_add_def split: option.splits)
  then show ?case using Suc by (auto simp: less_Suc_eq split: option.splits)
qed simp

lemma create_returns: "mzHashTableCreate heap_ok n ff \<noteq> Hangs"
  by (simp add: mzHashTableCreate_def Let_def)

section \<open>A sample archive\<close>

text \<open>One stored entry \<open>a\<close> with the contents \<open>hi\<close>.\<close>

definition sample_zip :: "byte list" where
  "sample_zip =
     [80, 75, 3, 4, 20, 0, 0, 0, 0, 0, 0, 0, 0, 0, 172, 42, 147, 216, 2, 0, 0, 0, 2, 0, 0, 0, 1, 0,
     0, 0, 97, 104, 105, 80, 75, 1, 2, 20, 3, 20, 0, 0, 0, 0, 0, 0, 0, 0, 0, 172, 42, 147, 216, 2,
     0, 0, 0, 2, 0, 0, 0, 1, 0, 0, 0, 0, 0, 0, 0, 0, 0, 0, 0, 164, 129, 0, 0, 0, 0, 97, 80, 75, 5,
     6, 0, 0, 0, 0, 1, 0, 1, 0, 47, 0, 0, 0, 33, 0, 0, 0, 0, 0]"

definition sample_map :: MemMapping where
  "sample_map = \<lparr>addr = 1073741824, mbytes = sample_zip\<rparr>"

definition sample_entry :: ZipEntry where
  "sample_entry = \<lparr>fileName = ''a'', offset = 31, compLen = 2, uncompLen = 2, compression = 0,
     modTime = 0, crc32 = - 661443924, versionMadeBy = 788, externalFileAttributes = - 2119958528\<rparr>"

lemma sample_length: "length sample_zip = 102"
  by (simp add: sample_zip_def)

lemma sample_gets:
  "get4LE sample_zip 0 = Some LOCSIG" "get2LE sample_zip 26 = Some 1" "get2LE sample_zip 28 = Some 0"
  "get4LE sample_zip 33 = Some CENSIG" "get4LE sample_zip 75 = Some 0" "get2LE sample_zip 61 = Some 1"
  "get2LE sample_zip 63 = Some 0" "get2LE sample_zip 65 = Some 0" "get4LE sample_zip 53 = Some 2"
  "get4LE sample_zip 57 = Some 2" "get2LE sample_zip 43 = Some 0" "get4LE sample_zip 45 = Some 0"
  "get4LE sample_zip 49 = Some 3633523372" "get2LE sample_zip 37 = Some 788"
  "get4LE sample_zip 71 = Some 2175008768" "get2LE sample_zip 88 = Some 1" "get4LE sample_zip 96 = Some 33"
  by (simp_all add: get4LE_eq get2LE_eq le32_def le16_def byte_val_def sample_zip_def LOCSIG_def CENSIG_def)

lemma sample_name: "bytes_string (segment sample_zip 79 (Suc 0)) = ''a''" "validFilename ''a''"
  by (simp_all add: sample_zip_def segment_def bytes_string_def validFilename_def PATH_MAX_def char_of_def bit_0)

lemma sample_eocd: "find_eocd sample_zip = Some (Some 80)"
  by (simp add: find_eocd_def ENDHDR_def sample_length numeral_eq_Suc)
     (simp add: sample_zip_def nth_ub_def get4LE_eq le32_def byte_val_def ENDSIG_def)

lemma sample_offset:
  "entry_offset (\<lambda>a b. a + b < 2 ^ 32) (\<lambda>a b. a + b < 2 ^ 31) sample_map 0 2 = Some (Some 31)"
  by (simp add: entry_offset_def beyond_def sample_map_def sample_length sample_gets LOCHDR_def LOCNAM_def LOCEXT_def)

lemma sample_cd:
  "parse_cd_entry (\<lambda>a b. a + b < 2 ^ 32) (\<lambda>a b. a + b < 2 ^ 31) sample_map 33 = Some (Some (sample_entry, 80))"
  using sample_offset
  by (simp add: parse_cd_entry_def beyond_def segment_ub_def sample_map_def sample_length sample_gets CENHDR_def
     CENOFF_def CENNAM_def CENEXT_def CENCOM_def CENSIZ_def CENLEN_def CENHOW_def CENTIM_def CENCRC_def
     CENVEM_def CENATX_def CENVEM_UNIX_def sample_name sample_entry_def)

lemma sample_parse:
  obtains a where "parseZipArchive (\<lambda>_ _. True) (\<lambda>a b. a + b < 2 ^ 32) (\<lambda>a b. a + b < 2 ^ 31) sample_map
      empty_archive = Some (Done (Some a))" "zEntries a = [sample_entry]" "zNumEntries a = 1"
proof -
  let ?heap = "\<lambda>_ _. True"
  define t0 where "t0 = \<lparr>tableSize = 2, numEntries = 0, numDeadEntries = 0,
    pEntries = [empty_entry, empty_entry :: nat HashEntry], freeFunc = False\<rparr>"
  have create: "mzHashTableCreate ?heap (mzHashSize 1) False = Done (Some t0)"
  proof -
    have "mzHashSize 1 = 2" by (simp add: mzHashSize_def LOAD_NUMER_def LOAD_DENOM_def)
    moreover have "roundUpPower2 2 = 2" by (simp add: roundUpPower2_def)
    moreover have "replicate 2 x = [x, x]" for x :: "nat HashEntry" by (simp add: numeral_2_eq_2)
    ultimately show ?thesis
      by (simp add: mzHashTableCreate_def calloc_def sizeof_HashTable_def t0_def)
  qed
  have ok: "table_ok (\<lambda>i. fileName ([sample_entry] ! i)) computeHash t0"
    "table_map (\<lambda>i. fileName ([sample_entry] ! i)) t0 = Map.empty"
    using index_create [of ?heap 1 t0 "[sample_entry]"] create by auto
  obtain t1 where "addEntryToHashTable ?heap [sample_entry] t0 0 = Done (Some 0, t1)"
    using zip_index.lookup_add [OF ok(1), where x = 0 and heap_ok = ?heap] ok(2)
    by (auto simp: addEntryToHashTable_def calloc_def sizeof_HashTable_def t0_def)
  then show ?thesis
    using that sample_cd create
    by (simp add: parseZipArchive_def sample_map_def sample_gets sample_eocd sample_length LOCSIG_def ENDSIG_def
        ENDSUB_def ENDOFF_def calloc_def sizeof_ZipEntry_def insert_entry_def empty_archive_def)
qed

section \<open>Properties\<close>

text \<open>
  C1.  When parsing succeeds, the archive holds exactly the entries of the directory that the end record describes: as
  many as its count field says, each with the name, sizes, times and data offset of its record.  They are
  sorted by name, every name is printable and shorter than \<open>PATH_MAX\<close>, the data of
  every entry with non-negative offset and compressed length lie inside the file, and the hash index maps exactly
  the names of the entries, each to its first occurrence.
\<close>

theorem parseZipArchive_ok:
  assumes "parseZipArchive heap_ok sau sal m pArchive = Some (Done (Some a))"
    and "\<And>a b. sal a b \<Longrightarrow> a + b < 2 ^ 31"
  shows "archive_ok (length (mbytes m)) a \<and>
    (\<exists>p. find_eocd (mbytes m) = Some (Some p) \<and> zNumEntries a = le16 (mbytes m) (p + 8) \<and>
       mset (zEntries a) = mset (directory (mbytes m) p))"
  using parse_archive_ok [OF assms] parse_archive_directory [OF assms(1)] by blast

theorem parseZipArchive_ok_witness:
  "\<exists>a. parseZipArchive (\<lambda>_ _. True) (\<lambda>a b. a + b < 2 ^ 32) (\<lambda>a b. a + b < 2 ^ 31) sample_map empty_archive =
     Some (Done (Some a)) \<and> archive_ok 102 a \<and> zEntries a = [sample_entry] \<and> mset (zEntries a) = mset (directory sample_zip 80)"
proof -
  obtain a where a: "parseZipArchive (\<lambda>_ _. True) (\<lambda>a b. a + b < 2 ^ 32) (\<lambda>a b. a + b < 2 ^ 31) sample_map
      empty_archive = Some (Done (Some a))" "zEntries a = [sample_entry]"
    using sample_parse by blast
  have "archive_ok (length (mbytes sample_map)) a \<and>
      (\<exists>p. find_eocd (mbytes sample_map) = Some (Some p) \<and> zNumEntries a = le16 (mbytes sample_map) (p + 8) \<and>
         mset (zEntries a) = mset (directory (mbytes sample_map) p))"
    by (rule parseZipArchive_ok [OF a(1)]) simp
  then show ?thesis using a by (auto simp: sample_map_def sample_length sample_eocd)
qed

text \<open>
  C2.  Searching an opened archive by name always returns.  It finds the first entry of that name in
  the sorted array, and reports that there is none exactly when no entry has the name.
\<close>

theorem mzFindZipEntry_correct:
  assumes "parseZipArchive heap_ok sau sal m pArchive = Some (Done (Some a))"
    and "\<And>a b. sal a b \<Longrightarrow> a + b < 2 ^ 31"
  shows "\<exists>r. mzFindZipEntry a name = Some (Done r) \<and>
    (case r of
       None \<Rightarrow> \<forall>i<zNumEntries a. fileName (zEntries a ! i) \<noteq> name
     | Some i \<Rightarrow> i < zNumEntries a \<and> fileName (zEntries a ! i) = name \<and>
         (\<forall>j<i. fileName (zEntries a ! j) \<noteq> name))"
proof -
  obtain t where t: "zHash a = Some t" "table_ok (\<lambda>i. fileName (zEntries a ! i)) computeHash t"
    "table_map (\<lambda>i. fileName (zEntries a ! i)) t =
       map_of (map (\<lambda>i. (fileName (zEntries a ! i), i)) [0..<zNumEntries a])"
    using parse_archive_ok [OF assms] by (auto simp: archive_ok_def)
  have find: "mzFindZipEntry a name =
      Some (Done (map_of (map (\<lambda>i. (fileName (zEntries a ! i), i)) [0..<zNumEntries a]) name))"
    using zip_index.lookup_find [OF t(2), of "\<lambda>_ _. False" name] t by (simp add: mzFindZipEntry_def)
  show ?thesis
    unfolding find using index_map_of [where f = "\<lambda>i. fileName (zEntries a ! i)" and n = "zNumEntries a" and k = name] by blast
qed

theorem mzFindZipEntry_correct_witness:
  "\<exists>a. parseZipArchive (\<lambda>_ _. True) (\<lambda>a b. a + b < 2 ^ 32) (\<lambda>a b. a + b < 2 ^ 31) sample_map empty_archive =
     Some (Done (Some a)) \<and> mzFindZipEntry a ''a'' = Some (Done (Some 0)) \<and> mzFindZipEntry a ''b'' = Some (Done None)"
proof -
  obtain a where a: "parseZipArchive (\<lambda>_ _. True) (\<lambda>a b. a + b < 2 ^ 32) (\<lambda>a b. a + b < 2 ^ 31) sample_map
      empty_archive = Some (Done (Some a))" "zEntries a = [sample_entry]" "zNumEntries a = 1"
    using sample_parse by blast
  have "\<exists>r. mzFindZipEntry a name = Some (Done r) \<and> (case r of None \<Rightarrow> name \<noteq> ''a'' | Some i \<Rightarrow> i = 0 \<and> name = ''a'')" for name
    using mzFindZipEntry_correct [OF a(1), of name] a(2,3) by (auto simp: sample_entry_def split: option.splits)
  from this [of "''a''"] this [of "''b''"] a(1) show ?thesis
    by (auto split: option.splits)
qed

text \<open>
  C19.  The backward scan is defined on every file of at least \<open>ENDHDR\<close> bytes and finds the last
  position at which a complete end record can start with the signature, if there is one.
\<close>

theorem find_eocd_last:
  assumes "ENDHDR \<le> length bs"
  shows "\<exists>r. find_eocd bs = Some r \<and>
    (case r of
       None \<Rightarrow> \<forall>q. q + ENDHDR \<le> length bs \<longrightarrow> get4LE bs q \<noteq> Some ENDSIG
     | Some p \<Rightarrow> p + ENDHDR \<le> length bs \<and> get4LE bs p = Some ENDSIG \<and>
         (\<forall>q. q + ENDHDR \<le> length bs \<longrightarrow> get4LE bs q = Some ENDSIG \<longrightarrow> q \<le> p))"
  by (rule find_eocd_spec [OF assms]) auto

theorem find_eocd_last_witness:
  "\<exists>r. find_eocd sample_zip = Some r \<and> r = Some 80"
  using find_eocd_last [of sample_zip] sample_eocd by (simp add: sample_length ENDHDR_def)

text \<open>
  C5.  Parsing a mapping of at least \<open>ENDHDR\<close> bytes that does not end within 200 KB of the end of the address
  space reads only inside the mapping and always terminates, provided no record of its directory names a local
  header that wraps around the end of the address space.
\<close>

theorem parseZipArchive_defined:
  assumes "ENDHDR \<le> length (mbytes m)" and "low_mapping m"
    and "\<And>a b. sau a b \<longleftrightarrow> a + b < 2 ^ 32" and "no_header_wrap m"
  shows "\<exists>r. parseZipArchive heap_ok sau sal m pArchive = Some r \<and> r \<noteq> Hangs"
proof -
  have 0: "get4LE (mbytes m) 0 \<noteq> None" using assms(1) by (simp add: get4LE_eq ENDHDR_def)
  have add: "add_all (addEntryToHashTable heap_ok es) xs t \<noteq> Hangs"
    if "mzHashTableCreate heap_ok (mzHashSize (ucast (n :: 16 word))) False = Done (Some t)" for es xs t n
    using zip_index.dict.add_all_returns [OF conjunct1 [OF index_create [OF that]], where heap_ok = heap_ok and xs = xs]
    by (simp add: addEntryToHashTable_def [abs_def])
  show ?thesis
  proof (cases rule: find_eocd_spec [OF assms(1)])
    case 1
    then show ?thesis using 0 by (auto simp: parseZipArchive_def Let_def)
  next
    case (2 p)
    then have "get2LE (mbytes m) (p + ENDSUB) \<noteq> None" "get4LE (mbytes m) (p + ENDOFF) \<noteq> None"
      by (auto simp: get2LE_eq get4LE_eq ENDSUB_def ENDOFF_def ENDHDR_def)
    then obtain n off where g: "get2LE (mbytes m) (p + ENDSUB) = Some n" "get4LE (mbytes m) (p + ENDOFF) = Some off" by blast
    then have u: "unat n = le16 (mbytes m) (p + 8)" "unat off = le32 (mbytes m) (p + 16)"
      by (auto simp: get2LE_eq get4LE_eq ENDSUB_def ENDOFF_def split: if_splits)
    have "\<exists>r. parse_cd sau sal m (unat n) (unat off) [] = Some r" if "unat off < length (mbytes m)"
      using parse_cd_defined [OF assms(2,3), of "unat off" "unat n"] that assms(4) 2(1) u by (auto simp: no_header_wrap_def list_all_iff)
    then show ?thesis
      using 0 2(1) add [of n] g
      by (auto simp: parseZipArchive_def Let_def create_returns not_le split: run.splits option.splits)
  qed
qed

lemma sample_no_wrap: "no_header_wrap sample_map" "low_mapping sample_map"
  by (simp_all add: no_header_wrap_def low_mapping_def header_clear_def sample_map_def sample_length sample_eocd Let_def)
     (simp add: sample_zip_def le32_def le16_def byte_val_def)

theorem parseZipArchive_defined_witness:
  "\<exists>r. parseZipArchive (\<lambda>_ _. True) (\<lambda>a b. a + b < 2 ^ 32) (\<lambda>a b. a + b < 2 ^ 31) sample_map empty_archive =
     Some r \<and> r \<noteq> Hangs"
  by (rule parseZipArchive_defined [OF _ sample_no_wrap(2) _ sample_no_wrap(1)])
     (simp_all add: sample_map_def sample_length ENDHDR_def)

text \<open>
  The range check of the local header adds \<open>LOCHDR\<close> to an address that the overflow check has
  only bounded by \<open>2 ^ 32\<close>.  An offset that puts the header into the last \<open>LOCHDR\<close> bytes of the
  address space therefore passes both checks, and the header is read outside the mapping.
\<close>

theorem entry_offset_wraps:
  assumes "\<And>a b. sau a b \<longleftrightarrow> a + b < 2 ^ 32" and "0 < k" and "k \<le> LOCHDR"
    and "LOCHDR \<le> addr m" and "addr m + length (mbytes m) + LOCHDR < 2 ^ 32"
  shows "entry_offset sau sal m (of_nat (2 ^ 32 - addr m - k)) clen = None"
proof -
  let ?o = "2 ^ 32 - addr m - k"
  have "unat (of_nat ?o :: u32) = ?o"
    using assms(2,3,4,5) by (intro unat_of_nat_u32) (simp add: LOCHDR_def)
  moreover have "addr m + ?o + LOCHDR = 2 ^ 32 + (LOCHDR - k)"
    using assms(2,3,4,5) by (simp add: LOCHDR_def)
  then have "(addr m + ?o + LOCHDR) mod 2 ^ 32 = (LOCHDR - k) mod 2 ^ 32"
    by (simp only: mod_add_self1)
  then have "(addr m + ?o + LOCHDR) mod 2 ^ 32 = LOCHDR - k"
    by (simp only: mod_less) (simp add: LOCHDR_def)
  moreover have "(addr m + length (mbytes m)) mod 2 ^ 32 = addr m + length (mbytes m)"
    using assms(5) by simp
  moreover have "addr m + ?o < 2 ^ 32" "length (mbytes m) < ?o + 4"
    using assms(2,3,4,5) by (simp_all add: LOCHDR_def)
  ultimately show ?thesis
    using assms(1,4) by (simp add: entry_offset_def beyond_def get4LE_eq LOCHDR_def add.assoc)
qed

theorem entry_offset_wraps_witness:
  "entry_offset (\<lambda>a b. a + b < 2 ^ 32) (\<lambda>a b. a + b < 2 ^ 31) sample_map (of_nat (2 ^ 32 - 1073741824 - 16)) 2 = None"
  using entry_offset_wraps [of "\<lambda>a b. a + b < 2 ^ 32" 16 sample_map] 
  by (simp add: sample_map_def sample_length LOCHDR_def)

end
