(* ===== verification/Verifier.thy ===== *)
theory Verifier
  imports Zip
begin

text \<open>
  Whole-file signature verification and the key file parser (\<^verbatim>\<open>verifier.c\<close>, \<^verbatim>\<open>verifier.h\<close>).

  The hash functions and the RSA check of the external mincrypt library are parameters.  A file
  is its bytes; \<open>opens\<close>, \<open>read_ok\<close> and \<open>vheap_ok\<close> say whether opening, a read of a range and an
  allocation succeed, so that every error path can be taken.
\<close>

section \<open>State and parameters\<close>

definition RSANUMBYTES :: nat where "RSANUMBYTES = 256"
definition RSANUMWORDS :: nat where "RSANUMWORDS = 64"
definition SHA_DIGEST_SIZE :: int where "SHA_DIGEST_SIZE = 20"
definition SHA256_DIGEST_SIZE :: int where "SHA256_DIGEST_SIZE = 32"
definition FOOTER_SIZE :: nat where "FOOTER_SIZE = 6"
definition EOCD_HEADER_SIZE :: nat where "EOCD_HEADER_SIZE = 22"
definition BUFFER_SIZE :: nat where "BUFFER_SIZE = 4096"
definition VERIFY_SUCCESS :: int where "VERIFY_SUCCESS = 0"
definition VERIFY_FAILURE :: int where "VERIFY_FAILURE = 1"

record RSAPublicKey =
  klen :: int
  n0inv :: u32
  kn :: "u32 list"
  krr :: "u32 list"
  exponent :: int

record Certificate =
  hash_len :: int
  public_key :: RSAPublicKey

record vfile =
  content :: "byte list"
  opens :: bool
  read_ok :: "nat \<Rightarrow> nat \<Rightarrow> bool"
  vheap_ok :: "nat \<Rightarrow> bool"

text \<open>A streaming hash function: initial context, update, final digest.\<close>

record 's sha =
  sha_init :: 's
  sha_update :: "'s \<Rightarrow> byte list \<Rightarrow> 's"
  sha_final :: "'s \<Rightarrow> byte list"

type_synonym rsa_check = "RSAPublicKey \<Rightarrow> byte list \<Rightarrow> byte list \<Rightarrow> int \<Rightarrow> bool"

section \<open>File access\<close>

definition fseek_end :: "vfile \<Rightarrow> nat \<Rightarrow> nat option" where
  "fseek_end f n = (if n \<le> length (content f) then Some (length (content f) - n) else None)"

definition fread :: "vfile \<Rightarrow> nat \<Rightarrow> nat \<Rightarrow> byte list option" where
  "fread f pos n =
     (if pos + n \<le> length (content f) \<and> read_ok f pos n then Some (segment (content f) pos n) else None)"

section \<open>Verification\<close>

definition marker_at :: "byte list \<Rightarrow> nat \<Rightarrow> bool" where
  "marker_at bs i \<longleftrightarrow> bs ! i = 0x50 \<and> bs ! (i + 1) = 0x4b \<and> bs ! (i + 2) = 0x05 \<and> bs ! (i + 3) = 0x06"

definition marker_after_start :: "byte list \<Rightarrow> bool" where
  "marker_after_start eocd \<longleftrightarrow> list_ex (marker_at eocd) [4..<length eocd - 3]"

function hash_loop ::
  "'a sha \<Rightarrow> 'b sha \<Rightarrow> vfile \<Rightarrow> bool \<Rightarrow> bool \<Rightarrow> nat \<Rightarrow> nat \<Rightarrow> 'a \<Rightarrow> 'b \<Rightarrow> ('a \<times> 'b) option" where
  "hash_loop H1 H2 f need_sha1 need_sha256 signed_len so_far ctx1 ctx2 =
     (if signed_len \<le> so_far then Some (ctx1, ctx2)
      else let size = (if signed_len - so_far < BUFFER_SIZE then signed_len - so_far else BUFFER_SIZE) in
        case fread f so_far size of
          None \<Rightarrow> None
        | Some buffer \<Rightarrow>
            hash_loop H1 H2 f need_sha1 need_sha256 signed_len (so_far + size)
              (if need_sha1 then sha_update H1 ctx1 buffer else ctx1)
              (if need_sha256 then sha_update H2 ctx2 buffer else ctx2))"
  by pat_completeness auto
termination
  by (relation "measure (\<lambda>(H1, H2, f, need_sha1, need_sha256, signed_len, so_far, ctx1, ctx2). signed_len - so_far)")
     (auto simp: BUFFER_SIZE_def)

declare hash_loop.simps [simp del]

text \<open>
  The loop over the keys.  The signature block starts \<open>FOOTER_SIZE + RSANUMBYTES\<close> bytes before the
  end of the end record; when the record is shorter, the pointer lies before the buffer.
\<close>

fun try_keys :: "rsa_check \<Rightarrow> byte list \<Rightarrow> byte list \<Rightarrow> byte list \<Rightarrow> Certificate list \<Rightarrow> int ub" where
  "try_keys rsa eocd sha1 sha256 [] = Some VERIFY_FAILURE"
| "try_keys rsa eocd sha1 sha256 (k # ks) =
     (if hash_len k \<noteq> SHA_DIGEST_SIZE \<and> hash_len k \<noteq> SHA256_DIGEST_SIZE then try_keys rsa eocd sha1 sha256 ks
      else if length eocd < FOOTER_SIZE + RSANUMBYTES then None
      else
        let hash = (if hash_len k = SHA_DIGEST_SIZE then sha1 else sha256);
            sig = segment eocd (length eocd - FOOTER_SIZE - RSANUMBYTES) RSANUMBYTES
        in if rsa (public_key k) sig hash (hash_len k) then Some VERIFY_SUCCESS
           else try_keys rsa eocd sha1 sha256 ks)"

definition verify_eocd ::
  "rsa_check \<Rightarrow> 'a sha \<Rightarrow> 'b sha \<Rightarrow> vfile \<Rightarrow> Certificate list \<Rightarrow> nat \<Rightarrow> byte list \<Rightarrow> int ub" where
  "verify_eocd rsa H1 H2 f pKeys signed_len eocd =
     (if \<not> marker_at eocd 0 then Some VERIFY_FAILURE
      else if marker_after_start eocd then Some VERIFY_FAILURE
      else
        let need_sha1 = list_ex (\<lambda>k. hash_len k = SHA_DIGEST_SIZE) pKeys;
            need_sha256 = list_ex (\<lambda>k. hash_len k = SHA256_DIGEST_SIZE) pKeys
        in if \<not> vheap_ok f BUFFER_SIZE then Some VERIFY_FAILURE
           else case hash_loop H1 H2 f need_sha1 need_sha256 signed_len 0 (sha_init H1) (sha_init H2) of
               None \<Rightarrow> Some VERIFY_FAILURE
             | Some (ctx1, ctx2) \<Rightarrow> try_keys rsa eocd (sha_final H1 ctx1) (sha_final H2 ctx2) pKeys)"

definition verify_file ::
  "rsa_check \<Rightarrow> 'a sha \<Rightarrow> 'b sha \<Rightarrow> vfile \<Rightarrow> Certificate list \<Rightarrow> int ub" where
  "verify_file rsa H1 H2 f pKeys =
     (if \<not> opens f then Some VERIFY_FAILURE
      else case fseek_end f FOOTER_SIZE of
        None \<Rightarrow> Some VERIFY_FAILURE
      | Some pos \<Rightarrow>
          (case fread f pos FOOTER_SIZE of
             None \<Rightarrow> Some VERIFY_FAILURE
           | Some footer \<Rightarrow>
               if footer ! 2 \<noteq> 0xff \<or> footer ! 3 \<noteq> 0xff then Some VERIFY_FAILURE
               else
                 let comment_size = le16 footer 4; signature_start = le16 footer 0 in
                 if int signature_start - int FOOTER_SIZE < int RSANUMBYTES then Some VERIFY_FAILURE
                 else
                   let eocd_size = comment_size + EOCD_HEADER_SIZE in
                   case fseek_end f eocd_size of
                     None \<Rightarrow> Some VERIFY_FAILURE
                   | Some pos \<Rightarrow>
                       let signed_len = pos + EOCD_HEADER_SIZE - 2 in
                       if \<not> vheap_ok f eocd_size then Some VERIFY_FAILURE
                       else case fread f pos eocd_size of
                           None \<Rightarrow> Some VERIFY_FAILURE
                         | Some eocd \<Rightarrow> verify_eocd rsa H1 H2 f pKeys signed_len eocd))"

section \<open>What verification establishes\<close>

text \<open>
  The specification.  The file ends in a footer that gives the comment size; the end record of that
  size starts with the marker and contains no other marker; and the 256 bytes before the footer
  are a signature, under one of the keys, of the digest of everything up to the comment length
  field.
\<close>

definition signature_ok ::
  "rsa_check \<Rightarrow> (byte list \<Rightarrow> byte list) \<Rightarrow> (byte list \<Rightarrow> byte list) \<Rightarrow> byte list \<Rightarrow> byte list \<Rightarrow> Certificate \<Rightarrow> bool" where
  "signature_ok rsa h1 h2 sig msg k \<longleftrightarrow>
     (hash_len k = SHA_DIGEST_SIZE \<and> rsa (public_key k) sig (h1 msg) (hash_len k)) \<or>
     (hash_len k = SHA256_DIGEST_SIZE \<and> rsa (public_key k) sig (h2 msg) (hash_len k))"

definition eocd_start :: "byte list \<Rightarrow> nat" where
  "eocd_start bs = length bs - (le16 bs (length bs - 2) + EOCD_HEADER_SIZE)"

definition whole_file_signed ::
  "rsa_check \<Rightarrow> (byte list \<Rightarrow> byte list) \<Rightarrow> (byte list \<Rightarrow> byte list) \<Rightarrow> byte list \<Rightarrow> Certificate list \<Rightarrow> bool" where
  "whole_file_signed rsa h1 h2 bs keys \<longleftrightarrow>
     FOOTER_SIZE + RSANUMBYTES \<le> le16 bs (length bs - 2) + EOCD_HEADER_SIZE \<and>
     le16 bs (length bs - 2) + EOCD_HEADER_SIZE \<le> length bs \<and>
     bs ! (length bs - 4) = 0xff \<and> bs ! (length bs - 3) = 0xff \<and>
     FOOTER_SIZE + RSANUMBYTES \<le> le16 bs (length bs - 6) \<and>
     marker_at bs (eocd_start bs) \<and>
     (\<forall>q. eocd_start bs < q \<and> q + 4 \<le> length bs \<longrightarrow> \<not> marker_at bs q) \<and>
     (\<exists>k \<in> set keys. signature_ok rsa h1 h2
        (segment bs (length bs - FOOTER_SIZE - RSANUMBYTES) RSANUMBYTES) (take (eocd_start bs + 20) bs) k)"

definition streams :: "'s sha \<Rightarrow> (byte list \<Rightarrow> byte list) \<Rightarrow> bool" where
  "streams H h \<longleftrightarrow> (\<forall>chunks. sha_final H (foldl (sha_update H) (sha_init H) chunks) = h (concat chunks))"

definition io_ok :: "vfile \<Rightarrow> bool" where
  "io_ok f \<longleftrightarrow> opens f \<and> (\<forall>p n. read_ok f p n) \<and> (\<forall>n. vheap_ok f n)"

section \<open>The hash loop\<close>

lemma hash_loop_chunks:
  "hash_loop H1 H2 f n1 n2 len so_far c1 c2 = Some (d1, d2) \<Longrightarrow> so_far \<le> len \<Longrightarrow>
   \<exists>chunks. concat chunks = segment (content f) so_far (len - so_far) \<and>
     d1 = (if n1 then foldl (sha_update H1) c1 chunks else c1) \<and>
     d2 = (if n2 then foldl (sha_update H2) c2 chunks else c2)"
proof (induction H1 H2 f n1 n2 len so_far c1 c2 rule: hash_loop.induct)
  case (1 H1 H2 f n1 n2 len so_far c1 c2)
  show ?case
  proof (cases "len \<le> so_far")
    case True
    then have "hash_loop H1 H2 f n1 n2 len so_far c1 c2 = Some (c1, c2)"
      by (subst hash_loop.simps) simp
    then show ?thesis
      using 1(2,3) True by (intro exI [of _ "[]"]) simp
  next
    case False
    define size where "size = (if len - so_far < BUFFER_SIZE then len - so_far else BUFFER_SIZE)"
    have size: "so_far + size \<le> len" using False by (auto simp: size_def)
    obtain buf where buf: "fread f so_far size = Some buf"
      using 1(2) False by (auto simp: hash_loop.simps [of H1 H2 f n1 n2 len so_far] size_def [symmetric] Let_def
          split: option.splits)
    then have rec: "hash_loop H1 H2 f n1 n2 len (so_far + size)
        (if n1 then sha_update H1 c1 buf else c1) (if n2 then sha_update H2 c2 buf else c2) = Some (d1, d2)"
      using 1(2) False by (simp add: hash_loop.simps [of H1 H2 f n1 n2 len so_far] size_def [symmetric] Let_def)
    obtain chunks where "concat chunks = segment (content f) (so_far + size) (len - (so_far + size))"
      "d1 = (if n1 then foldl (sha_update H1) (if n1 then sha_update H1 c1 buf else c1) chunks else (if n1 then sha_update H1 c1 buf else c1))"
      "d2 = (if n2 then foldl (sha_update H2) (if n2 then sha_update H2 c2 buf else c2) chunks else (if n2 then sha_update H2 c2 buf else c2))"
      using 1(1) [OF False size_def buf rec size] by blast
    moreover have "buf = segment (content f) so_far size"
      using buf by (auto simp: fread_def split: if_splits)
    moreover have "segment (content f) so_far (len - so_far) =
        segment (content f) so_far size @ segment (content f) (so_far + size) (len - (so_far + size))"
      using size by (simp add: segment_add [symmetric])
    ultimately show ?thesis by (intro exI [of _ "buf # chunks"]) auto
  qed
qed

lemma hash_loop_returns:
  "(\<forall>p n. read_ok f p n) \<Longrightarrow> len \<le> length (content f) \<Longrightarrow>
   \<exists>r. hash_loop H1 H2 f n1 n2 len so_far c1 c2 = Some r"
proof (induction H1 H2 f n1 n2 len so_far c1 c2 rule: hash_loop.induct)
  case (1 H1 H2 f n1 n2 len so_far c1 c2)
  then show ?case
    by (cases "len \<le> so_far")
       (auto simp: hash_loop.simps [of H1 H2 f n1 n2 len so_far] fread_def Let_def BUFFER_SIZE_def)
qed

lemma hash_loop_digest:
  assumes "hash_loop H1 H2 f n1 n2 len 0 (sha_init H1) (sha_init H2) = Some (d1, d2)"
    and "streams H1 h1" and "streams H2 h2"
  shows "(n1 \<longrightarrow> sha_final H1 d1 = h1 (take len (content f))) \<and>
    (n2 \<longrightarrow> sha_final H2 d2 = h2 (take len (content f)))"
proof -
  obtain chunks where "concat chunks = take len (content f)"
     "d1 = (if n1 then foldl (sha_update H1) (sha_init H1) chunks else sha_init H1)"
     "d2 = (if n2 then foldl (sha_update H2) (sha_init H2) chunks else sha_init H2)"
    using hash_loop_chunks [OF assms(1)] by (auto simp: segment_def)
  then show ?thesis using assms(2,3) by (auto simp: streams_def)
qed

section \<open>Markers\<close>

lemma byte_val_segment:
  "i < n \<Longrightarrow> p + n \<le> length bs \<Longrightarrow> byte_val (segment bs p n) i = byte_val bs (p + i)"
  by (simp add: byte_val_def nth_segment)

lemma le16_segment: "i + 2 \<le> n \<Longrightarrow> p + n \<le> length bs \<Longrightarrow> le16 (segment bs p n) i = le16 bs (p + i)"
  by (simp add: le16_def byte_val_segment add.assoc)

lemma marker_at_segment:
  "i + 4 \<le> n \<Longrightarrow> p + n \<le> length bs \<Longrightarrow> marker_at (segment bs p n) i \<longleftrightarrow> marker_at bs (p + i)"
  by (simp add: marker_at_def nth_segment add.assoc)

lemma digit_unique: "a < 256 \<Longrightarrow> a' < (256 :: nat) \<Longrightarrow> a + 256 * x = a' + 256 * x' \<longleftrightarrow> a = a' \<and> x = x'"
proof
  assume a: "a < 256" "a' < 256" and eq: "a + 256 * x = a' + 256 * x'"
  have "(a + 256 * x) mod 256 = (a' + 256 * x') mod 256" by (simp only: eq)
  then have "a = a'" using a by simp
  then show "a = a' \<and> x = x'" using eq by simp
qed simp

lemma four_bytes_unique:
  assumes "a < 256" "b < 256" "c < 256"
  shows "a + 256 * b + 65536 * c + 16777216 * d = 0x06054b50 \<longleftrightarrow> a = 0x50 \<and> b = 0x4b \<and> c = 0x05 \<and> d = (0x06 :: nat)"
proof -
  have "a + 256 * b + 65536 * c + 16777216 * d = a + 256 * (b + 256 * (c + 256 * d))"
    and "(0x06054b50 :: nat) = 0x50 + 256 * (0x4b + 256 * (0x05 + 256 * 0x06))"
    by simp_all
  then show ?thesis using assms by (simp only: digit_unique)
qed

lemma marker_endsig:
  assumes "i + 4 \<le> length bs"
  shows "get4LE bs i = Some ENDSIG \<longleftrightarrow> marker_at bs i"
proof -
  have "get4LE bs i = Some ENDSIG \<longleftrightarrow> le32 bs i = 0x06054b50"
  proof -
    have "(of_nat (le32 bs i) :: u32) = ENDSIG \<longleftrightarrow> le32 bs i = unat ENDSIG"
      using unat_of_nat_u32 [OF le32_lt] by (metis word_unat_eq_iff)
    then show ?thesis using assms by (simp add: get4LE_eq ENDSIG_def)
  qed
  also have "\<dots> \<longleftrightarrow> byte_val bs i = 0x50 \<and> byte_val bs (i + 1) = 0x4b \<and> byte_val bs (i + 2) = 0x05 \<and> byte_val bs (i + 3) = 0x06"
    unfolding le32_def by (rule four_bytes_unique) simp_all
  also have "\<dots> \<longleftrightarrow> marker_at bs i"
    by (simp add: marker_at_def byte_val_def word_unat_eq_iff)
  finally show ?thesis .
qed

lemma no_overlap: "marker_at bs p \<Longrightarrow> p < q \<Longrightarrow> q < p + 4 \<Longrightarrow> \<not> marker_at bs q"
proof -
  assume m: "marker_at bs p" "p < q" "q < p + 4"
  then consider "q = p + 1" | "q = p + 2" | "q = p + 3" by linarith
  then show ?thesis using m(1) by cases (auto simp: marker_at_def)
qed

section \<open>From the code to the specification\<close>

lemma try_keys_eq:
  assumes "FOOTER_SIZE + RSANUMBYTES \<le> length eocd"
  shows "try_keys rsa eocd s1 s2 keys =
    Some (if \<exists>k \<in> set keys. signature_ok rsa (\<lambda>_. s1) (\<lambda>_. s2)
        (segment eocd (length eocd - FOOTER_SIZE - RSANUMBYTES) RSANUMBYTES) msg k
      then VERIFY_SUCCESS else VERIFY_FAILURE)"
  using assms
  by (induction keys)
     (auto simp: signature_ok_def Let_def SHA_DIGEST_SIZE_def SHA256_DIGEST_SIZE_def)

lemma try_keys_success_length:
  "try_keys rsa eocd s1 s2 keys = Some VERIFY_SUCCESS \<Longrightarrow> FOOTER_SIZE + RSANUMBYTES \<le> length eocd"
  by (induction keys) (auto simp: VERIFY_SUCCESS_def VERIFY_FAILURE_def Let_def split: if_splits)

lemma signature_ok_digests:
  assumes "\<exists>k \<in> set keys. hash_len k = SHA_DIGEST_SIZE \<Longrightarrow> s1 = h1 msg"
    and "\<exists>k \<in> set keys. hash_len k = SHA256_DIGEST_SIZE \<Longrightarrow> s2 = h2 msg"
  shows "(\<exists>k \<in> set keys. signature_ok rsa (\<lambda>_. s1) (\<lambda>_. s2) sig msg k) \<longleftrightarrow>
    (\<exists>k \<in> set keys. signature_ok rsa h1 h2 sig msg k)"
  using assms by (auto simp: signature_ok_def)

lemma markers_of_eocd:
  assumes "p + n = length bs" and "4 \<le> n"
  shows "marker_at (segment bs p n) 0 \<and> \<not> marker_after_start (segment bs p n) \<longleftrightarrow>
    marker_at bs p \<and> (\<forall>q. p < q \<and> q + 4 \<le> length bs \<longrightarrow> \<not> marker_at bs q)"
proof -
  have start: "marker_at (segment bs p n) 0 \<longleftrightarrow> marker_at bs p"
    using marker_at_segment [of 0 n p bs] assms by simp
  have later: "marker_after_start (segment bs p n) \<longleftrightarrow> (\<exists>i. 4 \<le> i \<and> i < n - 3 \<and> marker_at bs (p + i))"
  proof -
    have "marker_at (segment bs p n) i \<longleftrightarrow> marker_at bs (p + i)" if "i < n - 3" for i
      using marker_at_segment [of i n p bs] that assms by simp
    moreover have "length (segment bs p n) = n" using assms(1) by simp
    ultimately show ?thesis
      by (auto simp: marker_after_start_def list_ex_iff simp del: length_segment)
  qed
  have "(\<exists>i. 4 \<le> i \<and> i < n - 3 \<and> marker_at bs (p + i)) \<longleftrightarrow> (\<exists>q. p < q \<and> q + 4 \<le> length bs \<and> marker_at bs q)"
    if m: "marker_at bs p"
  proof
    assume "\<exists>i. 4 \<le> i \<and> i < n - 3 \<and> marker_at bs (p + i)"
    then obtain i where "4 \<le> i" "i < n - 3" "marker_at bs (p + i)" by blast
    then show "\<exists>q. p < q \<and> q + 4 \<le> length bs \<and> marker_at bs q"
      using assms by (intro exI [of _ "p + i"]) auto
  next
    assume "\<exists>q. p < q \<and> q + 4 \<le> length bs \<and> marker_at bs q"
    then obtain q where q: "p < q" "q + 4 \<le> length bs" "marker_at bs q" by blast
    then have "p + 4 \<le> q" using no_overlap [OF m, of q] by linarith
    then show "\<exists>i. 4 \<le> i \<and> i < n - 3 \<and> marker_at bs (p + i)"
      using q assms by (intro exI [of _ "q - p"]) auto
  qed
  then show ?thesis using start later by blast
qed

text \<open>Verification after the end record has been read.\<close>

lemma verify_eocd_success:
  assumes H: "streams H1 h1" "streams H2 h2"
    and p: "p + n = length (content f)" "EOCD_HEADER_SIZE \<le> n"
  shows "verify_eocd rsa H1 H2 f keys len (segment (content f) p n) = Some VERIFY_SUCCESS \<Longrightarrow>
      FOOTER_SIZE + RSANUMBYTES \<le> n \<and> marker_at (content f) p \<and>
      (\<forall>q. p < q \<and> q + 4 \<le> length (content f) \<longrightarrow> \<not> marker_at (content f) q) \<and>
      (\<exists>k \<in> set keys. signature_ok rsa h1 h2
         (segment (content f) (length (content f) - FOOTER_SIZE - RSANUMBYTES) RSANUMBYTES) (take len (content f)) k)"
    and "io_ok f \<Longrightarrow> len \<le> length (content f) \<Longrightarrow> FOOTER_SIZE + RSANUMBYTES \<le> n \<Longrightarrow>
      marker_at (content f) p \<Longrightarrow>
      (\<forall>q. p < q \<and> q + 4 \<le> length (content f) \<longrightarrow> \<not> marker_at (content f) q) \<Longrightarrow>
      (\<exists>k \<in> set keys. signature_ok rsa h1 h2
         (segment (content f) (length (content f) - FOOTER_SIZE - RSANUMBYTES) RSANUMBYTES) (take len (content f)) k) \<Longrightarrow>
      verify_eocd rsa H1 H2 f keys len (segment (content f) p n) = Some VERIFY_SUCCESS"
proof -
  let ?bs = "content f" and ?e = "segment (content f) p n"
  have len_e: "length ?e = n" using p(1) by simp
  have n4: "4 \<le> n" using p(2) by (simp add: EOCD_HEADER_SIZE_def)
  note mk = markers_of_eocd [OF p(1) n4]
  let ?n1 = "list_ex (\<lambda>k. hash_len k = SHA_DIGEST_SIZE) keys"
    and ?n2 = "list_ex (\<lambda>k. hash_len k = SHA256_DIGEST_SIZE) keys"
  have sig: "segment ?e (n - FOOTER_SIZE - RSANUMBYTES) RSANUMBYTES =
      segment ?bs (length ?bs - FOOTER_SIZE - RSANUMBYTES) RSANUMBYTES" if "FOOTER_SIZE + RSANUMBYTES \<le> n"
    using that p(1) by (simp add: segment_def drop_take add.commute)
  have keys: "try_keys rsa ?e (sha_final H1 d1) (sha_final H2 d2) keys = Some VERIFY_SUCCESS \<longleftrightarrow>
      (\<exists>k \<in> set keys. signature_ok rsa h1 h2
         (segment ?bs (length ?bs - FOOTER_SIZE - RSANUMBYTES) RSANUMBYTES) (take len ?bs) k)"
    if "hash_loop H1 H2 f ?n1 ?n2 len 0 (sha_init H1) (sha_init H2) = Some (d1, d2)"
      and n: "FOOTER_SIZE + RSANUMBYTES \<le> n" for d1 d2
  proof -
    have "(\<exists>k \<in> set keys. signature_ok rsa (\<lambda>_. sha_final H1 d1) (\<lambda>_. sha_final H2 d2) sg (take len ?bs) k) \<longleftrightarrow>
        (\<exists>k \<in> set keys. signature_ok rsa h1 h2 sg (take len ?bs) k)" for sg
      using hash_loop_digest [OF that(1) H] by (intro signature_ok_digests) (auto simp: list_ex_iff)
    then show ?thesis
      using try_keys_eq [of ?e rsa "sha_final H1 d1" "sha_final H2 d2" keys "take len ?bs", unfolded len_e, OF n]
      by (simp add: sig [OF n] VERIFY_SUCCESS_def VERIFY_FAILURE_def del: diff_diff_left)
  qed
  show "FOOTER_SIZE + RSANUMBYTES \<le> n \<and> marker_at ?bs p \<and>
      (\<forall>q. p < q \<and> q + 4 \<le> length ?bs \<longrightarrow> \<not> marker_at ?bs q) \<and>
      (\<exists>k \<in> set keys. signature_ok rsa h1 h2
         (segment ?bs (length ?bs - FOOTER_SIZE - RSANUMBYTES) RSANUMBYTES) (take len ?bs) k)"
    if v: "verify_eocd rsa H1 H2 f keys len ?e = Some VERIFY_SUCCESS"
  proof -
    obtain d1 d2 where d: "hash_loop H1 H2 f ?n1 ?n2 len 0 (sha_init H1) (sha_init H2) = Some (d1, d2)"
      "try_keys rsa ?e (sha_final H1 d1) (sha_final H2 d2) keys = Some VERIFY_SUCCESS"
      and m: "marker_at ?e 0" "\<not> marker_after_start ?e"
      using v by (auto simp: verify_eocd_def VERIFY_SUCCESS_def VERIFY_FAILURE_def Let_def split: if_splits option.splits)
    then have "FOOTER_SIZE + RSANUMBYTES \<le> n" using try_keys_success_length len_e by metis
    then show ?thesis using keys [OF d(1)] d(2) mk m by blast
  qed
  show "verify_eocd rsa H1 H2 f keys len ?e = Some VERIFY_SUCCESS"
    if io: "io_ok f" "len \<le> length ?bs" and n: "FOOTER_SIZE + RSANUMBYTES \<le> n" and m: "marker_at ?bs p"
      "\<forall>q. p < q \<and> q + 4 \<le> length ?bs \<longrightarrow> \<not> marker_at ?bs q"
      and k: "\<exists>k \<in> set keys. signature_ok rsa h1 h2
         (segment ?bs (length ?bs - FOOTER_SIZE - RSANUMBYTES) RSANUMBYTES) (take len ?bs) k"
  proof -
    obtain d1 d2 where d: "hash_loop H1 H2 f ?n1 ?n2 len 0 (sha_init H1) (sha_init H2) = Some (d1, d2)"
      using hash_loop_returns io unfolding io_ok_def by (metis surj_pair)
    then show ?thesis
      using keys [OF d n] k mk m io(1) by (simp add: verify_eocd_def io_ok_def)
  qed
qed

lemma footer_fields:
  assumes "FOOTER_SIZE \<le> length bs"
  shows "le16 (segment bs (length bs - FOOTER_SIZE) FOOTER_SIZE) 4 = le16 bs (length bs - 2)"
    and "le16 (segment bs (length bs - FOOTER_SIZE) FOOTER_SIZE) 0 = le16 bs (length bs - 6)"
    and "segment bs (length bs - FOOTER_SIZE) FOOTER_SIZE ! 2 = bs ! (length bs - 4)"
    and "segment bs (length bs - FOOTER_SIZE) FOOTER_SIZE ! 3 = bs ! (length bs - 3)"
proof -
  have a: "length bs - 6 + 4 = length bs - 2" "length bs - 6 + 2 = length bs - 4"
    "length bs - 6 + 3 = length bs - 3"
    using assms by (auto simp: FOOTER_SIZE_def)
  show "le16 (segment bs (length bs - FOOTER_SIZE) FOOTER_SIZE) 4 = le16 bs (length bs - 2)"
    using le16_segment [of 4 6 "length bs - 6" bs] assms a by (simp add: FOOTER_SIZE_def)
  show "le16 (segment bs (length bs - FOOTER_SIZE) FOOTER_SIZE) 0 = le16 bs (length bs - 6)"
    using le16_segment [of 0 6 "length bs - 6" bs] assms by (simp add: FOOTER_SIZE_def)
  show "segment bs (length bs - FOOTER_SIZE) FOOTER_SIZE ! 2 = bs ! (length bs - 4)"
    using nth_segment [of 2 6 "length bs - 6" bs] assms a by (simp add: FOOTER_SIZE_def)
  show "segment bs (length bs - FOOTER_SIZE) FOOTER_SIZE ! 3 = bs ! (length bs - 3)"
    using nth_segment [of 3 6 "length bs - 6" bs] assms a by (simp add: FOOTER_SIZE_def)
qed

lemma verify_success_signed:
  assumes "streams H1 h1" and "streams H2 h2"
    and "verify_file rsa H1 H2 f pKeys = Some VERIFY_SUCCESS"
  shows "whole_file_signed rsa h1 h2 (content f) pKeys"
proof -
  let ?bs = "content f" and ?L = "length (content f)"
  let ?c = "le16 (content f) (length (content f) - 2) + EOCD_HEADER_SIZE"
  have L: "FOOTER_SIZE \<le> ?L"
    using assms(3) by (auto simp: verify_file_def fseek_end_def VERIFY_SUCCESS_def VERIFY_FAILURE_def split: if_splits)
  have v: "bs ! 2 = 0xff \<and> bs ! 3 = 0xff \<and> FOOTER_SIZE + RSANUMBYTES \<le> le16 bs 0 \<and> ?c \<le> ?L \<and>
      verify_eocd rsa H1 H2 f pKeys (?L - ?c + EOCD_HEADER_SIZE - 2) (segment ?bs (?L - ?c) ?c) = Some VERIFY_SUCCESS"
    if "bs = segment ?bs (?L - FOOTER_SIZE) FOOTER_SIZE" for bs
    using assms(3) L footer_fields [OF L, folded that] that
    by (auto simp: verify_file_def fseek_end_def fread_def VERIFY_SUCCESS_def VERIFY_FAILURE_def Let_def
        split: if_splits)
  note v = v [OF refl, unfolded footer_fields [OF L]]
  have "?L - ?c + ?c = ?L" using v by simp
  moreover have "EOCD_HEADER_SIZE \<le> ?c" by simp
  ultimately have r: "FOOTER_SIZE + RSANUMBYTES \<le> ?c \<and> marker_at ?bs (?L - ?c) \<and>
      (\<forall>q. ?L - ?c < q \<and> q + 4 \<le> ?L \<longrightarrow> \<not> marker_at ?bs q) \<and>
      (\<exists>k \<in> set pKeys. signature_ok rsa h1 h2 (segment ?bs (?L - FOOTER_SIZE - RSANUMBYTES) RSANUMBYTES)
         (take (?L - ?c + EOCD_HEADER_SIZE - 2) ?bs) k)"
    using verify_eocd_success(1) [OF assms(1,2)] v by blast
  have "eocd_start ?bs = ?L - ?c" "?L - ?c + EOCD_HEADER_SIZE - 2 = ?L - ?c + 20"
    by (simp_all add: eocd_start_def EOCD_HEADER_SIZE_def)
  then show ?thesis
    using v r unfolding whole_file_signed_def by (simp only:) blast
qed

lemma signed_verify_success:
  assumes "streams H1 h1" and "streams H2 h2"
    and "io_ok f" and "whole_file_signed rsa h1 h2 (content f) pKeys"
  shows "verify_file rsa H1 H2 f pKeys = Some VERIFY_SUCCESS"
proof -
  let ?bs = "content f" and ?L = "length (content f)"
  let ?c = "le16 (content f) (length (content f) - 2) + EOCD_HEADER_SIZE"
  note w = assms(4) [unfolded whole_file_signed_def]
  have L: "FOOTER_SIZE \<le> ?L" using w by (simp add: FOOTER_SIZE_def RSANUMBYTES_def)
  have c: "?c \<le> ?L" "?L - ?c + ?c = ?L" using w by auto
  have "verify_eocd rsa H1 H2 f pKeys (?L - ?c + EOCD_HEADER_SIZE - 2) (segment ?bs (?L - ?c) ?c) = Some VERIFY_SUCCESS"
    by (rule verify_eocd_success(2) [OF assms(1,2) c(2) _ assms(3)])
       (use w c in \<open>auto simp: eocd_start_def EOCD_HEADER_SIZE_def\<close>)
  then show ?thesis
    using w L c assms(3) footer_fields [OF L]
    by (auto simp: verify_file_def fseek_end_def fread_def io_ok_def Let_def FOOTER_SIZE_def RSANUMBYTES_def
        simp flip: length_segment)
qed

lemma verified_end_record:
  assumes "whole_file_signed rsa h1 h2 bs keys"
  shows "find_eocd bs = Some (Some (eocd_start bs))" and "eocd_start bs + EOCD_HEADER_SIZE \<le> length bs"
proof -
  note w = assms [unfolded whole_file_signed_def]
  show len: "eocd_start bs + EOCD_HEADER_SIZE \<le> length bs"
    using w by (simp add: eocd_start_def)
  then have 22: "ENDHDR \<le> length bs" and p4: "eocd_start bs + 4 \<le> length bs"
    by (simp_all add: ENDHDR_def EOCD_HEADER_SIZE_def)
  have found: "get4LE bs (eocd_start bs) = Some ENDSIG"
    using w marker_endsig [OF p4] by simp
  from 22 show "find_eocd bs = Some (Some (eocd_start bs))"
  proof (cases rule: find_eocd_spec)
    case 1
    then show ?thesis using found len by (simp add: ENDHDR_def EOCD_HEADER_SIZE_def)
  next
    case (2 p)
    then have p: "eocd_start bs \<le> p" "p + 4 \<le> length bs"
      using found len by (auto simp: ENDHDR_def EOCD_HEADER_SIZE_def)
    moreover have "marker_at bs p" using 2(3) marker_endsig [OF p(2)] by simp
    ultimately have "p = eocd_start bs" using w by (metis le_neq_implies_less)
    then show ?thesis using 2(1) by simp
  qed
qed

lemma get_take:
  "p + 2 \<le> n \<Longrightarrow> n \<le> length bs \<Longrightarrow> get2LE (take n bs) p = get2LE bs p"
  "p + 4 \<le> n \<Longrightarrow> n \<le> length bs \<Longrightarrow> get4LE (take n bs) p = get4LE bs p"
  by (simp_all add: get2LE_eq get4LE_eq le16_def le32_def byte_val_def)

section \<open>A sample signed file\<close>

text \<open>An end record whose comment holds a block of zeros as signature, and the footer.\<close>

definition sample_signed :: "byte list" where
  "sample_signed = [0x50, 0x4b, 5, 6] @ replicate 16 0 @ [6, 1] @ replicate 256 0 @ [6, 1, 0xff, 0xff, 6, 1]"

definition sample_file :: vfile where
  "sample_file = \<lparr>content = sample_signed, opens = True, read_ok = \<lambda>_ _. True, vheap_ok = \<lambda>_. True\<rparr>"

definition plain_sha :: "byte list sha" where
  "plain_sha = \<lparr>sha_init = [], sha_update = (@), sha_final = id\<rparr>"

definition sample_cert :: Certificate where
  "sample_cert = \<lparr>hash_len = 20, public_key = \<lparr>klen = 64, n0inv = 0, kn = [], krr = [], exponent = 3\<rparr>\<rparr>"

lemma plain_sha_streams: "streams plain_sha id"
proof -
  have "foldl (@) xs chunks = xs @ concat chunks" for xs :: "byte list" and chunks
    by (induction chunks arbitrary: xs) auto
  then show ?thesis by (simp add: streams_def plain_sha_def)
qed

lemma sample_signed_facts:
  "length sample_signed = 284" "le16 sample_signed 282 = 262" "le16 sample_signed 278 = 262"
  "sample_signed ! 280 = 0xff" "sample_signed ! 281 = 0xff" "eocd_start sample_signed = 0"
  by (simp_all add: sample_signed_def le16_def byte_val_def nth_append eocd_start_def EOCD_HEADER_SIZE_def)

lemma lone_marker:
  assumes "0x50 \<notin> set (tl bs)" and "0 < q" and "q < length bs"
  shows "\<not> marker_at bs q"
proof -
  have "bs ! q = tl bs ! (q - 1)" using assms(2,3) by (simp add: nth_tl)
  then have "bs ! q \<in> set (tl bs)" using assms(2,3) by simp
  then show ?thesis using assms(1) by (auto simp: marker_at_def)
qed

lemma sample_marker: "marker_at sample_signed 0" "0 < q \<Longrightarrow> q < 284 \<Longrightarrow> \<not> marker_at sample_signed q"
  using lone_marker [of sample_signed q] sample_signed_facts(1)
  by (simp_all add: marker_at_def) (simp_all add: sample_signed_def)

lemma sample_whole_file_signed: "whole_file_signed (\<lambda>_ _ _ _. True) id id sample_signed [sample_cert]"
  using sample_marker
  by (simp add: whole_file_signed_def sample_signed_facts EOCD_HEADER_SIZE_def FOOTER_SIZE_def RSANUMBYTES_def
      signature_ok_def sample_cert_def SHA_DIGEST_SIZE_def)

lemma sample_io: "io_ok sample_file" "content sample_file = sample_signed"
  by (simp_all add: io_ok_def sample_file_def)

section \<open>Properties\<close>

text \<open>
  C6.  Soundness.  If \<open>verify_file\<close> reports success, then the file carries a whole-file signature:
  the 256 bytes before the footer verify, under one of the given keys, against the digest of the
  entire file up to the comment length field, and the end-of-central-directory marker occurs
  exactly once from the start of the end record on.  This holds whatever reads or allocations
  fail; the hash functions are only assumed to be streaming.
\<close>

theorem verify_file_sound:
  assumes "streams H1 h1" and "streams H2 h2"
    and "verify_file rsa H1 H2 f pKeys = Some VERIFY_SUCCESS"
  shows "whole_file_signed rsa h1 h2 (content f) pKeys"
  using assms by (rule verify_success_signed)

theorem verify_file_sound_witness:
  "verify_file (\<lambda>_ _ _ _. True) plain_sha plain_sha sample_file [sample_cert] = Some VERIFY_SUCCESS \<and>
   whole_file_signed (\<lambda>_ _ _ _. True) id id (content sample_file) [sample_cert]"
proof -
  have "verify_file (\<lambda>_ _ _ _. True) plain_sha plain_sha sample_file [sample_cert] = Some VERIFY_SUCCESS"
    by (rule signed_verify_success [OF plain_sha_streams plain_sha_streams])
       (simp_all add: sample_io sample_whole_file_signed)
  then show ?thesis
    using verify_file_sound [OF plain_sha_streams plain_sha_streams] by blast
qed

text \<open>
  C7.  Completeness.  A file that carries such a signature is accepted whenever it can be opened and
  read and the allocations succeed.
\<close>

theorem verify_file_complete:
  assumes "streams H1 h1" and "streams H2 h2"
    and "io_ok f" and "whole_file_signed rsa h1 h2 (content f) pKeys"
  shows "verify_file rsa H1 H2 f pKeys = Some VERIFY_SUCCESS"
  using assms by (rule signed_verify_success)

theorem verify_file_complete_witness:
  "verify_file (\<lambda>_ _ _ _. True) plain_sha plain_sha sample_file [sample_cert] = Some VERIFY_SUCCESS"
  by (rule verify_file_complete [OF plain_sha_streams plain_sha_streams])
     (simp_all add: sample_io sample_whole_file_signed)

text \<open>
  C8.  What is verified is what is installed: on a file that verifies, the archive reader's backward
  scan finds exactly the end record whose signature was checked, and the entry count and directory
  offset it reads there are inside the signed range.
\<close>

theorem verified_eocd_is_found:
  assumes "streams H1 h1" and "streams H2 h2"
    and "verify_file rsa H1 H2 f pKeys = Some VERIFY_SUCCESS"
  shows "find_eocd (content f) = Some (Some (eocd_start (content f))) \<and>
    get2LE (content f) (eocd_start (content f) + ENDSUB) =
      get2LE (take (eocd_start (content f) + 20) (content f)) (eocd_start (content f) + ENDSUB) \<and>
    get4LE (content f) (eocd_start (content f) + ENDOFF) =
      get4LE (take (eocd_start (content f) + 20) (content f)) (eocd_start (content f) + ENDOFF)"
  using verified_end_record [OF verify_success_signed [OF assms]]
  by (simp add: get_take ENDSUB_def ENDOFF_def EOCD_HEADER_SIZE_def)

theorem verified_eocd_is_found_witness:
  "find_eocd sample_signed = Some (Some 0)"
proof -
  have "verify_file (\<lambda>_ _ _ _. True) plain_sha plain_sha sample_file [sample_cert] = Some VERIFY_SUCCESS"
    by (rule signed_verify_success [OF plain_sha_streams plain_sha_streams])
       (simp_all add: sample_io sample_whole_file_signed)
  from verified_eocd_is_found [OF plain_sha_streams plain_sha_streams this] show ?thesis
    by (simp add: sample_io sample_signed_facts)
qed

text \<open>
  C39.  The comment size is not checked against the size of a signature.  When the end record, with its
  comment, is shorter than signature and footer, the signature pointer lies before the buffer
  that holds the record, and the check reads there.
\<close>

theorem verify_file_short_comment:
  assumes "io_ok f" and "EOCD_HEADER_SIZE \<le> n" and "n < FOOTER_SIZE + RSANUMBYTES"
    and "length (content f) = p + n" and "le16 (content f) (p + n - 2) + EOCD_HEADER_SIZE = n"
    and "content f ! (p + n - 4) = 0xff" and "content f ! (p + n - 3) = 0xff"
    and "FOOTER_SIZE + RSANUMBYTES \<le> le16 (content f) (p + n - 6)"
    and "marker_at (content f) p" and "\<forall>q. p < q \<and> q + 4 \<le> p + n \<longrightarrow> \<not> marker_at (content f) q"
    and "hash_len k = SHA_DIGEST_SIZE \<or> hash_len k = SHA256_DIGEST_SIZE"
  shows "verify_file rsa H1 H2 f (k # ks) = None"
proof -
  have L: "FOOTER_SIZE \<le> length (content f)"
    using assms(2,4) by (simp add: FOOTER_SIZE_def EOCD_HEADER_SIZE_def)
  have m: "marker_at (segment (content f) p n) 0 \<and> \<not> marker_after_start (segment (content f) p n)"
    using markers_of_eocd [of p n "content f"] assms(2,4,9,10) by (simp add: EOCD_HEADER_SIZE_def)
  obtain d1 d2 where "hash_loop H1 H2 f (list_ex (\<lambda>k. hash_len k = SHA_DIGEST_SIZE) (k # ks))
      (list_ex (\<lambda>k. hash_len k = SHA256_DIGEST_SIZE) (k # ks)) (p + EOCD_HEADER_SIZE - 2) 0 (sha_init H1) (sha_init H2) =
      Some (d1, d2)"
    using hash_loop_returns [of f "p + EOCD_HEADER_SIZE - 2"] assms(1,2,4) by (fastforce simp: io_ok_def)
  then have "verify_eocd rsa H1 H2 f (k # ks) (p + EOCD_HEADER_SIZE - 2) (segment (content f) p n) = None"
    using m assms(1,3,4,11) by (auto simp: verify_eocd_def io_ok_def)
  then show ?thesis
    using assms L footer_fields [OF L] by (auto simp: verify_file_def fseek_end_def fread_def io_ok_def Let_def)
qed

definition short_signed :: "byte list" where
  "short_signed = [0x50, 0x4b, 5, 6] @ replicate 16 0 @ [6, 0, 6, 1, 0xff, 0xff, 6, 0]"

lemma short_signed_facts:
  "length short_signed = 28" "le16 short_signed 26 = 6" "le16 short_signed 22 = 262"
  "short_signed ! 24 = 0xff" "short_signed ! 25 = 0xff" "marker_at short_signed 0"
  "0 < q \<Longrightarrow> q < 28 \<Longrightarrow> \<not> marker_at short_signed q"
  using lone_marker [of short_signed q]
  by (simp_all add: short_signed_def le16_def byte_val_def nth_append marker_at_def)

theorem verify_file_short_comment_witness:
  "verify_file (\<lambda>_ _ _ _. True) plain_sha plain_sha
     (sample_file\<lparr>content := short_signed\<rparr>) [sample_cert] = None"
  using short_signed_facts
  by (intro verify_file_short_comment [where n = 28 and p = 0])
     (simp_all add: sample_file_def io_ok_def sample_cert_def EOCD_HEADER_SIZE_def FOOTER_SIZE_def RSANUMBYTES_def
        SHA_DIGEST_SIZE_def)

end
