(* ===== verification/Scan.thy ===== *)
theory Scan
  imports Prelude
begin

text \<open>
  The directives of the \<open>scanf\<close> family that the program uses.

  A directive consumes a prefix of the remaining text.  White space in a format skips white space,
  any other character must match, and matching stops at the first mismatch without consuming it.
  Numbers are read as the C library does: through a 64-bit conversion that saturates, then cut to
  32 bits.  The lemmas show that printed numbers are read back.
\<close>

section \<open>Directives\<close>

fun scan_lit :: "string \<Rightarrow> string \<Rightarrow> bool \<times> string" where
  "scan_lit [] s = (True, s)"
| "scan_lit (c # fmt) s =
     (if c = CHR '' '' then scan_lit fmt (dropWhile isspace s)
      else case s of
          [] \<Rightarrow> (False, [])
        | d # r \<Rightarrow> if c = d then scan_lit fmt r else (False, s))"

definition isxdigit :: "char \<Rightarrow> bool" where
  "isxdigit c \<longleftrightarrow> isdigit c \<or> (let n = (of_char c :: nat) in 97 \<le> n \<and> n \<le> 102 \<or> 65 \<le> n \<and> n \<le> 70)"

definition digit_in :: "nat \<Rightarrow> char \<Rightarrow> bool" where
  "digit_in b c \<longleftrightarrow>
     (if b = 16 then isxdigit c else if b = 8 then isdigit c \<and> (of_char c :: nat) < 56 else isdigit c)"

definition digit_value :: "char \<Rightarrow> nat" where
  "digit_value c =
     (let n = of_char c in if isdigit c then n - 48 else if 97 \<le> n then n - 87 else n - 55)"

fun numeral_val :: "nat \<Rightarrow> nat \<Rightarrow> string \<Rightarrow> nat" where
  "numeral_val b acc [] = acc"
| "numeral_val b acc (c # cs) = numeral_val b (b * acc + digit_value c) cs"

text \<open>The base and the text after a base prefix: for \<open>%d\<close> and \<open>%u\<close>, for \<open>%x\<close>, and for \<open>%i\<close>.\<close>

definition dec_prefix :: "string \<Rightarrow> nat \<times> string" where
  "dec_prefix s = (10, s)"

definition hex_prefix :: "string \<Rightarrow> nat \<times> string" where
  "hex_prefix s =
     (if 3 \<le> length s \<and> s ! 0 = CHR ''0'' \<and> (s ! 1 = CHR ''x'' \<or> s ! 1 = CHR ''X'') \<and> isxdigit (s ! 2)
      then (16, drop 2 s) else (16, s))"

definition auto_prefix :: "string \<Rightarrow> nat \<times> string" where
  "auto_prefix s =
     (if hex_prefix s \<noteq> (16, s) then hex_prefix s
      else if s \<noteq> [] \<and> hd s = CHR ''0'' then (8, s) else (10, s))"

definition scan_num :: "(string \<Rightarrow> nat \<times> string) \<Rightarrow> string \<Rightarrow> (bool \<times> nat \<times> string) option" where
  "scan_num base s =
     (let t = dropWhile isspace s;
          neg = (t \<noteq> [] \<and> hd t = CHR ''-'');
          u = (if t \<noteq> [] \<and> (hd t = CHR ''-'' \<or> hd t = CHR ''+'') then tl t else t);
          (b, w) = base u;
          ds = takeWhile (digit_in b) w
      in if ds = [] then None else Some (neg, numeral_val b 0 ds, dropWhile (digit_in b) w))"

definition scan_unsigned :: "(string \<Rightarrow> nat \<times> string) \<Rightarrow> string \<Rightarrow> (u32 \<times> string) option" where
  "scan_unsigned base s =
     (case scan_num base s of
        None \<Rightarrow> None
      | Some (neg, v, r) \<Rightarrow>
          Some (if 2 ^ 64 \<le> v then - 1 else of_int (if neg then - int v else int v), r))"

definition scan_signed :: "(string \<Rightarrow> nat \<times> string) \<Rightarrow> string \<Rightarrow> (int \<times> string) option" where
  "scan_signed base s =
     (case scan_num base s of
        None \<Rightarrow> None
      | Some (neg, v, r) \<Rightarrow>
          Some (sint (of_int (max (- (2 ^ 63)) (min (2 ^ 63 - 1) (if neg then - int v else int v))) :: u32), r))"

definition hex_digit :: "nat \<Rightarrow> char" where
  "hex_digit d = char_of (if d < 10 then 48 + d else 87 + d)"

fun show_hex :: "nat \<Rightarrow> string" where
  "show_hex n = (if n < 16 then [hex_digit n] else show_hex (n div 16) @ [hex_digit (n mod 16)])"

declare show_hex.simps [simp del]

section \<open>Numbers read back\<close>

lemma digit_value_dec [simp]: "isdigit c \<Longrightarrow> digit_value c = of_char c - 48"
  by (simp add: digit_value_def Let_def)

lemma numeral_val_dec: "\<forall>c \<in> set cs. isdigit c \<Longrightarrow> numeral_val 10 acc cs = digits_val acc cs"
  by (induction cs arbitrary: acc) auto

lemma digit_in_10 [simp]: "digit_in 10 = isdigit"
  by (simp add: digit_in_def fun_eq_iff)

lemma hex_digit_facts:
  assumes "d < 16"
  shows "isxdigit (hex_digit d)" "digit_value (hex_digit d) = d"
proof -
  consider "d < 10" | "d = 10" | "d = 11" | "d = 12" | "d = 13" | "d = 14" | "d = 15"
    using assms by linarith
  then show "isxdigit (hex_digit d)" "digit_value (hex_digit d) = d"
    by (cases; simp add: isxdigit_def hex_digit_def isdigit_def digit_value_def Let_def)+
qed

lemma numeral_val_append: "numeral_val b acc (xs @ ys) = numeral_val b (numeral_val b acc xs) ys"
  by (induction xs arbitrary: acc) auto

lemma show_hex_val: "numeral_val 16 0 (show_hex n) = n \<and> (\<forall>c \<in> set (show_hex n). isxdigit c) \<and> show_hex n \<noteq> []"
proof (induction n rule: show_hex.induct)
  case (1 n)
  show ?case
  proof (cases "n < 16")
    case True
    then show ?thesis by (simp add: show_hex.simps [of n] hex_digit_facts)
  next
    case False
    then show ?thesis
      using 1 hex_digit_facts [of "n mod 16"] by (auto simp: show_hex.simps [of n] numeral_val_append)
  qed
qed

definition ends_number :: "(char \<Rightarrow> bool) \<Rightarrow> string \<Rightarrow> bool" where
  "ends_number digit rest \<longleftrightarrow> rest = [] \<or> \<not> digit (hd rest)"

lemma span_digits:
  assumes "\<forall>c \<in> set ds. digit c" and "ends_number digit rest"
  shows "takeWhile digit (ds @ rest) = ds \<and> dropWhile digit (ds @ rest) = rest"
proof -
  have "takeWhile digit rest = []" "dropWhile digit rest = rest"
    using assms(2) by (cases rest; simp add: ends_number_def)+
  then show ?thesis using assms(1) by simp
qed

lemma scan_num_dec:
  assumes "ends_number isdigit rest"
  shows "scan_num dec_prefix (show_int i @ rest) = Some (i < 0, nat \<bar>i\<bar>, rest)"
proof -
  have nat: "takeWhile isdigit (show_nat n @ rest) = show_nat n \<and> dropWhile isdigit (show_nat n @ rest) = rest" for n
    by (rule span_digits) (use show_nat_digits assms in auto)
  have val: "numeral_val 10 0 (show_nat n) = n" for n
    using show_nat_digits by (simp add: numeral_val_dec)
  have hd: "isdigit (hd (show_nat n @ rest))" for n
    using hd_show_nat [of n] by simp
  show ?thesis
  proof (cases "i < 0")
    case True
    then show ?thesis
      using nat val by (simp add: scan_num_def show_int_def dec_prefix_def isspace_def Let_def)
  next
    case False
    have "dropWhile isspace (show_nat (nat i) @ rest) = show_nat (nat i) @ rest"
      using digit_char_facts(1) [OF hd [of "nat i"]] by (cases "show_nat (nat i)") auto
    then show ?thesis
      using False nat val digit_char_facts(2,3) [OF hd [of "nat i"]]
      by (simp add: scan_num_def show_int_def dec_prefix_def Let_def)
  qed
qed

lemma sint_u32_bounds: "- (2 ^ 31) \<le> sint (w :: u32)" "sint (w :: u32) < 2 ^ 31"
  using sint_range_size [of w] by (auto simp: word_size)

lemma scan_unsigned_int [simp]:
  assumes "ends_number isdigit rest"
  shows "scan_unsigned dec_prefix (show_int (sint w) @ rest) = Some (w, rest)"
proof -
  have "\<not> 2 ^ 64 \<le> nat \<bar>sint w\<bar>"
    using sint_u32_bounds [of w] by auto
  moreover have "(if sint w < 0 then - int (nat \<bar>sint w\<bar>) else int (nat \<bar>sint w\<bar>)) = sint w"
    by auto
  ultimately show ?thesis
    using scan_num_dec [OF assms, of "sint w"] by (simp add: scan_unsigned_def)
qed

lemma show_int_not_space [simp]: "dropWhile isspace (show_int i @ rest) = show_int i @ rest"
proof (cases "i < 0")
  case False
  then show ?thesis
    using digit_char_facts(1) [OF hd_show_nat [of "nat i"]]
    by (cases "show_nat (nat i)") (auto simp: show_int_def)
qed (simp add: show_int_def isspace_def)

lemma isspace_chars [simp]: "\<not> isspace CHR '',''" "\<not> isspace CHR ''{''" "\<not> isspace CHR ''}''" "\<not> isspace CHR ''v''"
  "isspace CHR '' ''" "\<not> isspace CHR ''0''"
  by (simp_all add: isspace_def)

lemma isdigit_chars [simp]: "\<not> isdigit CHR '',''" "\<not> isdigit CHR ''}''" "\<not> isdigit CHR '' ''"
  by (simp_all add: isdigit_def)

lemma ends_number_Cons [simp]: "ends_number digit (c # s) \<longleftrightarrow> \<not> digit c"
  by (simp add: ends_number_def)

lemma xdigit_char_facts:
  assumes "isxdigit c"
  shows "\<not> isspace c" and "c \<noteq> newline"
  using assms by (auto simp: isxdigit_def isdigit_def isspace_def newline_def Let_def)

lemma hex_span:
  assumes "\<forall>c \<in> set h. isxdigit c" and "h \<noteq> []" and "ends_number isxdigit rest" and "rest = [] \<or> hd rest \<noteq> CHR ''x'' \<and> hd rest \<noteq> CHR ''X''"
  shows "scan_num hex_prefix (h @ rest) = Some (False, numeral_val 16 0 h, rest)"
proof -
  have x: "\<not> isxdigit CHR ''x''" "\<not> isxdigit CHR ''X''" "\<not> isxdigit CHR ''-''" "\<not> isxdigit CHR ''+''"
    by (simp_all add: isxdigit_def isdigit_def)
  have "(h @ rest) ! 1 \<noteq> CHR ''x'' \<and> (h @ rest) ! 1 \<noteq> CHR ''X''" if "3 \<le> length (h @ rest)"
    using assms(1,2,4) x that by (cases h; cases "tl h"; cases rest) auto
  then have p: "hex_prefix (h @ rest) = (16, h @ rest)"
    unfolding hex_prefix_def by (metis (full_types))
  have "digit_in 16 = isxdigit" by (simp add: digit_in_def fun_eq_iff)
  then have span: "takeWhile (digit_in 16) (h @ rest) = h" "dropWhile (digit_in 16) (h @ rest) = rest"
    using span_digits [OF assms(1,3)] by auto
  have hd: "hd h \<in> set h" using assms(2) by simp
  then have "\<not> isspace (hd h)"
    using assms(1) xdigit_char_facts(1) by auto
  then have "dropWhile isspace (h @ rest) = h @ rest"
    using assms(2) by (cases h) auto
  moreover have "hd h \<noteq> CHR ''-''" "hd h \<noteq> CHR ''+''"
    using assms(1) hd x by auto
  ultimately show ?thesis
    using p span assms(2) by (simp add: scan_num_def Let_def)
qed

lemma scan_hex_digits:
  assumes "\<forall>c \<in> set h. isxdigit c" and "h \<noteq> []" and "ends_number isxdigit rest" and "rest = [] \<or> hd rest \<noteq> CHR ''x'' \<and> hd rest \<noteq> CHR ''X''"
    and "numeral_val 16 0 h = unat w"
  shows "scan_unsigned hex_prefix (h @ rest) = Some (w, rest)"
proof -
  have "\<not> 2 ^ 64 \<le> unat w"
    using unsigned_less [where 'a = nat and w = w] by simp
  then show ?thesis using hex_span [OF assms(1-4)] assms(5) by (simp add: scan_unsigned_def)
qed

lemma scan_hex:
  "scan_unsigned hex_prefix (show_hex (unat w) @ CHR '','' # r) = Some (w, CHR '','' # r)"
  by (rule scan_hex_digits) (use show_hex_val [of "unat w"] in \<open>simp_all add: isxdigit_def isdigit_def\<close>)

lemma scan_int:
  assumes "ends_number isdigit rest" and "- (2 ^ 31) \<le> i" and "i < 2 ^ 31"
  shows "scan_signed dec_prefix (show_int i @ rest) = Some (i, rest)"
proof -
  have "sint (of_int i :: u32) = i"
    using assms(2,3) by (simp add: signed_of_int signed_take_bit_int_eq_self)
  then show ?thesis
    using scan_num_dec [OF assms(1), of i] assms(2,3) by (simp add: scan_signed_def)
qed

end
