(* ===== verification/Keys.thy ===== *)
theory Keys
  imports Verifier Scan
begin

text \<open>
  The key file parser \<open>load_keys\<close> (\<^verbatim>\<open>verifier.c\<close>), over the \<open>fscanf\<close> directives of theory \<open>Scan\<close>.
  The members of a freshly allocated certificate hold arbitrary values, the parameter \<open>junk\<close>.
\<close>

section \<open>Keys\<close>

fun scan_words :: "nat \<Rightarrow> string \<Rightarrow> (u32 list \<times> string) option" where
  "scan_words 0 s = Some ([], s)"
| "scan_words (Suc n) s =
     (case scan_lit '' , '' s of
        (False, _) \<Rightarrow> None
      | (True, s) \<Rightarrow> do {
          (w, s) \<leftarrow> scan_unsigned dec_prefix s;
          (ws, s) \<leftarrow> scan_words n s;
          Some (w # ws, s)})"

text \<open>Exponent and hash length, from the version prefix.\<close>

definition scan_version :: "int \<times> int \<Rightarrow> string \<Rightarrow> ((int \<times> int) \<times> string) option" where
  "scan_version junk s =
     (case dropWhile isspace s of
        [] \<Rightarrow> None
      | start_char # s \<Rightarrow>
          if start_char = CHR ''{'' then Some ((3, SHA_DIGEST_SIZE), s)
          else if start_char = CHR ''v'' then do {
            (version, s) \<leftarrow> scan_signed dec_prefix s;
            let s = snd (scan_lit '' {'' s);
            if version = 2 then Some ((65537, SHA_DIGEST_SIZE), s)
            else if version = 3 then Some ((3, SHA256_DIGEST_SIZE), s)
            else if version = 4 then Some ((65537, SHA256_DIGEST_SIZE), s)
            else None}
          else Some (junk, s))"

definition scan_key :: "int \<times> int \<Rightarrow> string \<Rightarrow> (Certificate \<times> string) option" where
  "scan_key junk s = do {
     ((ex, hl), s) \<leftarrow> scan_version junk s;
     (len, s) \<leftarrow> scan_signed auto_prefix (dropWhile isspace s);
     s \<leftarrow> (case scan_lit '' , 0x'' s of (True, s) \<Rightarrow> Some s | _ \<Rightarrow> None);
     (n0, s) \<leftarrow> scan_unsigned hex_prefix s;
     s \<leftarrow> (case scan_lit '' , { '' s of (True, s) \<Rightarrow> Some s | _ \<Rightarrow> None);
     (w, s) \<leftarrow> scan_unsigned dec_prefix s;
     if len \<noteq> int RSANUMWORDS then None
     else do {
       (ws, s) \<leftarrow> scan_words (RSANUMWORDS - 1) s;
       s \<leftarrow> (case scan_lit '' } , { '' s of (True, s) \<Rightarrow> Some s | _ \<Rightarrow> None);
       (r, s) \<leftarrow> scan_unsigned dec_prefix s;
       (rs, s) \<leftarrow> scan_words (RSANUMWORDS - 1) s;
       let s = snd (scan_lit '' } } '' s);
       Some (\<lparr>hash_len = hl, public_key = \<lparr>klen = len, n0inv = n0, kn = w # ws, krr = r # rs, exponent = ex\<rparr>\<rparr>, s)}}"

text \<open>
  The loop over the keys.  Every round consumes at least the start character, so as many rounds as
  the text has characters are enough.
\<close>

fun scan_keys :: "int \<times> int \<Rightarrow> nat \<Rightarrow> string \<Rightarrow> Certificate list option" where
  "scan_keys junk 0 s = None"
| "scan_keys junk (Suc rounds) s = do {
     (k, s) \<leftarrow> scan_key junk s;
     case s of
       [] \<Rightarrow> Some [k]
     | c # s \<Rightarrow> if c = CHR '','' then do { ks \<leftarrow> scan_keys junk rounds s; Some (k # ks) } else None}"

definition load_keys :: "int \<times> int \<Rightarrow> string option \<Rightarrow> Certificate list option" where
  "load_keys junk file = do { s \<leftarrow> file; scan_keys junk (length s + 1) s }"

section \<open>The printed form of keys\<close>

definition print_words :: "u32 list \<Rightarrow> string" where
  "print_words ws = concat (map (\<lambda>w. '','' @ show_int (sint w)) ws)"

definition print_array :: "u32 list \<Rightarrow> string" where
  "print_array ws = show_int (sint (hd ws)) @ print_words (tl ws)"

definition print_version :: "int \<Rightarrow> int \<Rightarrow> string" where
  "print_version ex hl =
     (if hl = SHA_DIGEST_SIZE then (if ex = 3 then ''{'' else ''v2 {'')
      else (if ex = 3 then ''v3 {'' else ''v4 {''))"

definition print_body :: "RSAPublicKey \<Rightarrow> string" where
  "print_body k =
     ''64,0x'' @ show_hex (unat (n0inv k)) @ '',{'' @ print_array (kn k) @ ''},{'' @ print_array (krr k) @ ''}}''"

definition print_key :: "Certificate \<Rightarrow> string" where
  "print_key c = print_version (exponent (public_key c)) (hash_len c) @ print_body (public_key c)"

fun print_keys :: "Certificate list \<Rightarrow> string" where
  "print_keys [] = []"
| "print_keys [c] = print_key c"
| "print_keys (c # cs) = print_key c @ '','' @ print_keys cs"

definition key_ok :: "Certificate \<Rightarrow> bool" where
  "key_ok c \<longleftrightarrow> (exponent (public_key c) = 3 \<or> exponent (public_key c) = 65537) \<and>
     (hash_len c = SHA_DIGEST_SIZE \<or> hash_len c = SHA256_DIGEST_SIZE) \<and>
     klen (public_key c) = int RSANUMWORDS \<and>
     length (kn (public_key c)) = RSANUMWORDS \<and> length (krr (public_key c)) = RSANUMWORDS"

section \<open>Keys read back\<close>

lemma scan_words_print:
  assumes "ends_number isdigit rest"
  shows "scan_words (length ws) (print_words ws @ rest) = Some (ws, rest)"
proof (induction ws)
  case (Cons w ws)
  have "ends_number isdigit (print_words ws @ rest)"
    using assms by (cases ws) (simp_all add: print_words_def)
  moreover have "print_words (w # ws) @ rest = CHR '','' # show_int (sint w) @ print_words ws @ rest"
    by (simp add: print_words_def)
  ultimately show ?case using Cons by (simp add: Let_def)
qed (simp add: print_words_def)

lemma show_int_numerals: "show_int 2 = ''2''" "show_int 3 = ''3''" "show_int 4 = ''4''" "show_int 64 = ''64''"
  by (simp_all add: show_int_def show_nat.simps char_of_def bit_0)

lemma scan_version_print:
  assumes "ex = 3 \<or> ex = 65537" and "hl = SHA_DIGEST_SIZE \<or> hl = SHA256_DIGEST_SIZE"
  shows "scan_version junk (print_version ex hl @ s) = Some ((ex, hl), dropWhile isspace s) \<or>
    scan_version junk (print_version ex hl @ s) = Some ((ex, hl), s)"
  using assms scan_int [of "CHR '' '' # CHR ''{'' # s" 2] scan_int [of "CHR '' '' # CHR ''{'' # s" 3]
    scan_int [of "CHR '' '' # CHR ''{'' # s" 4]
  by (auto simp: print_version_def scan_version_def show_int_numerals SHA_DIGEST_SIZE_def SHA256_DIGEST_SIZE_def)

lemma scan_key_len:
  "scan_signed auto_prefix (CHR ''6'' # CHR ''4'' # CHR '','' # s) = Some (64, CHR '','' # s)"
proof -
  have "auto_prefix (CHR ''6'' # CHR ''4'' # CHR '','' # s) = dec_prefix (CHR ''6'' # CHR ''4'' # CHR '','' # s)"
    by (simp add: auto_prefix_def hex_prefix_def dec_prefix_def)
  then have "scan_signed auto_prefix (CHR ''6'' # CHR ''4'' # CHR '','' # s) =
      scan_signed dec_prefix (CHR ''6'' # CHR ''4'' # CHR '','' # s)"
    by (simp add: scan_signed_def scan_num_def isspace_def)
  then show ?thesis
    using scan_int [of "CHR '','' # s" 64] by (simp add: show_int_numerals)
qed

lemma scan_key_body:
  assumes "klen k = int RSANUMWORDS" "length (kn k) = RSANUMWORDS" "length (krr k) = RSANUMWORDS"
    and rest: "dropWhile isspace rest = rest"
    and v: "scan_version junk s = Some ((ex, hl), print_body k @ rest)"
  shows "scan_key junk s = Some (\<lparr>hash_len = hl, public_key = k\<lparr>exponent := ex\<rparr>\<rparr>, rest)"
proof -
  obtain w ws r rs where kn: "kn k = w # ws" "length ws = 63" and krr: "krr k = r # rs" "length rs = 63"
    using assms(2,3) by (cases "kn k"; cases "krr k") (auto simp: RSANUMWORDS_def)
  define t2 where "t2 = print_array (krr k) @ ''}}'' @ rest"
  define t1 where "t1 = print_array (kn k) @ ''},{'' @ t2"
  have shape: "print_body k @ rest = ''64,0x'' @ show_hex (unat (n0inv k)) @ '',{'' @ t1"
    by (simp add: print_body_def t1_def t2_def)
  have n: "scan_words 63 (print_words ws @ CHR ''}'' # s) = Some (ws, CHR ''}'' # s)"
    "scan_words 63 (print_words rs @ CHR ''}'' # s) = Some (rs, CHR ''}'' # s)" for s
    using scan_words_print [of "CHR ''}'' # s" ws] scan_words_print [of "CHR ''}'' # s" rs] kn krr by auto
  have e: "ends_number isdigit (print_words xs @ CHR ''}'' # s)" for xs s
    by (cases xs) (simp_all add: print_words_def)
  have k: "k\<lparr>exponent := ex\<rparr> = \<lparr>klen = 64, n0inv = n0inv k, kn = w # ws, krr = r # rs, exponent = ex\<rparr>"
    using assms(1) kn krr by (simp add: RSANUMWORDS_def)
  show ?thesis
    unfolding scan_key_def v shape
    using n e rest kn krr k scan_hex [of "n0inv k" "CHR ''{'' # t1"]
    by (simp add: t1_def t2_def scan_key_len isspace_def [of "CHR ''6''"] print_array_def RSANUMWORDS_def Let_def)
qed

lemma print_body_not_space [simp]: "dropWhile isspace (print_body k @ rest) = print_body k @ rest"
  by (simp add: print_body_def isspace_def)

lemma scan_key_print:
  assumes "key_ok c" and "dropWhile isspace rest = rest"
  shows "scan_key junk (print_key c @ rest) = Some (c, rest)"
proof -
  let ?k = "public_key c"
  have "scan_version junk (print_key c @ rest) = Some ((exponent ?k, hash_len c), print_body ?k @ rest)"
    using scan_version_print [of "exponent ?k" "hash_len c" junk "print_body ?k @ rest"] assms(1)
    by (auto simp: key_ok_def print_key_def)
  from scan_key_body [OF _ _ _ assms(2) this] show ?thesis
    using assms(1) by (simp add: key_ok_def)
qed

lemma print_keys_Cons: "cs \<noteq> [] \<Longrightarrow> print_keys (c # cs) = print_key c @ CHR '','' # print_keys cs"
  by (cases cs) simp_all

lemma scan_keys_print:
  "cs \<noteq> [] \<Longrightarrow> list_all key_ok cs \<Longrightarrow> length cs \<le> rounds \<Longrightarrow> scan_keys junk rounds (print_keys cs) = Some cs"
proof (induction cs arbitrary: rounds)
  case (Cons c cs)
  then obtain n where n: "rounds = Suc n" by (cases rounds) auto
  show ?case
  proof (cases "cs = []")
    case True
    then show ?thesis
      using scan_key_print [of c "[]" junk] Cons.prems by (simp add: n)
  next
    case False
    then show ?thesis
      using scan_key_print [of c "CHR '','' # print_keys cs" junk] Cons by (simp add: n print_keys_Cons)
  qed
qed simp

lemma length_print_keys: "length cs \<le> length (print_keys cs)"
proof (induction cs)
  case (Cons c cs)
  have "print_key c \<noteq> []" by (simp add: print_key_def print_body_def)
  then show ?case using Cons by (cases "cs = []") (simp_all add: print_keys_Cons Suc_le_eq)
qed simp

section \<open>Properties\<close>

text \<open>
  C32.  A key file with any positive number of keys, of all four supported versions and in the format
  of the key dumping tool, is loaded exactly: every word, the exponent and the hash length of
  every key come back, in order.
\<close>

theorem load_keys_roundtrip:
  assumes "cs \<noteq> []" and "list_all key_ok cs"
  shows "load_keys junk (Some (print_keys cs)) = Some cs"
  using scan_keys_print [OF assms, of "length (print_keys cs) + 1" junk] length_print_keys [of cs]
  by (simp add: load_keys_def)

definition sample_key :: "int \<Rightarrow> int \<Rightarrow> Certificate" where
  "sample_key ex hl = \<lparr>hash_len = hl, public_key = \<lparr>klen = 64, n0inv = 0xc926ad21,
     kn = replicate 63 1795090719 @ [3599964420], krr = replicate 64 1175080310, exponent = ex\<rparr>\<rparr>"

lemma sample_key_ok: "key_ok (sample_key 3 20)" "key_ok (sample_key 65537 32)"
  by (simp_all add: key_ok_def sample_key_def SHA_DIGEST_SIZE_def SHA256_DIGEST_SIZE_def RSANUMWORDS_def)

theorem load_keys_roundtrip_witness:
  "load_keys (0, 0) (Some (print_keys [sample_key 3 20, sample_key 65537 32])) =
     Some [sample_key 3 20, sample_key 65537 32]"
  by (rule load_keys_roundtrip) (simp_all add: sample_key_ok)

text \<open>
  A key whose text starts with neither the brace nor the version letter is not rejected: it is
  accepted with whatever the freshly allocated memory holds as exponent and hash length.
\<close>

theorem load_keys_bad_start:
  assumes "key_ok c" and "exponent (public_key c) = 3" and "hash_len c = SHA_DIGEST_SIZE"
    and "x \<noteq> CHR ''{''" and "x \<noteq> CHR ''v''" and "\<not> isspace x"
  shows "load_keys junk (Some (x # tl (print_key c))) =
    Some [\<lparr>hash_len = snd junk, public_key = (public_key c)\<lparr>exponent := fst junk\<rparr>\<rparr>]"
proof -
  have "tl (print_key c) = print_body (public_key c)"
    using assms(2,3) by (simp add: print_key_def print_version_def)
  moreover have "scan_version junk (x # print_body (public_key c)) = Some ((fst junk, snd junk), print_body (public_key c) @ [])"
    using assms(4-6) by (simp add: scan_version_def)
  ultimately show ?thesis
    using scan_key_body [of "public_key c" "[]" junk "x # print_body (public_key c)" "fst junk" "snd junk"] assms(1)
    by (simp add: load_keys_def key_ok_def)
qed

theorem load_keys_bad_start_witness:
  "load_keys (7, 99) (Some (CHR ''#'' # tl (print_key (sample_key 3 20)))) =
     Some [\<lparr>hash_len = 99, public_key = (public_key (sample_key 3 20))\<lparr>exponent := 7\<rparr>\<rparr>]"
  using load_keys_bad_start [OF sample_key_ok(1), of "CHR ''#''" "(7, 99)"]
  by (simp add: sample_key_def SHA_DIGEST_SIZE_def isspace_def)

end
