(* ===== verification/ZipData.thy ===== *)
theory ZipData
  imports Zip "HOL-Library.Sublist"
begin

text \<open>
  Reading the contents of an archive entry (\<^verbatim>\<open>minzip/Zip.c\<close>, \<open>processStoredEntry\<close> to
  \<open>mzExtractZipEntryToBuffer\<close>).

  \<^item> The archive's descriptor is its bytes with an oracle for \<open>read\<close>; its position is passed along.
  \<^item> A process function maps its cookie and a block to a verdict and the new cookie.
  \<^item> The inflater and the checksum of zlib are parameters; what the code relies on is the predicate
    \<open>inflate_contract\<close>.
  \<^item> \<open>None\<close> stands for undefined behaviour and for a call that does not return.
\<close>

section \<open>Descriptors and process functions\<close>

definition BLOCK :: nat where "BLOCK = 32768"

record zipfd =
  fdbytes :: "byte list"
  fdread :: "nat \<Rightarrow> nat \<Rightarrow> nat option"

type_synonym 'c process = "'c \<Rightarrow> byte list \<Rightarrow> (bool \<times> 'c) ub"

text \<open>
  \<open>fdread f pos n\<close> bounds what a \<open>read\<close> of \<open>n\<close> bytes at \<open>pos\<close> delivers; \<open>None\<close> is an error.
\<close>

definition read_fd :: "zipfd \<Rightarrow> nat \<Rightarrow> nat \<Rightarrow> byte list option" where
  "read_fd f pos n = map_option (\<lambda>k. segment (fdbytes f) pos (min n k)) (fdread f pos n)"

definition lseek_set :: "nat \<Rightarrow> int \<Rightarrow> nat" where
  "lseek_set pos off = (if off < 0 then pos else nat off)"

definition reads_ok :: "zipfd \<Rightarrow> bool" where
  "reads_ok f \<longleftrightarrow> (\<forall>pos n. \<exists>k. fdread f pos n = Some k \<and> n \<le> k)"

section \<open>Stored entries\<close>

function stored_loop :: "zipfd \<Rightarrow> 'c process \<Rightarrow> nat \<Rightarrow> nat \<Rightarrow> 'c \<Rightarrow> (bool \<times> nat \<times> 'c) ub" where
  "stored_loop f proc pos bytesLeft cookie =
     (if bytesLeft = 0 then Some (True, pos, cookie)
      else let n = (if BLOCK < bytesLeft then BLOCK else bytesLeft) in
        case read_fd f pos n of
          None \<Rightarrow> Some (False, pos, cookie)
        | Some buf \<Rightarrow>
            if length buf \<noteq> n then Some (False, pos + length buf, cookie)
            else case proc cookie buf of
                None \<Rightarrow> None
              | Some (ret, cookie) \<Rightarrow>
                  if \<not> ret then Some (False, pos + n, cookie)
                  else stored_loop f proc (pos + n) (bytesLeft - n) cookie)"
  by pat_completeness auto
termination
  by (relation "measure (\<lambda>(f, proc, pos, bytesLeft, cookie). bytesLeft)") (auto simp: BLOCK_def)

declare stored_loop.simps [simp del]

definition processStoredEntry :: "zipfd \<Rightarrow> nat \<Rightarrow> ZipEntry \<Rightarrow> 'c process \<Rightarrow> 'c \<Rightarrow> (bool \<times> nat \<times> 'c) ub" where
  "processStoredEntry f pos e proc cookie = stored_loop f proc pos (nat (compLen e mod 2 ^ 32)) cookie"

section \<open>Deflated entries\<close>

datatype zcode = Z_OK | Z_STREAM_END | Z_FAILED

text \<open>
  \<open>zinflate z next_in avail_out\<close> gives the status, the new stream state, the number of input bytes
  used and the bytes produced.
\<close>

record 'z zlib =
  zinit :: "'z option"
  zinflate :: "'z \<Rightarrow> byte list \<Rightarrow> nat \<Rightarrow> zcode \<times> 'z \<times> nat \<times> byte list"

definition long_of :: "nat \<Rightarrow> int" where
  "long_of n = sint (of_nat n :: u32)"

text \<open>
  Refilling the input: \<open>Inl\<close> is a failed read.  A negative remainder becomes a huge count for
  \<open>read\<close>, which then writes past the buffer.
\<close>

definition refill :: "zipfd \<Rightarrow> nat \<Rightarrow> int \<Rightarrow> byte list \<Rightarrow> (nat + nat \<times> int \<times> byte list) ub" where
  "refill f pos compRemaining next_in =
     (if next_in \<noteq> [] then Some (Inr (pos, compRemaining, next_in))
      else let getSize = (if int BLOCK < compRemaining then int BLOCK else compRemaining) in
        if getSize < 0 then None
        else case read_fd f pos (nat getSize) of
            None \<Rightarrow> Some (Inl pos)
          | Some buf \<Rightarrow>
              if length buf \<noteq> nat getSize then Some (Inl (pos + length buf))
              else Some (Inr (pos + length buf, compRemaining - getSize, buf)))"

partial_function (option) inflate_loop ::
  "'z zlib \<Rightarrow> zipfd \<Rightarrow> 'c process \<Rightarrow> nat \<Rightarrow> int \<Rightarrow> byte list \<Rightarrow> byte list \<Rightarrow> nat \<Rightarrow> 'z \<Rightarrow> 'c \<Rightarrow> (int \<times> nat \<times> 'c) option" where
  "inflate_loop Z f proc pos compRemaining next_in procBuf total_out z cookie =
     (case refill f pos compRemaining next_in of
        None \<Rightarrow> None
      | Some (Inl pos) \<Rightarrow> Some (- 1, pos, cookie)
      | Some (Inr (pos, compRemaining, next_in)) \<Rightarrow>
          (case zinflate Z z next_in (BLOCK - length procBuf) of
             (zerr, z, used, produced) \<Rightarrow>
               if zerr = Z_FAILED then Some (- 1, pos, cookie)
               else
                 let procBuf = procBuf @ produced;
                     total_out = total_out + length produced;
                     next_in = drop used next_in
                 in if length procBuf = BLOCK \<or> (zerr = Z_STREAM_END \<and> procBuf \<noteq> [])
                    then (case proc cookie procBuf of
                            None \<Rightarrow> None
                          | Some (ret, cookie) \<Rightarrow>
                              if \<not> ret then Some (- 1, pos, cookie)
                              else if zerr = Z_OK
                                then inflate_loop Z f proc pos compRemaining next_in [] total_out z cookie
                                else Some (long_of total_out, pos, cookie))
                    else if zerr = Z_OK
                      then inflate_loop Z f proc pos compRemaining next_in procBuf total_out z cookie
                      else Some (long_of total_out, pos, cookie)))"

definition processDeflatedEntry ::
  "'z zlib \<Rightarrow> zipfd \<Rightarrow> nat \<Rightarrow> ZipEntry \<Rightarrow> 'c process \<Rightarrow> 'c \<Rightarrow> (bool \<times> nat \<times> 'c) ub" where
  "processDeflatedEntry Z f pos e proc cookie = do {
     (result, pos, cookie) \<leftarrow>
       (case zinit Z of
          None \<Rightarrow> Some (- 1, pos, cookie)
        | Some z \<Rightarrow> inflate_loop Z f proc pos (compLen e) [] [] 0 z cookie);
     Some (result = uncompLen e, pos, cookie)}"

section \<open>Streaming an entry through a process function\<close>

text \<open>The descriptor's offset is saved, and restored at the end.\<close>

definition mzProcessZipEntryContents ::
  "'z zlib \<Rightarrow> zipfd \<Rightarrow> nat \<Rightarrow> ZipEntry \<Rightarrow> 'c process \<Rightarrow> 'c \<Rightarrow> (bool \<times> nat \<times> 'c) ub" where
  "mzProcessZipEntryContents Z f pos e proc cookie = do {
     let oldOff = pos;
     let pos = lseek_set pos (offset e);
     (ret, pos, cookie) \<leftarrow>
       (if compression e = STORED then processStoredEntry f pos e proc cookie
        else if compression e = DEFLATED then processDeflatedEntry Z f pos e proc cookie
        else Some (False, pos, cookie));
     Some (ret, lseek_set pos (int oldOff), cookie)}"

section \<open>Process functions and the operations built on them\<close>

text \<open>The checksum: \<open>crcfn\<close> is zlib's \<open>crc32\<close>, \<open>crcfn 0 []\<close> the value for a NULL buffer.\<close>

definition crcProcessFunction :: "(u32 \<Rightarrow> byte list \<Rightarrow> u32) \<Rightarrow> u32 process" where
  "crcProcessFunction crcfn crc data = Some (True, crcfn crc data)"

definition mzIsZipEntryIntact ::
  "'z zlib \<Rightarrow> (u32 \<Rightarrow> byte list \<Rightarrow> u32) \<Rightarrow> zipfd \<Rightarrow> nat \<Rightarrow> ZipEntry \<Rightarrow> (bool \<times> nat) ub" where
  "mzIsZipEntryIntact Z crcfn f pos e = do {
     (ret, pos, crc) \<leftarrow> mzProcessZipEntryContents Z f pos e (crcProcessFunction crcfn) (crcfn 0 []);
     if \<not> ret then Some (False, pos)
     else if crc \<noteq> word_of_int (crc32 e) then Some (False, pos)
     else Some (True, pos)}"

text \<open>\<open>cmem\<close> is the caller's buffer, \<open>cptr\<close> the offset the \<open>buf\<close> pointer has reached in it.\<close>

record CopyProcessArgs =
  cmem :: "byte list"
  cptr :: nat
  cbufLen :: int

definition copyProcessFunction :: "CopyProcessArgs process" where
  "copyProcessFunction args data =
     (if int (length data) \<le> cbufLen args
      then do {
        m \<leftarrow> poke (cmem args) (cptr args) data;
        Some (True, \<lparr>cmem = m, cptr = cptr args + length data, cbufLen = cbufLen args - int (length data)\<rparr>)}
      else Some (False, args))"

definition mzReadZipEntry ::
  "'z zlib \<Rightarrow> zipfd \<Rightarrow> nat \<Rightarrow> ZipEntry \<Rightarrow> byte list \<Rightarrow> int \<Rightarrow> (bool \<times> nat \<times> byte list) ub" where
  "mzReadZipEntry Z f pos e buf bufLen = do {
     (ret, pos, args) \<leftarrow> mzProcessZipEntryContents Z f pos e copyProcessFunction
        \<lparr>cmem = buf, cptr = 0, cbufLen = bufLen\<rparr>;
     Some (ret, pos, cmem args)}"

text \<open>
  A file opened for writing: what it holds, the number of \<open>write\<close> calls so far, and the oracle for
  their results: the value returned by call \<open>i\<close> for \<open>n\<close> bytes, and whether \<open>errno\<close> is then
  \<open>EINTR\<close>.
\<close>

record wrfd =
  written :: "byte list"
  wcalls :: nat
  woracle :: "nat \<Rightarrow> nat \<Rightarrow> int \<times> bool"

partial_function (option) write_loop :: "wrfd \<Rightarrow> byte list \<Rightarrow> nat \<Rightarrow> (bool \<times> wrfd) option" where
  "write_loop w data soFar =
     (case woracle w (wcalls w) (length data - soFar) of
        (n, eintr) \<Rightarrow>
          if n \<le> 0 then
            if \<not> eintr then Some (False, w\<lparr>wcalls := wcalls w + 1\<rparr>)
            else write_loop (w\<lparr>wcalls := wcalls w + 1\<rparr>) data soFar
          else
            let w = w\<lparr>wcalls := wcalls w + 1, written := written w @ segment data soFar (nat n)\<rparr>;
                soFar = soFar + nat n
            in if soFar = length data then Some (True, w)
               else if length data < soFar then Some (False, w)
               else write_loop w data soFar)"

definition writeProcessFunction :: "wrfd process" where
  "writeProcessFunction w data = write_loop w data 0"

definition mzExtractZipEntryToFile ::
  "'z zlib \<Rightarrow> zipfd \<Rightarrow> nat \<Rightarrow> ZipEntry \<Rightarrow> wrfd \<Rightarrow> (bool \<times> nat \<times> wrfd) ub" where
  "mzExtractZipEntryToFile Z f pos e w = mzProcessZipEntryContents Z f pos e writeProcessFunction w"

record BufferExtractCookie =
  bmem :: "byte list"
  bptr :: nat
  blen :: int

definition bufferProcessFunction :: "BufferExtractCookie process" where
  "bufferProcessFunction bec data = do {
     m \<leftarrow> poke (bmem bec) (bptr bec) data;
     Some (True, \<lparr>bmem = m, bptr = bptr bec + length data, blen = blen bec - int (length data)\<rparr>)}"

definition mzExtractZipEntryToBuffer ::
  "'z zlib \<Rightarrow> zipfd \<Rightarrow> nat \<Rightarrow> ZipEntry \<Rightarrow> byte list \<Rightarrow> (bool \<times> nat \<times> byte list) ub" where
  "mzExtractZipEntryToBuffer Z f pos e buffer = do {
     (ret, pos, bec) \<leftarrow> mzProcessZipEntryContents Z f pos e bufferProcessFunction
        \<lparr>bmem = buffer, bptr = 0, blen = uncompLen e\<rparr>;
     Some (ret \<and> blen bec = 0, pos, bmem bec)}"

section \<open>What an entry contains\<close>

text \<open>
  The documented behaviour of \<open>inflate\<close>, relative to a relation \<open>R\<close> between a stream state, the
  input still to come and the output still to come: given input, or at the end of the input,
  and room for output, it makes progress, produces the next part of the output, and reports the
  end of the stream when all of it has been produced.
\<close>

definition inflate_contract :: "'z zlib \<Rightarrow> ('z \<Rightarrow> byte list \<Rightarrow> byte list \<Rightarrow> bool) \<Rightarrow> bool" where
  "inflate_contract Z R \<longleftrightarrow>
     (\<forall>z next_in rest out n. R z (next_in @ rest) out \<and> (next_in \<noteq> [] \<or> rest = []) \<and> 0 < n \<longrightarrow>
        (\<exists>zerr z' used k. zinflate Z z next_in n = (zerr, z', used, take k out) \<and>
           used \<le> length next_in \<and> k \<le> n \<and> k \<le> length out \<and>
           (zerr = Z_STREAM_END \<and> k = length out \<or>
            zerr = Z_OK \<and> 0 < used + k \<and> R z' (drop used (next_in @ rest)) (drop k out))))"

definition entry_data ::
  "'z zlib \<Rightarrow> ('z \<Rightarrow> byte list \<Rightarrow> byte list \<Rightarrow> bool) \<Rightarrow> byte list \<Rightarrow> ZipEntry \<Rightarrow> byte list \<Rightarrow> bool" where
  "entry_data Z R bs e data \<longleftrightarrow>
     0 \<le> offset e \<and> 0 \<le> compLen e \<and> compLen e < 2 ^ 31 \<and> offset e + compLen e \<le> int (length bs) \<and>
     (compression e = STORED \<and> data = segment bs (nat (offset e)) (nat (compLen e)) \<or>
      compression e = DEFLATED \<and> inflate_contract Z R \<and>
        (\<exists>z. zinit Z = Some z \<and> R z (segment bs (nat (offset e)) (nat (compLen e))) data) \<and>
        uncompLen e = int (length data) \<and> length data < 2 ^ 31)"

text \<open>The reference for a streamed entry: the process function applied to blocks until one fails.\<close>

fun feed :: "'c process \<Rightarrow> byte list list \<Rightarrow> 'c \<Rightarrow> (bool \<times> 'c) ub" where
  "feed proc [] cookie = Some (True, cookie)"
| "feed proc (b # bs) cookie =
     (case proc cookie b of
        None \<Rightarrow> None
      | Some (ret, cookie) \<Rightarrow> if ret then feed proc bs cookie else Some (False, cookie))"

definition blocks_of :: "byte list \<Rightarrow> byte list list \<Rightarrow> bool" where
  "blocks_of data bs \<longleftrightarrow> concat bs = data \<and> list_all (\<lambda>b. b \<noteq> [] \<and> length b \<le> BLOCK) bs"

abbreviation verdict :: "(bool \<times> nat \<times> 'c) ub \<Rightarrow> (bool \<times> 'c) ub" where
  "verdict r \<equiv> map_option (\<lambda>(ret, pos, cookie). (ret, cookie)) r"

lemma read_fd_ok [simp]:
  assumes "reads_ok f"
  shows "read_fd f pos n = Some (segment (fdbytes f) pos n)"
proof -
  obtain k where "fdread f pos n = Some k" "n \<le> k"
    using assms by (auto simp: reads_ok_def)
  then show ?thesis by (simp add: read_fd_def min_def)
qed

lemma blocks_of_Cons: "b \<noteq> [] \<Longrightarrow> length b \<le> BLOCK \<Longrightarrow> blocks_of data bs \<Longrightarrow> blocks_of (b @ data) (b # bs)"
  by (auto simp: blocks_of_def)

lemma stored_loop_feeds:
  assumes "reads_ok f"
  shows "pos + left \<le> length (fdbytes f) \<Longrightarrow>
    \<exists>bs. blocks_of (segment (fdbytes f) pos left) bs \<and> verdict (stored_loop f proc pos left c) = feed proc bs c"
proof (induction left arbitrary: pos c rule: less_induct)
  case (less left)
  show ?case
  proof (cases "left = 0")
    case True
    then show ?thesis by (intro exI [of _ "[]"]) (simp add: stored_loop.simps blocks_of_def)
  next
    case False
    define n where "n = (if BLOCK < left then BLOCK else left)"
    have n: "0 < n" "n \<le> left" "n \<le> BLOCK" using False by (auto simp: n_def BLOCK_def)
    define b where "b = segment (fdbytes f) pos n"
    have b: "length b = n" "b \<noteq> []" using n less.prems by (auto simp: b_def segment_def)
    have step: "stored_loop f proc pos left c =
        (case proc c b of None \<Rightarrow> None | Some (ret, c) \<Rightarrow>
           if \<not> ret then Some (False, pos + n, c) else stored_loop f proc (pos + n) (left - n) c)"
      using assms False b by (simp add: stored_loop.simps [of _ _ _ left] n_def [symmetric] b_def Let_def)
    have seg: "segment (fdbytes f) pos left = b @ segment (fdbytes f) (pos + n) (left - n)"
      using segment_add [of "fdbytes f" pos n "left - n"] n by (simp add: b_def)
    have IH: "\<exists>bs. blocks_of (segment (fdbytes f) (pos + n) (left - n)) bs \<and>
        verdict (stored_loop f proc (pos + n) (left - n) c') = feed proc bs c'" for c'
      using less.IH [of "left - n" "pos + n" c'] n less.prems by simp
    show ?thesis
    proof (cases "proc c b")
      case None
      obtain bs where "blocks_of (segment (fdbytes f) (pos + n) (left - n)) bs" using IH by blast
      then show ?thesis using None step seg b n blocks_of_Cons [of b] by (intro exI [of _ "b # bs"]) simp
    next
      case (Some rc)
      obtain ret c' where rc: "rc = (ret, c')" by force
      obtain bs where "blocks_of (segment (fdbytes f) (pos + n) (left - n)) bs"
        "verdict (stored_loop f proc (pos + n) (left - n) c') = feed proc bs c'" using IH by blast
      then show ?thesis using Some rc step seg b n blocks_of_Cons [of b] by (intro exI [of _ "b # bs"]) simp
    qed
  qed
qed

lemma refill_ok:
  assumes "reads_ok f" and "0 \<le> rem" and "pos + nat rem \<le> length (fdbytes f)"
  obtains pos' rem' inp' where "refill f pos rem inp = Some (Inr (pos', rem', inp'))"
    and "inp' @ segment (fdbytes f) pos' (nat rem') = inp @ segment (fdbytes f) pos (nat rem)"
    and "inp' \<noteq> [] \<or> nat rem' = 0" and "0 \<le> rem'" and "pos' + nat rem' \<le> length (fdbytes f)"
    and "length inp' + nat rem' = length inp + nat rem"
proof (cases "inp = []")
  case False
  then show ?thesis using that [of pos rem inp] assms by (simp add: refill_def)
next
  case True
  define n where "n = (if int BLOCK < rem then int BLOCK else rem)"
  have n: "0 \<le> n" "n \<le> rem" "0 < rem \<Longrightarrow> 0 < n" using assms(2) by (auto simp: n_def BLOCK_def)
  have len: "length (segment (fdbytes f) pos (nat n)) = nat n" using n assms(3) by simp
  have "refill f pos rem inp = Some (Inr (pos + nat n, rem - n, segment (fdbytes f) pos (nat n)))"
    using True n(1) len assms(1) by (simp add: refill_def n_def [symmetric] Let_def)
  moreover have "segment (fdbytes f) pos (nat n) @ segment (fdbytes f) (pos + nat n) (nat (rem - n)) =
      segment (fdbytes f) pos (nat rem)"
    using segment_add [of "fdbytes f" pos "nat n" "nat (rem - n)"] n by (simp add: nat_diff_distrib)
  moreover have "segment (fdbytes f) pos (nat n) \<noteq> [] \<or> nat (rem - n) = 0"
  proof (cases "0 < rem")
    case True
    then have "length (segment (fdbytes f) pos (nat n)) \<noteq> 0" unfolding len using n(3) by simp
    then show ?thesis by blast
  next
    case False
    then show ?thesis using n by simp
  qed
  ultimately show ?thesis
    using that [of "pos + nat n" "rem - n" "segment (fdbytes f) pos (nat n)"] True n len assms(3)
    by (simp add: nat_diff_distrib)
qed

abbreviation stream_end :: "nat \<Rightarrow> (bool \<times> 'c) ub \<Rightarrow> (int \<times> 'c) ub" where
  "stream_end n r \<equiv> map_option (\<lambda>(ok, c). (if ok then long_of n else - 1, c)) r"

lemma inflate_loop_feeds:
  assumes "reads_ok f" and "inflate_contract Z R"
  shows "R z (inp @ segment (fdbytes f) pos (nat rem)) out \<Longrightarrow> 0 \<le> rem \<Longrightarrow>
    pos + nat rem \<le> length (fdbytes f) \<Longrightarrow> length buf < BLOCK \<Longrightarrow>
    \<exists>bs. blocks_of (buf @ out) bs \<and>
      map_option (\<lambda>(r, pos, c). (r, c)) (inflate_loop Z f proc pos rem inp buf tot z c) =
      stream_end (tot + length out) (feed proc bs c)"
proof (induction "length inp + nat rem + length out" arbitrary: pos rem inp buf tot z c out rule: less_induct)
  case less
  obtain pos' rem' inp' where refill: "refill f pos rem inp = Some (Inr (pos', rem', inp'))"
    and eq: "inp' @ segment (fdbytes f) pos' (nat rem') = inp @ segment (fdbytes f) pos (nat rem)"
    and ne: "inp' \<noteq> [] \<or> nat rem' = 0" and b: "0 \<le> rem'" "pos' + nat rem' \<le> length (fdbytes f)"
    and len: "length inp' + nat rem' = length inp + nat rem"
    by (rule refill_ok [OF assms(1) less.prems(2,3)])
  have "R z (inp' @ segment (fdbytes f) pos' (nat rem')) out" using less.prems(1) eq by simp
  then obtain zerr z' used k where inflate: "zinflate Z z inp' (BLOCK - length buf) = (zerr, z', used, take k out)"
    and used: "used \<le> length inp'" and k: "k \<le> BLOCK - length buf" "k \<le> length out"
    and code: "zerr = Z_STREAM_END \<and> k = length out \<or>
      zerr = Z_OK \<and> 0 < used + k \<and> R z' (drop used (inp' @ segment (fdbytes f) pos' (nat rem'))) (drop k out)"
    using assms(2) [unfolded inflate_contract_def, rule_format, of z inp' "segment (fdbytes f) pos' (nat rem')" out
        "BLOCK - length buf"] ne less.prems(4) by auto
  define new where "new = buf @ take k out"
  have new: "length new \<le> BLOCK" "new @ drop k out = buf @ out" using k less.prems(4) by (auto simp: new_def)
  have IH: "\<exists>bs. blocks_of (buf' @ drop k out) bs \<and>
      map_option (\<lambda>(r, pos, c). (r, c)) (inflate_loop Z f proc pos' rem' (drop used inp') buf' (tot + k) z' c') =
      stream_end (tot + length out) (feed proc bs c')" if "zerr = Z_OK" "length buf' < BLOCK" for buf' c'
  proof -
    have "length (drop used inp') + nat rem' + length (drop k out) < length inp + nat rem + length out"
      and "R z' (drop used inp' @ segment (fdbytes f) pos' (nat rem')) (drop k out)"
      and tot: "tot + k + length (drop k out) = tot + length out"
      using code used k len that(1) by auto
    then show ?thesis
      using less.hyps [OF _ _ b that(2), of "drop used inp'" "drop k out" z' "tot + k" c'] unfolding tot by blast
  qed
  have step: "inflate_loop Z f proc pos rem inp buf tot z c =
      (if length new = BLOCK \<or> zerr = Z_STREAM_END \<and> new \<noteq> []
       then (case proc c new of None \<Rightarrow> None
             | Some (ret, c) \<Rightarrow> if \<not> ret then Some (- 1, pos', c)
                 else if zerr = Z_OK then inflate_loop Z f proc pos' rem' (drop used inp') [] (tot + k) z' c
                 else Some (long_of (tot + k), pos', c))
       else if zerr = Z_OK then inflate_loop Z f proc pos' rem' (drop used inp') new (tot + k) z' c
       else Some (long_of (tot + k), pos', c))"
  proof -
    have "BLOCK \<noteq> 0" by (simp add: BLOCK_def)
    then show ?thesis
      using code k by (subst inflate_loop.simps) (auto simp: refill inflate new_def Let_def min_def)
  qed
  show ?case
  proof (cases "length new = BLOCK \<or> zerr = Z_STREAM_END \<and> new \<noteq> []")
    case flush: True
    have ne: "new \<noteq> []" using flush by (auto simp: BLOCK_def)
    show ?thesis
    proof (cases "zerr = Z_OK")
      case True
      define c' where "c' = snd (the (proc c new))"
      obtain bs where bs: "blocks_of (drop k out) bs"
        "map_option (\<lambda>(r, pos, c). (r, c)) (inflate_loop Z f proc pos' rem' (drop used inp') [] (tot + k) z' c') =
         stream_end (tot + length out) (feed proc bs c')"
        using IH [OF True, of "[]" c'] by (auto simp: BLOCK_def)
      show ?thesis
        using flush ne bs new blocks_of_Cons [of new, OF ne new(1) bs(1)] True
        unfolding step by (intro exI [of _ "new # bs"]) (auto simp: c'_def split: option.splits)
    next
      case False
      then show ?thesis
        using flush ne new code blocks_of_Cons [of new "[]" "[]"]
        unfolding step by (intro exI [of _ "[new]"]) (auto simp: blocks_of_def split: option.splits)
    qed
  next
    case False
    then have lt: "length new < BLOCK" using new(1) by auto
    show ?thesis
    proof (cases "zerr = Z_OK")
      case True
      then show ?thesis using IH [OF True lt, of c] new(2) False unfolding step by auto
    next
      case no: False
      then have "new = []" "k = length out" using False code by auto
      then show ?thesis using no new(2) unfolding step by (intro exI [of _ "[]"]) (auto simp: blocks_of_def BLOCK_def)
    qed
  qed
qed

lemma long_of_small: "n < 2 ^ 31 \<Longrightarrow> long_of n = int n"
  by (simp add: long_of_def signed_of_nat signed_take_bit_int_eq_self)

lemma entry_feeds:
  assumes "reads_ok f" and "entry_data Z R (fdbytes f) e data"
  shows "\<exists>bs. blocks_of data bs \<and>
    mzProcessZipEntryContents Z f pos e proc c = map_option (\<lambda>(ret, c). (ret, pos, c)) (feed proc bs c)"
proof -
  let ?off = "nat (offset e)" and ?len = "nat (compLen e)"
  have e: "0 \<le> offset e" "0 \<le> compLen e" "compLen e < 2 ^ 31" "?off + ?len \<le> length (fdbytes f)"
    using assms(2) by (auto simp: entry_data_def)
  have restore: "(Option.bind r (\<lambda>(ret, p, c). Some (ret, pos, c))) =
      map_option (\<lambda>(ret, c). (ret, pos, c)) (verdict r)" for r :: "(bool \<times> nat \<times> 'b) ub"
    by (cases r) auto
  consider (stored) "compression e = STORED" "data = segment (fdbytes f) ?off ?len"
    | (deflated) z where "compression e = DEFLATED" "inflate_contract Z R" "zinit Z = Some z"
        "R z (segment (fdbytes f) ?off ?len) data" "uncompLen e = int (length data)" "length data < 2 ^ 31"
    using assms(2) by (auto simp: entry_data_def)
  then show ?thesis
  proof cases
    case stored
    have "compLen e mod 2 ^ 32 = compLen e" using e by simp
    then show ?thesis
      using stored_loop_feeds [OF assms(1) e(4), of proc c] stored e(1)
      by (auto simp: mzProcessZipEntryContents_def restore processStoredEntry_def lseek_set_def)
  next
    case deflated
    obtain bs where bs: "blocks_of data bs" "map_option (\<lambda>(r, pos, c). (r, c))
        (inflate_loop Z f proc ?off (compLen e) [] [] 0 z c) = stream_end (length data) (feed proc bs c)"
      using inflate_loop_feeds [OF assms(1) deflated(2), of z "[]" ?off "compLen e" data "[]" proc 0 c] deflated(4) e
      unfolding append_Nil add_0 by (auto simp: BLOCK_def)
    have "verdict (processDeflatedEntry Z f ?off e proc c) = feed proc bs c"
      using bs(2) deflated(3,5) long_of_small [OF deflated(6)]
      by (cases "inflate_loop Z f proc ?off (compLen e) [] [] 0 z c"; cases "feed proc bs c")
         (auto simp: processDeflatedEntry_def split: if_splits)
    then show ?thesis
      using bs(1) deflated(1) e(1)
      by (auto simp: mzProcessZipEntryContents_def restore lseek_set_def STORED_def DEFLATED_def)
  qed
qed

section \<open>Consumers\<close>

text \<open>
  What a process function promises its caller: while its cookie has room for a block it takes it,
  and the effects of successive blocks compose.
\<close>

locale consumer =
  fixes proc :: "'c process" and fits :: "'c \<Rightarrow> nat \<Rightarrow> bool" and after :: "'c \<Rightarrow> byte list \<Rightarrow> 'c \<Rightarrow> bool"
  assumes accepts: "d \<noteq> [] \<Longrightarrow> fits c (length d + n) \<Longrightarrow> \<exists>c'. proc c d = Some (True, c') \<and> fits c' n \<and> after c d c'"
    and after_Nil: "fits c 0 \<Longrightarrow> after c [] c"
    and after_append: "after c d c' \<Longrightarrow> after c' ds c'' \<Longrightarrow> after c (d @ ds) c''"
begin

lemma feed_accepts:
  "list_all (\<lambda>b. b \<noteq> [] \<and> length b \<le> BLOCK) bs \<Longrightarrow> fits c (length (concat bs)) \<Longrightarrow>
   \<exists>c'. feed proc bs c = Some (True, c') \<and> after c (concat bs) c'"
proof (induction bs arbitrary: c)
  case Nil
  then show ?case using after_Nil by simp
next
  case (Cons b bs)
  then obtain c' where c': "proc c b = Some (True, c')" "fits c' (length (concat bs))" "after c b c'"
    using accepts [of b c "length (concat bs)"] by auto
  then show ?case using Cons.IH [of c'] Cons.prems(1) after_append [OF c'(3)] by auto
qed

lemma process_accepts:
  assumes "reads_ok f" and "entry_data Z R (fdbytes f) e data" and "fits c (length data)"
  shows "\<exists>c'. mzProcessZipEntryContents Z f pos e proc c = Some (True, pos, c') \<and> after c data c'"
proof -
  obtain bs where bs: "blocks_of data bs"
    "mzProcessZipEntryContents Z f pos e proc c = map_option (\<lambda>(ret, c). (ret, pos, c)) (feed proc bs c)"
    using entry_feeds [OF assms(1,2), of pos proc c] by (elim exE conjE)
  then show ?thesis using feed_accepts [of bs c] assms(3) by (auto simp: blocks_of_def)
qed

end

definition copy_fits :: "CopyProcessArgs \<Rightarrow> nat \<Rightarrow> bool" where
  "copy_fits a n \<longleftrightarrow> int n \<le> cbufLen a \<and> int (cptr a) + cbufLen a \<le> int (length (cmem a))"

definition copy_after :: "CopyProcessArgs \<Rightarrow> byte list \<Rightarrow> CopyProcessArgs \<Rightarrow> bool" where
  "copy_after a d a' \<longleftrightarrow> poke (cmem a) (cptr a) d = Some (cmem a') \<and> cptr a' = cptr a + length d \<and>
     cbufLen a' = cbufLen a - int (length d)"

definition buffer_fits :: "BufferExtractCookie \<Rightarrow> nat \<Rightarrow> bool" where
  "buffer_fits b n \<longleftrightarrow> bptr b + n \<le> length (bmem b)"

definition buffer_after :: "BufferExtractCookie \<Rightarrow> byte list \<Rightarrow> BufferExtractCookie \<Rightarrow> bool" where
  "buffer_after b d b' \<longleftrightarrow> poke (bmem b) (bptr b) d = Some (bmem b') \<and> bptr b' = bptr b + length d \<and>
     blen b' = blen b - int (length d)"

text \<open>
  A fair device: a write may be interrupted or partial any number of times, but does not fail
  otherwise, and is not interrupted forever.
\<close>

definition write_fair :: "(nat \<Rightarrow> nat \<Rightarrow> int \<times> bool) \<Rightarrow> bool" where
  "write_fair orc \<longleftrightarrow>
     (\<forall>i n. 0 < n \<longrightarrow> fst (orc i n) \<le> int n \<and> (fst (orc i n) \<le> 0 \<longrightarrow> snd (orc i n))) \<and>
     (\<forall>i. \<exists>j \<ge> i. \<forall>n > 0. 0 < fst (orc j n))"

definition write_fits :: "wrfd \<Rightarrow> nat \<Rightarrow> bool" where
  "write_fits w n \<longleftrightarrow> write_fair (woracle w)"

definition write_after :: "wrfd \<Rightarrow> byte list \<Rightarrow> wrfd \<Rightarrow> bool" where
  "write_after w d w' \<longleftrightarrow> written w' = written w @ d \<and> woracle w' = woracle w"

lemma poke_append:
  assumes "poke m p d = Some m'" and "poke m' (p + length d) ds = Some m''"
  shows "poke m p (d @ ds) = Some m''"
  using assms by (auto simp: poke_def ac_simps split: if_splits)

lemma poke_length: "poke m p d = Some m' \<Longrightarrow> length m' = length m"
  by (auto simp: poke_def split: if_splits)

lemma write_loop_fair:
  "write_fair (woracle w) \<Longrightarrow> soFar < length data \<Longrightarrow>
   \<exists>w'. write_loop w data soFar = Some (True, w') \<and> write_after w (drop soFar data) w'"
proof (induction "length data - soFar" arbitrary: w soFar rule: less_induct)
  case less
  obtain j where j: "wcalls w \<le> j" "\<forall>n > 0. 0 < fst (woracle w j n)"
    using less.prems(1) unfolding write_fair_def by blast
  have outer: "\<exists>w'. write_loop w1 data soFar1 = Some (True, w') \<and> write_after w1 (drop soFar1 data) w'"
    if "soFar < soFar1" "soFar1 < length data" "woracle w1 = woracle w" for w1 soFar1
    using less.hyps [of soFar1 w1] that less.prems(1) by simp
  have "\<exists>w'. write_loop v data soFar = Some (True, w') \<and> write_after v (drop soFar data) w'"
    if "woracle v = woracle w" "wcalls v \<le> j" for v
    using that
  proof (induction "j - wcalls v" arbitrary: v rule: less_induct)
    case inner: less
    obtain n eintr where r: "woracle w (wcalls v) (length data - soFar) = (n, eintr)" by force
    have n: "n \<le> int (length data - soFar)" "n \<le> 0 \<Longrightarrow> eintr"
      using less.prems(1) [unfolded write_fair_def, THEN conjunct1, rule_format, of "length data - soFar" "wcalls v"]
        less.prems(2) r by simp_all
    show ?case
    proof (cases "n \<le> 0")
      case True
      have "wcalls v \<noteq> j" using True r j(2) [rule_format, of "length data - soFar"] less.prems(2) by auto
      then obtain w' where "write_loop (v\<lparr>wcalls := wcalls v + 1\<rparr>) data soFar = Some (True, w')"
        "write_after (v\<lparr>wcalls := wcalls v + 1\<rparr>) (drop soFar data) w'"
        using inner.hyps [of "v\<lparr>wcalls := wcalls v + 1\<rparr>"] inner.prems by fastforce
      then show ?thesis
        using True n r inner.prems by (subst write_loop.simps) (auto simp: write_after_def)
    next
      case False
      let ?v = "v\<lparr>wcalls := wcalls v + 1, written := written v @ segment data soFar (nat n)\<rparr>"
      have step: "write_loop v data soFar = (if soFar + nat n = length data then Some (True, ?v)
          else write_loop ?v data (soFar + nat n))"
        using False n r inner.prems less.prems(2) by (subst write_loop.simps) (auto simp: Let_def)
      have seg: "segment data soFar (nat n) @ drop (soFar + nat n) data = drop soFar data"
        using append_take_drop_id [of "nat n" "drop soFar data"] by (simp add: segment_def add.commute)
      show ?thesis
      proof (cases "soFar + nat n = length data")
        case True
        then show ?thesis using step seg by (simp add: write_after_def)
      next
        case no: False
        then show ?thesis using step seg outer [of "soFar + nat n" ?v] False n(1) inner.prems(1) less.prems(2)
          by (auto simp: write_after_def)
      qed
    qed
  qed
  then show ?case using j(1) by blast
qed

interpretation copy_consumer: consumer copyProcessFunction copy_fits copy_after
proof
  show "\<exists>c'. copyProcessFunction c d = Some (True, c') \<and> copy_fits c' n \<and> copy_after c d c'"
    if "d \<noteq> []" "copy_fits c (length d + n)" for d c n
    using that by (auto simp: copy_fits_def copy_after_def copyProcessFunction_def poke_def)
  show "copy_after c [] c" if "copy_fits c 0" for c
    using that by (simp add: copy_fits_def copy_after_def poke_def)
  show "copy_after c (d @ ds) c''" if "copy_after c d c'" "copy_after c' ds c''" for c d c' ds c''
    using that poke_append [of "cmem c" "cptr c" d "cmem c'" ds "cmem c''"] by (simp add: copy_after_def)
qed

interpretation buffer_consumer: consumer bufferProcessFunction buffer_fits buffer_after
proof
  show "\<exists>c'. bufferProcessFunction c d = Some (True, c') \<and> buffer_fits c' n \<and> buffer_after c d c'"
    if "d \<noteq> []" "buffer_fits c (length d + n)" for d c n
    using that by (auto simp: buffer_fits_def buffer_after_def bufferProcessFunction_def poke_def)
  show "buffer_after c [] c" if "buffer_fits c 0" for c
    using that by (simp add: buffer_fits_def buffer_after_def poke_def)
  show "buffer_after c (d @ ds) c''" if "buffer_after c d c'" "buffer_after c' ds c''" for c d c' ds c''
    using that poke_append [of "bmem c" "bptr c" d "bmem c'" ds "bmem c''"] by (simp add: buffer_after_def)
qed

interpretation file_consumer: consumer writeProcessFunction write_fits write_after
proof
  show "\<exists>c'. writeProcessFunction c d = Some (True, c') \<and> write_fits c' n \<and> write_after c d c'"
    if "d \<noteq> []" "write_fits c (length d + n)" for d c n
    using that write_loop_fair [of c 0 d] by (auto simp: write_fits_def write_after_def writeProcessFunction_def)
qed (auto simp: write_after_def)

section \<open>Rejection, overflow and checksums\<close>

lemma copy_rejects:
  "list_all (\<lambda>b. b \<noteq> [] \<and> length b \<le> BLOCK) bs \<Longrightarrow> 0 \<le> cbufLen a \<Longrightarrow> cbufLen a < int (length (concat bs)) \<Longrightarrow>
   int (cptr a) + cbufLen a \<le> int (length (cmem a)) \<Longrightarrow>
   \<exists>a'. feed copyProcessFunction bs a = Some (False, a') \<and> length (cmem a') = length (cmem a)"
proof (induction bs arbitrary: a)
  case (Cons b bs)
  show ?case
  proof (cases "int (length b) \<le> cbufLen a")
    case True
    then obtain a' where a': "copyProcessFunction a b = Some (True, a')" "copy_after a b a'"
      using copy_consumer.accepts [of b a 0] Cons.prems by (auto simp: copy_fits_def)
    then have "length (cmem a') = length (cmem a)" "cptr a' = cptr a + length b" "cbufLen a' = cbufLen a - int (length b)"
      using poke_length by (auto simp only: copy_after_def)
    then show ?thesis using Cons.IH [of a'] Cons.prems a'(1) True by auto
  qed (simp add: copyProcessFunction_def)
qed auto

lemma buffer_overflows:
  "length (bmem b) < bptr b + length (concat bs) \<Longrightarrow> bptr b \<le> length (bmem b) \<Longrightarrow>
   feed bufferProcessFunction bs b = None"
proof (induction bs arbitrary: b)
  case (Cons d bs)
  show ?case
  proof (cases "bptr b + length d \<le> length (bmem b)")
    case True
    then show ?thesis using Cons by (auto simp: bufferProcessFunction_def poke_def)
  qed (simp add: bufferProcessFunction_def poke_def)
qed simp

lemma crc_feed:
  assumes "\<And>c a b. crcfn c (a @ b) = crcfn (crcfn c a) b"
  shows "feed (crcProcessFunction crcfn) bs (crcfn c a) = Some (True, crcfn c (a @ concat bs))"
  by (induction bs arbitrary: a) (simp_all add: crcProcessFunction_def assms [symmetric] del: append_assoc,
      simp add: assms)

text \<open>
  A failed decompression leaves the result at -1, and an entry whose uncompressed size field is all
  ones has the same value as its size: the failure is then reported as success.
\<close>

lemma inflate_failure_accepted:
  assumes "zinit Z = None" and "uncompLen e = - 1"
  shows "processDeflatedEntry Z f pos e proc c = Some (True, pos, c)"
  using assms by (simp add: processDeflatedEntry_def)

section \<open>A sample stream\<close>

text \<open>A codec that copies a given number of bytes.\<close>

definition copying_zlib :: "nat zlib" where
  "copying_zlib = \<lparr>zinit = Some 2, zinflate = \<lambda>z next_in n.
     let k = min z (min (length next_in) n) in
     (if k = z then Z_STREAM_END else if k = 0 then Z_FAILED else Z_OK, z - k, k, take k next_in)\<rparr>"

definition copies :: "nat \<Rightarrow> byte list \<Rightarrow> byte list \<Rightarrow> bool" where
  "copies z rest out \<longleftrightarrow> z \<le> length rest \<and> out = take z rest"

lemma copying_contract: "inflate_contract copying_zlib copies"
  unfolding inflate_contract_def
proof (intro allI impI)
  fix z next_in rest out and n :: nat
  assume A: "copies z (next_in @ rest) out \<and> (next_in \<noteq> [] \<or> rest = []) \<and> 0 < n"
  define k where "k = min z (min (length next_in) n)"
  have out: "out = take z (next_in @ rest)" "z \<le> length (next_in @ rest)" using A by (auto simp: copies_def)
  have "take k next_in = take k out" "k \<le> length next_in" "k \<le> n" "k \<le> length out"
    using out by (auto simp: k_def min_def)
  moreover have "k = z \<or> 0 < k" using A out by (cases next_in) (auto simp: k_def min_def split: if_splits)
  moreover have "copies (z - k) (drop k (next_in @ rest)) (drop k out)"
    using out by (auto simp: copies_def drop_take k_def)
  moreover have "k = z \<Longrightarrow> k = length out" using out by simp
  ultimately show "\<exists>zerr z' used k. zinflate copying_zlib z next_in n = (zerr, z', used, take k out) \<and>
      used \<le> length next_in \<and> k \<le> n \<and> k \<le> length out \<and>
      (zerr = Z_STREAM_END \<and> k = length out \<or>
       zerr = Z_OK \<and> 0 < used + k \<and> copies z' (drop used (next_in @ rest)) (drop k out))"
    by (rule_tac x = "if k = z then Z_STREAM_END else Z_OK" in exI, rule_tac x = "z - k" in exI,
        rule_tac x = k in exI, rule_tac x = k in exI) (auto simp: copying_zlib_def k_def [symmetric] Let_def)
qed

definition sample_fd :: zipfd where
  "sample_fd = \<lparr>fdbytes = sample_zip, fdread = \<lambda>_ n. Some n\<rparr>"

definition deflated_entry :: ZipEntry where
  "deflated_entry = sample_entry\<lparr>compression := DEFLATED\<rparr>"

lemma sample_uncompLen: "uncompLen sample_entry = 2"
  by (simp add: sample_entry_def)

lemma sample_fd_ok [simp]: "reads_ok sample_fd" "fdbytes sample_fd = sample_zip"
  by (auto simp: reads_ok_def sample_fd_def)

lemma sample_data:
  "entry_data copying_zlib copies sample_zip sample_entry [104, 105]"
  "entry_data copying_zlib copies sample_zip deflated_entry [104, 105]"
proof -
  have seg: "segment sample_zip 31 2 = [104, 105]" by (simp add: sample_zip_def segment_def)
  show "entry_data copying_zlib copies sample_zip sample_entry [104, 105]"
    by (simp add: entry_data_def sample_entry_def sample_length STORED_def seg)
  have "zinit copying_zlib = Some 2" by (simp add: copying_zlib_def)
  then show "entry_data copying_zlib copies sample_zip deflated_entry [104, 105]"
    by (simp add: entry_data_def deflated_entry_def sample_entry_def sample_length copying_contract seg copies_def)
qed

section \<open>Properties\<close>

text \<open>
  C11.  Streaming an entry hands the process function exactly the uncompressed contents, in order, in
  nonempty blocks of at most 32 kilobytes; the result is the process function's verdict, and the
  descriptor's offset is restored.  For deflated entries this includes that the loop ends, under
  the documented behaviour of \<open>inflate\<close>.
\<close>

theorem mzProcessZipEntryContents_streams:
  assumes "reads_ok f" and "entry_data Z R (fdbytes f) e data"
  shows "\<exists>bs. blocks_of data bs \<and>
    mzProcessZipEntryContents Z f pos e proc c = map_option (\<lambda>(ret, c). (ret, pos, c)) (feed proc bs c)"
  using assms by (rule entry_feeds)

theorem mzProcessZipEntryContents_streams_witness:
  "\<exists>bs. blocks_of [104, 105] bs \<and>
    mzProcessZipEntryContents copying_zlib sample_fd 7 deflated_entry copyProcessFunction
        \<lparr>cmem = [1, 2, 3], cptr = 0, cbufLen = 3\<rparr> =
      map_option (\<lambda>(ret, c). (ret, 7, c)) (feed copyProcessFunction bs \<lparr>cmem = [1, 2, 3], cptr = 0, cbufLen = 3\<rparr>)"
  by (rule mzProcessZipEntryContents_streams [where R = copies]) (simp_all add: sample_data)

text \<open>
  C20.  Reading an entry into memory.  \<open>mzReadZipEntry\<close> fills the start of the buffer with the contents
  when they fit into the given length, and otherwise fails without leaving the buffer.
  \<open>mzExtractZipEntryToBuffer\<close>, given a buffer that the contents fit into, fills its start with them, and
  succeeds exactly when the size the entry announces is that of the contents.
\<close>

theorem entry_to_memory:
  assumes "reads_ok f" and "entry_data Z R (fdbytes f) e data"
  shows "(0 \<le> bufLen \<and> bufLen \<le> int (length buf) \<longrightarrow>
      (if int (length data) \<le> bufLen
       then mzReadZipEntry Z f pos e buf bufLen = Some (True, pos, data @ drop (length data) buf)
       else \<exists>buf'. mzReadZipEntry Z f pos e buf bufLen = Some (False, pos, buf') \<and> length buf' = length buf)) \<and>
    (length data \<le> length buf \<longrightarrow>
      mzExtractZipEntryToBuffer Z f pos e buf = Some (uncompLen e = int (length data), pos, data @ drop (length data) buf))"
proof (intro conjI impI)
  let ?a = "\<lparr>cmem = buf, cptr = 0, cbufLen = bufLen\<rparr>"
  assume le: "0 \<le> bufLen \<and> bufLen \<le> int (length buf)"
  show "if int (length data) \<le> bufLen
     then mzReadZipEntry Z f pos e buf bufLen = Some (True, pos, data @ drop (length data) buf)
     else \<exists>buf'. mzReadZipEntry Z f pos e buf bufLen = Some (False, pos, buf') \<and> length buf' = length buf"
  proof (cases "int (length data) \<le> bufLen")
    case True
    then show ?thesis
      using copy_consumer.process_accepts [OF assms, of ?a pos] le
      by (auto simp: mzReadZipEntry_def copy_fits_def copy_after_def poke_def)
  next
    case False
    obtain bs where "blocks_of data bs"
      "mzProcessZipEntryContents Z f pos e copyProcessFunction ?a =
        map_option (\<lambda>(ret, c). (ret, pos, c)) (feed copyProcessFunction bs ?a)"
      using entry_feeds [OF assms, of pos copyProcessFunction ?a] by (elim exE conjE)
    then show ?thesis
      using copy_rejects [of bs ?a] False le by (auto simp: mzReadZipEntry_def blocks_of_def)
  qed
next
  assume "length data \<le> length buf"
  then show "mzExtractZipEntryToBuffer Z f pos e buf = Some (uncompLen e = int (length data), pos, data @ drop (length data) buf)"
    using buffer_consumer.process_accepts [OF assms, of "\<lparr>bmem = buf, bptr = 0, blen = uncompLen e\<rparr>" pos]
    by (auto simp: mzExtractZipEntryToBuffer_def buffer_fits_def buffer_after_def poke_def)
qed

theorem entry_to_memory_witness:
  "mzReadZipEntry copying_zlib sample_fd 0 deflated_entry [1, 2, 3] 3 = Some (True, 0, [104, 105, 3]) \<and>
   mzExtractZipEntryToBuffer copying_zlib sample_fd 0 sample_entry [1, 2] = Some (True, 0, [104, 105])"
  using entry_to_memory [of sample_fd copying_zlib copies deflated_entry "[104, 105]" 3 "[1, 2, 3]" 0]
    entry_to_memory [of sample_fd copying_zlib copies sample_entry "[104, 105]" 3 "[1, 2]" 0]
  by (simp add: sample_data sample_uncompLen)

text \<open>
  C23.  Extraction to a file ends and succeeds on every device that accepts data eventually: however
  often writes are interrupted or partial, all of the contents are appended, in order and once.
\<close>

theorem mzExtractZipEntryToFile_live:
  assumes "reads_ok f" and "entry_data Z R (fdbytes f) e data" and "write_fair (woracle w)"
  shows "\<exists>w'. mzExtractZipEntryToFile Z f pos e w = Some (True, pos, w') \<and> written w' = written w @ data"
  using file_consumer.process_accepts [OF assms(1,2), of w pos] assms(3)
  by (auto simp: mzExtractZipEntryToFile_def write_fits_def write_after_def)

theorem mzExtractZipEntryToFile_live_witness:
  "\<exists>w'. mzExtractZipEntryToFile copying_zlib sample_fd 0 deflated_entry
      \<lparr>written = [], wcalls = 0, woracle = \<lambda>i n. if even i then (- 1, True) else (1, False)\<rparr> = Some (True, 0, w') \<and>
    written w' = [104, 105]"
proof -
  have "\<exists>j \<ge> i. odd j" for i :: nat by (metis even_Suc le_SucI order_refl)
  then have "write_fair (\<lambda>i n. if even i then (- 1, True) else (1, False))"
    by (auto simp: write_fair_def)
  then show ?thesis
    using mzExtractZipEntryToFile_live [of sample_fd copying_zlib copies deflated_entry "[104, 105]"
        "\<lparr>written = [], wcalls = 0, woracle = \<lambda>i n. if even i then (- 1, True) else (1, False)\<rparr>" 0]
    by (simp add: sample_data)
qed

text \<open>
  C26.  The integrity check succeeds exactly when the checksum of the uncompressed contents is the one
  the archive records; of the checksum function only that it can be continued is assumed.
\<close>

theorem mzIsZipEntryIntact_checks:
  assumes "reads_ok f" and "entry_data Z R (fdbytes f) e data"
    and "\<And>c a b. crcfn c (a @ b) = crcfn (crcfn c a) b"
  shows "mzIsZipEntryIntact Z crcfn f pos e = Some (crcfn 0 data = word_of_int (crc32 e), pos)"
proof -
  obtain bs where "blocks_of data bs"
    "mzProcessZipEntryContents Z f pos e (crcProcessFunction crcfn) (crcfn 0 []) =
      map_option (\<lambda>(ret, c). (ret, pos, c)) (feed (crcProcessFunction crcfn) bs (crcfn 0 []))"
    using entry_feeds [OF assms(1,2), of pos "crcProcessFunction crcfn" "crcfn 0 []"] by (elim exE conjE)
  then show ?thesis
    using crc_feed [where crcfn = crcfn, OF assms(3), of bs 0 "[]"] by (simp add: mzIsZipEntryIntact_def blocks_of_def)
qed

theorem mzIsZipEntryIntact_checks_witness:
  "mzIsZipEntryIntact copying_zlib (\<lambda>c bs. c + of_nat (length bs)) sample_fd 0 (deflated_entry\<lparr>crc32 := 2\<rparr>) =
     Some (True, 0)"
proof -
  have data: "entry_data copying_zlib copies (fdbytes sample_fd) (deflated_entry\<lparr>crc32 := 2\<rparr>) [104, 105]"
    using sample_data(2) by (simp add: entry_data_def)
  show ?thesis
    using mzIsZipEntryIntact_checks [OF sample_fd_ok(1) data, where crcfn = "\<lambda>c bs. c + of_nat (length bs)" and pos = 0]
    by simp
qed

text \<open>
  C40.  A stored entry whose compressed size exceeds its announced uncompressed size is written past the
  end of a buffer of the announced size: \<open>mzExtractZipEntryToBuffer\<close> checks the length only
  afterwards.
\<close>

theorem mzExtractZipEntryToBuffer_overflow:
  assumes "reads_ok f" and "entry_data Z R (fdbytes f) e data" and "length buf < length data"
  shows "mzExtractZipEntryToBuffer Z f pos e buf = None"
proof -
  let ?b = "\<lparr>bmem = buf, bptr = 0, blen = uncompLen e\<rparr>"
  obtain bs where "blocks_of data bs"
    "mzProcessZipEntryContents Z f pos e bufferProcessFunction ?b =
      map_option (\<lambda>(ret, c). (ret, pos, c)) (feed bufferProcessFunction bs ?b)"
    using entry_feeds [OF assms(1,2), of pos bufferProcessFunction ?b] by (elim exE conjE)
  then show ?thesis
    using buffer_overflows [of ?b bs] assms(3) by (simp add: mzExtractZipEntryToBuffer_def blocks_of_def)
qed

theorem mzExtractZipEntryToBuffer_overflow_witness:
  "mzExtractZipEntryToBuffer copying_zlib sample_fd 0 (sample_entry\<lparr>uncompLen := 1\<rparr>) [0] = None"
proof -
  have "entry_data copying_zlib copies (fdbytes sample_fd) (sample_entry\<lparr>uncompLen := 1\<rparr>) [104, 105]"
    using sample_data(1) by (simp add: entry_data_def sample_entry_def STORED_def DEFLATED_def)
  then show ?thesis by (rule mzExtractZipEntryToBuffer_overflow [OF sample_fd_ok(1)]) simp
qed

end
