(* ===== verification/DirUtil.thy ===== *)
theory DirUtil
  imports Prelude "HOL-Library.Sublist"
begin

text \<open>
  Creating directory hierarchies (\<^verbatim>\<open>minzip/DirUtil.c\<close>, \<open>getPathDirStatus\<close> and
  \<open>dirCreateHierarchy\<close>).

  The file system is an abstract state \<open>'w\<close> with the system calls as parameters (record
  \<open>syscalls\<close>), each returning whether it succeeded and the new state.
\<close>

section \<open>System calls\<close>

datatype stat_result = Is_Dir | Not_Dir | No_Ent | Stat_Error

text \<open>
  \<open>w_setcon\<close> is \<open>setfscreatecon\<close>, with \<open>None\<close> for NULL; \<open>w_malloc\<close> says whether an allocation of a
  given size succeeds.
\<close>

record 'w syscalls =
  w_stat :: "'w \<Rightarrow> string \<Rightarrow> stat_result"
  w_mkdir :: "'w \<Rightarrow> string \<Rightarrow> nat \<Rightarrow> bool \<times> 'w"
  w_utime :: "'w \<Rightarrow> string \<Rightarrow> nat \<Rightarrow> bool \<times> 'w"
  w_setcon :: "'w \<Rightarrow> string option \<Rightarrow> 'w"
  w_malloc :: "nat \<Rightarrow> bool"

text \<open>A label handle maps a path and a mode to a security context.\<close>

type_synonym selabel = "(string \<Rightarrow> nat \<Rightarrow> string option) option"

section \<open>The code\<close>

datatype DirStatus = DMISSING | DDIR | DILLEGAL

definition getPathDirStatus :: "('w, 'm) syscalls_scheme \<Rightarrow> 'w \<Rightarrow> string \<Rightarrow> DirStatus" where
  "getPathDirStatus S w path =
     (case w_stat S w path of
        Is_Dir \<Rightarrow> DDIR
      | Not_Dir \<Rightarrow> DILLEGAL
      | Stat_Error \<Rightarrow> DILLEGAL
      | No_Ent \<Rightarrow> DMISSING)"

text \<open>Labels are set around a call that creates a file.\<close>

definition label_for :: "('w, 'm) syscalls_scheme \<Rightarrow> selabel \<Rightarrow> 'w \<Rightarrow> string \<Rightarrow> nat \<Rightarrow> string option \<times> 'w" where
  "label_for S sehnd w path mode =
     (case sehnd of
        None \<Rightarrow> (None, w)
      | Some lookup \<Rightarrow> (lookup path mode, w_setcon S w (lookup path mode)))"

definition unlabel :: "('w, 'm) syscalls_scheme \<Rightarrow> string option \<Rightarrow> 'w \<Rightarrow> 'w" where
  "unlabel S secontext w = (case secontext of None \<Rightarrow> w | Some _ \<Rightarrow> w_setcon S w None)"

definition make_level ::
  "('w, 'm) syscalls_scheme \<Rightarrow> nat \<Rightarrow> nat option \<Rightarrow> selabel \<Rightarrow> 'w \<Rightarrow> string \<Rightarrow> bool \<times> 'w" where
  "make_level S mode timestamp sehnd w cpath =
     (case getPathDirStatus S w cpath of
        DILLEGAL \<Rightarrow> (False, w)
      | DDIR \<Rightarrow> (True, w)
      | DMISSING \<Rightarrow>
          let (secontext, w) = label_for S sehnd w cpath mode;
              (ok, w) = w_mkdir S w cpath mode;
              w = unlabel S secontext w
          in if \<not> ok then (False, w)
             else case timestamp of
                 None \<Rightarrow> (True, w)
               | Some t \<Rightarrow> w_utime S w cpath t)"

text \<open>
  The walk from the root: \<open>before\<close> is the part of the path before \<open>p\<close>, \<open>todo\<close> the part from \<open>p\<close> on.
  The scan for the end of a component relies on the slash at the end of the path; without it
  it would run past the string.
\<close>

lemma scan_shrinks:
  assumes "dropWhile (\<lambda>c. c = CHR ''/'') todo \<noteq> []"
  shows "length (dropWhile (\<lambda>c. c = CHR ''/'') (dropWhile (\<lambda>c. c \<noteq> CHR ''/'') (dropWhile (\<lambda>c. c = CHR ''/'') todo))) <
    length (dropWhile (\<lambda>c. c = CHR ''/'') todo)"
proof -
  obtain c cs where p: "dropWhile (\<lambda>c. c = CHR ''/'') todo = c # cs" using assms by (metis neq_Nil_conv)
  then have "c \<noteq> CHR ''/''" using hd_dropWhile [OF assms] by simp
  then show ?thesis
    using p length_dropWhile_le [of "\<lambda>c. c \<noteq> CHR ''/''" cs]
      length_dropWhile_le [of "\<lambda>c. c = CHR ''/''" "dropWhile (\<lambda>c. c \<noteq> CHR ''/'') cs"]
    by (simp add: le_less_trans)
qed

function make_levels ::
  "('w, 'm) syscalls_scheme \<Rightarrow> nat \<Rightarrow> nat option \<Rightarrow> selabel \<Rightarrow> 'w \<Rightarrow> string \<Rightarrow> string \<Rightarrow> (int \<times> 'w) ub" where
  "make_levels S mode timestamp sehnd w before todo =
     (let slashes = takeWhile (\<lambda>c. c = CHR ''/'') todo;
          p = dropWhile (\<lambda>c. c = CHR ''/'') todo;
          component = takeWhile (\<lambda>c. c \<noteq> CHR ''/'') p;
          rest = dropWhile (\<lambda>c. c \<noteq> CHR ''/'') p;
          cpath = before @ slashes @ component
      in if p = [] then Some (0, w)
         else if rest = [] then None
         else case make_level S mode timestamp sehnd w cpath of
             (False, w) \<Rightarrow> Some (- 1, w)
           | (True, w) \<Rightarrow> make_levels S mode timestamp sehnd w cpath rest)"
  by pat_completeness auto
termination
  by (relation "measure (\<lambda>(S, mode, timestamp, sehnd, w, before, todo). length (dropWhile (\<lambda>c. c = CHR ''/'') todo))")
     (auto intro: scan_shrinks)

declare make_levels.simps [simp del]

text \<open>
  Cutting the path at its last slash; the scan stops at the first character, which counts as having
  no directory part.
\<close>

definition strip_file_name :: "string \<Rightarrow> string option" where
  "strip_file_name path =
     (let kept = rev (dropWhile (\<lambda>c. c \<noteq> CHR ''/'') (rev path)) in
      if length kept \<le> 1 then None else Some kept)"

definition dirCreateHierarchy ::
  "('w, 'm) syscalls_scheme \<Rightarrow> 'w \<Rightarrow> string \<Rightarrow> nat \<Rightarrow> nat option \<Rightarrow> bool \<Rightarrow> selabel \<Rightarrow> (int \<times> 'w) ub" where
  "dirCreateHierarchy S w path mode timestamp stripFileName sehnd =
     (if path = [] then Some (- 1, w)
      else if \<not> w_malloc S (length path + 2) then Some (- 1, w)
      else case (if stripFileName then strip_file_name path else Some (path @ ''/'')) of
          None \<Rightarrow> Some (- 1, w)
        | Some cpath \<Rightarrow>
            (case getPathDirStatus S w cpath of
               DDIR \<Rightarrow> Some (0, w)
             | DILLEGAL \<Rightarrow> Some (- 1, w)
             | DMISSING \<Rightarrow> make_levels S mode timestamp sehnd w [] cpath))"

section \<open>What it establishes\<close>

text \<open>
  The levels of a path: everything up to the end of a component that is followed by a slash.
\<close>

definition level :: "string \<Rightarrow> string \<Rightarrow> bool" where
  "level q path \<longleftrightarrow> q \<noteq> [] \<and> last q \<noteq> CHR ''/'' \<and> prefix (q @ ''/'') path"

text \<open>
  The documented behaviour of the calls: a directory that was made is there, and directories do not
  vanish.
\<close>

definition keeps_dirs :: "('w, 'm) syscalls_scheme \<Rightarrow> 'w \<Rightarrow> 'w \<Rightarrow> bool" where
  "keeps_dirs S w w' \<longleftrightarrow> (\<forall>q. w_stat S w q = Is_Dir \<longrightarrow> w_stat S w' q = Is_Dir)"

definition mkdir_contract :: "('w, 'm) syscalls_scheme \<Rightarrow> bool" where
  "mkdir_contract S \<longleftrightarrow>
     (\<forall>w q mode. fst (w_mkdir S w q mode) \<longrightarrow> w_stat S (snd (w_mkdir S w q mode)) q = Is_Dir) \<and>
     (\<forall>w q mode. keeps_dirs S w (snd (w_mkdir S w q mode))) \<and>
     (\<forall>w q t. keeps_dirs S w (snd (w_utime S w q t))) \<and> (\<forall>w c. keeps_dirs S w (w_setcon S w c))"

lemma keeps_dirs_refl [simp]: "keeps_dirs S w w"
  by (simp add: keeps_dirs_def)

lemma keeps_dirs_trans: "keeps_dirs S a b \<Longrightarrow> keeps_dirs S b c \<Longrightarrow> keeps_dirs S a c"
  by (simp add: keeps_dirs_def)

lemma labels_keep:
  assumes "mkdir_contract S"
  shows "keeps_dirs S w (snd (label_for S sehnd w path mode))" "keeps_dirs S w (unlabel S c w)"
  using assms by (auto simp: mkdir_contract_def label_for_def unlabel_def split: option.splits)

lemma mkdir_contractD:
  assumes "mkdir_contract S" and "w_mkdir S w q mode = (ok, w')"
  shows "keeps_dirs S w w'" "ok \<Longrightarrow> w_stat S w' q = Is_Dir"
  using assms unfolding mkdir_contract_def by (metis fst_conv snd_conv)+

lemma make_level_ok:
  assumes "mkdir_contract S" and "make_level S mode ts sehnd w q = (ok, w')"
  shows "keeps_dirs S w w' \<and> (ok \<longrightarrow> w_stat S w' q = Is_Dir)"
proof (cases "getPathDirStatus S w q")
  case DMISSING
  obtain c w1 where w1: "label_for S sehnd w q mode = (c, w1)" by force
  obtain b w2 where w2: "w_mkdir S w1 q mode = (b, w2)" by force
  have k: "keeps_dirs S w w1" "keeps_dirs S w1 w2" "keeps_dirs S w2 (unlabel S c w2)" "b \<longrightarrow> w_stat S w2 q = Is_Dir"
    using labels_keep(1) [OF assms(1), of w sehnd q mode] labels_keep(2) [OF assms(1), of w2 c] w1
      mkdir_contractD [OF assms(1) w2] by auto
  have u: "keeps_dirs S (unlabel S c w2) (snd (w_utime S (unlabel S c w2) q t))" for t
    using assms(1) by (simp add: mkdir_contract_def)
  have k3: "keeps_dirs S w (unlabel S c w2)" "b \<longrightarrow> w_stat S (unlabel S c w2) q = Is_Dir"
    using keeps_dirs_trans [OF k(1) keeps_dirs_trans [OF k(2,3)]] k(3,4) by (auto simp: keeps_dirs_def)
  have "ok = b \<and> w' = unlabel S c w2 \<or> (\<exists>t. b \<and> w_utime S (unlabel S c w2) q t = (ok, w'))"
    using assms(2) DMISSING w1 w2 by (auto simp: make_level_def Let_def split: if_splits option.splits)
  then show ?thesis
  proof
    assume "\<exists>t. b \<and> w_utime S (unlabel S c w2) q t = (ok, w')"
    then obtain t where t: "b" "w_utime S (unlabel S c w2) q t = (ok, w')" by blast
    then show ?thesis using keeps_dirs_trans [OF k3(1) u [of t]] u [of t] k3(2) by (simp add: keeps_dirs_def)
  qed (use k3 in blast)
qed (use assms(2) in \<open>auto simp: make_level_def getPathDirStatus_def split: stat_result.splits\<close>)

lemma level_cases:
  assumes "level q todo" and "todo = slashes @ component @ rest" and "list_all (\<lambda>c. c = CHR ''/'') slashes"
    and "list_all (\<lambda>c. c \<noteq> CHR ''/'') component"
  shows "q = slashes @ component \<or> (\<exists>t. q = slashes @ component @ t \<and> level t rest)"
proof -
  obtain u where q: "q \<noteq> []" "last q \<noteq> CHR ''/''" and u: "q @ (CHR ''/'' # u) = (slashes @ component) @ rest"
    using assms(1,2) by (auto simp: level_def elim: prefixE)
  have short: False if "q @ CHR ''/'' # us = slashes @ component" for us
  proof -
    consider vs where "q = slashes @ vs" "vs @ CHR ''/'' # us = component" | vs where "q @ vs = slashes"
      using \<open>q @ CHR ''/'' # us = slashes @ component\<close> unfolding append_eq_append_conv2 by blast
    then show False
    proof cases
      case 1
      then show False using assms(4) by auto
    next
      case 2
      then have "last q \<in> set slashes" using q(1) by auto
      then show False using q(2) assms(3) by (auto simp: list_all_iff)
    qed
  qed
  consider us where "q = (slashes @ component) @ us" "us @ CHR ''/'' # u = rest"
    | us where "q @ us = slashes @ component" "CHR ''/'' # u = us @ rest"
    using u unfolding append_eq_append_conv2 [of q] by blast
  then show ?thesis
  proof cases
    case 1
    then show ?thesis using q by (cases "us = []") (auto simp: level_def intro: prefixI [of _ _ u])
  next
    case 2
    then show ?thesis using short by (cases us) auto
  qed
qed

lemma make_levels_ok:
  assumes S: "mkdir_contract S"
  shows "todo \<noteq> [] \<longrightarrow> last todo = CHR ''/'' \<Longrightarrow>
    \<exists>r w'. make_levels S mode ts sehnd w before todo = Some (r, w') \<and> keeps_dirs S w w' \<and> (r = 0 \<or> r = - 1) \<and>
      (r = 0 \<longrightarrow> (\<forall>q. level q todo \<longrightarrow> w_stat S w' (before @ q) = Is_Dir))"
proof (induction "length (dropWhile (\<lambda>c. c = CHR ''/'') todo)" arbitrary: w before todo rule: less_induct)
  case less
  define slashes where "slashes = takeWhile (\<lambda>c. c = CHR ''/'') todo"
  define p where "p = dropWhile (\<lambda>c. c = CHR ''/'') todo"
  define component where "component = takeWhile (\<lambda>c. c \<noteq> CHR ''/'') p"
  define rest where "rest = dropWhile (\<lambda>c. c \<noteq> CHR ''/'') p"
  have todo: "todo = slashes @ component @ rest" "p = component @ rest"
    by (simp_all add: slashes_def component_def rest_def p_def)
  have all: "list_all (\<lambda>c. c = CHR ''/'') slashes" "list_all (\<lambda>c. c \<noteq> CHR ''/'') component"
    unfolding slashes_def component_def by (auto simp: list_all_iff dest: set_takeWhileD)
  have step: "make_levels S mode ts sehnd w before todo =
      (if p = [] then Some (0, w) else if rest = [] then None
       else case make_level S mode ts sehnd w (before @ slashes @ component) of
             (False, w) \<Rightarrow> Some (- 1, w)
           | (True, w) \<Rightarrow> make_levels S mode ts sehnd w (before @ slashes @ component) rest)"
    unfolding component_def rest_def p_def slashes_def by (subst make_levels.simps) (simp only: Let_def)
  show ?case
  proof (cases "p = []")
    case True
    have "\<not> level q todo" for q
    proof
      assume lv: "level q todo"
      then have "last q \<in> set todo" by (auto simp: level_def prefix_def)
      then show False using lv all(1) todo True by (auto simp: level_def list_all_iff)
    qed
    then show ?thesis using True by (simp add: step)
  next
    case False
    have rest: "rest \<noteq> []"
    proof
      assume "rest = []"
      then have "last todo \<in> set component" using todo False by auto
      then show False using all(2) less.prems todo False by (auto simp: list_all_iff)
    qed
    obtain ok w1 where lv: "make_level S mode ts sehnd w (before @ slashes @ component) = (ok, w1)" by force
    note ok = make_level_ok [OF S lv]
    have lt: "length (dropWhile (\<lambda>c. c = CHR ''/'') rest) < length (dropWhile (\<lambda>c. c = CHR ''/'') todo)"
      using scan_shrinks [of todo] False by (simp add: rest_def p_def)
    show ?thesis
    proof (cases ok)
      case True
      have "last rest = CHR ''/''" using less.prems todo rest by auto
      then obtain r w' where r: "make_levels S mode ts sehnd w1 (before @ slashes @ component) rest = Some (r, w')"
        "keeps_dirs S w1 w'" "r = 0 \<or> r = - 1"
        "r = 0 \<longrightarrow> (\<forall>q. level q rest \<longrightarrow> w_stat S w' ((before @ slashes @ component) @ q) = Is_Dir)"
        using less.hyps [OF lt, of w1 "before @ slashes @ component"] by blast
      have "w_stat S w' (before @ q) = Is_Dir" if "r = 0" "level q todo" for q
        using level_cases [OF that(2) todo(1) all] r(2,4) ok True that(1) by (auto simp: keeps_dirs_def)
      then show ?thesis
        using False rest lv True r keeps_dirs_trans [of S w w1 w'] ok by (auto simp: step)
    next
      case no: False
      then show ?thesis using False rest lv ok by (auto simp: step)
    qed
  qed
qed

definition dir_part :: "bool \<Rightarrow> string \<Rightarrow> string option" where
  "dir_part stripFileName path = (if stripFileName then strip_file_name path else Some (path @ ''/''))"

lemma dir_part_slash:
  assumes "dir_part b path = Some cpath"
  shows "last cpath = CHR ''/''"
proof (cases b)
  case True
  let ?k = "dropWhile (\<lambda>c. c \<noteq> CHR ''/'') (rev path)"
  have k: "cpath = rev ?k" "1 < length ?k"
    using assms True by (auto simp: dir_part_def strip_file_name_def Let_def split: if_splits)
  have "?k \<noteq> []" using k(2) by (metis list.size(3) not_one_less_zero)
  then show ?thesis using hd_dropWhile [of "\<lambda>c. c \<noteq> CHR ''/''" "rev path"] k(1) by (simp only: last_rev) simp
qed (use assms in \<open>auto simp: dir_part_def\<close>)

definition listed_dirs :: "string list syscalls" where
  "listed_dirs =
     \<lparr>w_stat = \<lambda>w q. if q \<in> set w then Is_Dir else No_Ent, w_mkdir = \<lambda>w q _. (True, q # w),
      w_utime = \<lambda>w _ _. (True, w), w_setcon = \<lambda>w _. w, w_malloc = \<lambda>_. True\<rparr>"

lemma listed_dirs_contract: "mkdir_contract listed_dirs"
  by (simp add: mkdir_contract_def keeps_dirs_def listed_dirs_def)

section \<open>Properties\<close>

text \<open>
  C27.  \<open>dirCreateHierarchy\<close> never reads past its path, always ends, and never removes a directory.  When
  it returns 0, the path has a directory part, and either that directory existed before and
  nothing was changed, or every level of it is a directory afterwards.
\<close>

theorem dirCreateHierarchy_creates:
  assumes "mkdir_contract S"
  shows "\<exists>r w'. dirCreateHierarchy S w path mode timestamp stripFileName sehnd = Some (r, w') \<and>
    (r = 0 \<or> r = - 1) \<and> keeps_dirs S w w' \<and>
    (r = 0 \<longrightarrow> (\<exists>cpath. dir_part stripFileName path = Some cpath \<and>
       (w' = w \<and> w_stat S w cpath = Is_Dir \<or> (\<forall>q. level q cpath \<longrightarrow> w_stat S w' q = Is_Dir))))"
proof (cases "path = [] \<or> \<not> w_malloc S (length path + 2) \<or> dir_part stripFileName path = None")
  case True
  then show ?thesis by (auto simp: dirCreateHierarchy_def dir_part_def split: if_splits)
next
  case False
  then obtain cpath where c: "dir_part stripFileName path = Some cpath" by auto
  obtain r w' where "make_levels S mode timestamp sehnd w [] cpath = Some (r, w')" "keeps_dirs S w w'"
    "r = 0 \<or> r = - 1" "r = 0 \<longrightarrow> (\<forall>q. level q cpath \<longrightarrow> w_stat S w' q = Is_Dir)"
    using make_levels_ok [OF assms, of cpath mode timestamp sehnd w "[]"] dir_part_slash [OF c] by auto
  then show ?thesis
    using False c
    by (cases "w_stat S w cpath") (auto simp: dirCreateHierarchy_def dir_part_def [symmetric] getPathDirStatus_def)
qed

theorem dirCreateHierarchy_creates_witness:
  "\<exists>r w'. dirCreateHierarchy listed_dirs [''/sys''] ''/sys/a/f'' 493 None True None = Some (r, w') \<and>
    (r = 0 \<or> r = - 1) \<and> keeps_dirs listed_dirs [''/sys''] w' \<and>
    (r = 0 \<longrightarrow> (\<exists>cpath. dir_part True ''/sys/a/f'' = Some cpath \<and>
       (w' = [''/sys''] \<and> w_stat listed_dirs [''/sys''] cpath = Is_Dir \<or>
        (\<forall>q. level q cpath \<longrightarrow> w_stat listed_dirs w' q = Is_Dir))))"
  by (rule dirCreateHierarchy_creates [OF listed_dirs_contract])

end
