(* ===== verification/CString.thy ===== *)
theory CString
  imports Prelude
begin

text \<open>
  Arrays of characters and the C strings in them: copying into an array, \<open>strlcpy\<close> and \<open>strlcat\<close>,
  \<open>strtok\<close> with the NUL characters that it leaves in the array, and \<open>fgets\<close>.
\<close>

definition c_string :: "string \<Rightarrow> string" where
  "c_string buf = takeWhile (\<lambda>c. c \<noteq> CHR 0x00) buf"

definition no_nul :: "string \<Rightarrow> bool" where
  "no_nul s \<longleftrightarrow> CHR 0x00 \<notin> set s"

text \<open>\<open>memcpy\<close> into an array: undefined outside it.\<close>

definition overwrite_ub :: "'a list \<Rightarrow> nat \<Rightarrow> 'a list \<Rightarrow> 'a list ub" where
  "overwrite_ub buf p xs =
     (if p + length xs \<le> length buf then Some (take p buf @ xs @ drop (p + length xs) buf) else None)"

text \<open>\<open>strlcpy\<close> and \<open>strlcat\<close> with the size of the array as the limit.\<close>

definition strlcpy :: "string \<Rightarrow> string \<Rightarrow> string" where
  "strlcpy buf s =
     (if buf = [] then [] else
      let k = min (length s) (length buf - 1) in take k s @ [CHR 0x00] @ drop (k + 1) buf)"

definition strlcat :: "string \<Rightarrow> string \<Rightarrow> string" where
  "strlcat buf s =
     (let d = length (c_string buf) in
      if length buf \<le> d then buf else
      let k = min (length s) (length buf - d - 1) in take d buf @ take k s @ [CHR 0x00] @ drop (d + k + 1) buf)"

text \<open>\<open>strtok\<close> from a position of an array: the token, the array afterwards, and where the next call continues.\<close>

definition strtok_at :: "string \<Rightarrow> string \<Rightarrow> nat \<Rightarrow> (string \<times> string \<times> nat) option" where
  "strtok_at delims buf p =
     (let s = c_string (drop p buf);
          k = length (takeWhile (\<lambda>c. c \<in> set delims) s);
          t = drop k s;
          tok = takeWhile (\<lambda>c. c \<notin> set delims) t;
          e = p + k + length tok
      in if t = [] then None
         else if length tok < length t then Some (tok, buf[e := CHR 0x00], e + 1)
         else Some (tok, buf, e))"

text \<open>\<open>fgets\<close> with a buffer of \<open>n\<close> characters: what it reads and what is left, or \<open>None\<close> at the end of the file.\<close>

definition fgets :: "nat \<Rightarrow> string \<Rightarrow> (string \<times> string) option" where
  "fgets n text =
     (if text = [] then None else
      let line = takeWhile (\<lambda>c. c \<noteq> newline) text;
          k = min (length line + 1) (n - 1)
      in Some (take k text, drop k text))"

section \<open>Strings in arrays\<close>

lemma overwrite_ub_fits: "p + length xs \<le> length buf \<Longrightarrow> overwrite_ub buf p xs = Some (take p buf @ xs @ drop (p + length xs) buf)"
  by (simp add: overwrite_ub_def)

lemma c_string_terminated: "no_nul s \<Longrightarrow> c_string (s @ CHR 0x00 # rest) = s"
  by (induction s) (auto simp: c_string_def no_nul_def)

lemma c_string_no_nul: "no_nul (c_string buf)"
  by (auto simp: c_string_def no_nul_def dest: set_takeWhileD)

lemma no_nul_append [simp]: "no_nul (xs @ ys) \<longleftrightarrow> no_nul xs \<and> no_nul ys" "no_nul []"
  by (auto simp: no_nul_def)

lemma c_string_id: "no_nul s \<Longrightarrow> c_string s = s"
  by (auto simp: c_string_def no_nul_def)

lemma c_string_Nil [simp]: "c_string [] = []"
  by (simp add: c_string_def)

lemma take_c_string: "take (length (c_string buf)) buf = c_string buf"
  unfolding c_string_def by (rule takeWhile_eq_take [symmetric])

text \<open>A string that is shorter than its array is followed by a NUL character.\<close>

lemma c_string_split:
  assumes "length (c_string buf) < length buf"
  shows "buf = c_string buf @ CHR 0x00 # drop (length (c_string buf) + 1) buf"
proof -
  let ?d = "length (c_string buf)"
  have "buf ! ?d = CHR 0x00"
    using nth_length_takeWhile [of "\<lambda>c. c \<noteq> CHR 0x00" buf] assms by (simp add: c_string_def)
  moreover have "buf = take ?d buf @ buf ! ?d # drop (Suc ?d) buf" using assms by (rule id_take_nth_drop)
  ultimately show ?thesis by (metis Suc_eq_plus1 take_c_string)
qed

lemma takeWhile_drop: "k \<le> length (takeWhile P xs) \<Longrightarrow> takeWhile P (drop k xs) = drop k (takeWhile P xs)"
proof (induction xs arbitrary: k)
  case (Cons x xs)
  then show ?case by (cases k) (auto split: if_splits)
qed simp

lemma c_string_drop: "k \<le> length (c_string buf) \<Longrightarrow> c_string (drop k buf) = drop k (c_string buf)"
  unfolding c_string_def by (rule takeWhile_drop)

lemma length_strlcpy [simp]: "length (strlcpy buf s) = length buf"
  by (cases buf) (auto simp: strlcpy_def Let_def min_def)

lemma length_strlcat [simp]: "length (strlcat buf s) = length buf"
  by (auto simp: strlcat_def Let_def min_def)

lemma c_string_strlcpy:
  assumes "no_nul s" and "length s < length buf"
  shows "c_string (strlcpy buf s) = s"
proof -
  have "strlcpy buf s = s @ CHR 0x00 # drop (length s + 1) buf" using assms(2) by (auto simp: strlcpy_def Let_def)
  then show ?thesis using c_string_terminated [OF assms(1)] by simp
qed

lemma c_string_strlcat:
  assumes "no_nul s" and "length (c_string buf) + length s < length buf"
  shows "c_string (strlcat buf s) = c_string buf @ s"
proof -
  let ?d = "length (c_string buf)"
  have "strlcat buf s = (c_string buf @ s) @ CHR 0x00 # drop (?d + length s + 1) buf"
    using assms(2) by (simp add: strlcat_def Let_def take_c_string)
  then show ?thesis using c_string_terminated [of "c_string buf @ s"] assms(1) c_string_no_nul by simp
qed

text \<open>A token that a delimiter ends.\<close>

lemma strtok_at_token:
  assumes s: "c_string (drop p buf) = tok @ c # rest" and tok: "tok \<noteq> []" "set tok \<inter> set delims = {}" and c: "c \<in> set delims"
  obtains buf' where "strtok_at delims buf p = Some (tok, buf', p + length tok + 1)"
    and "c_string (drop (p + length tok + 1) buf') = rest"
proof
  let ?e = "p + length tok"
  have k: "takeWhile (\<lambda>c. c \<in> set delims) (tok @ c # rest) = []"
    using tok by (cases tok) auto
  have t: "takeWhile (\<lambda>c. c \<notin> set delims) (tok @ c # rest) = tok"
    using tok(2) c by (subst takeWhile_append2) auto
  show "strtok_at delims buf p = Some (tok, buf[?e := CHR 0x00], ?e + 1)"
    by (simp add: strtok_at_def s k t Let_def)
  have "c_string (drop (length tok + 1) (drop p buf)) = rest"
    by (subst c_string_drop) (simp_all add: s)
  then show "c_string (drop (?e + 1) (buf[?e := CHR 0x00])) = rest" by (simp add: ac_simps)
qed

lemma strtok_at_end: "c_string (drop p buf) = [] \<Longrightarrow> strtok_at delims buf p = None"
  by (simp add: strtok_at_def)

lemma length_strtok_at: "strtok_at delims buf p = Some (tok, buf', q) \<Longrightarrow> length buf' = length buf"
  by (auto simp: strtok_at_def Let_def split: if_splits)

text \<open>\<open>fgets\<close> makes progress with a buffer of at least two characters, and reads a complete line that fits.\<close>

lemma fgets_less: "fgets n text = Some (line, rest) \<Longrightarrow> 2 \<le> n \<Longrightarrow> length rest < length text"
  by (auto simp: fgets_def Let_def split: if_splits)

lemma fgets_line:
  assumes "newline \<notin> set line" and "length line + 1 < n"
  shows "fgets n (line @ newline # rest) = Some (line @ [newline], rest)"
proof -
  have "takeWhile (\<lambda>c. c \<noteq> newline) (line @ newline # rest) = line"
    using assms(1) by (subst takeWhile_append2) auto
  then show ?thesis using assms(2) by (simp add: fgets_def Let_def min_def)
qed

end
