(* ===== verification/ZipExtract.thy ===== *)
theory ZipExtract
  imports ZipData DirUtil CString
begin

text \<open>
  Extracting a directory of an archive (\<^verbatim>\<open>minzip/Zip.c\<close>, \<open>targetEntryPath\<close> and
  \<open>mzExtractRecursive\<close>).

  The path helper is modelled with its buffer, so that every store into it is checked.  The file
  system is the abstract state of \<^verbatim>\<open>DirUtil\<close>, extended by the calls that create links and files; the
  callback folds the target paths into its cookie.
\<close>

section \<open>The path helper\<close>

record MzPathHelper =
  targetDir :: string
  zipDir :: string
  hbuf :: "string option"
  targetDirLen :: nat
  zipDirLen :: nat

text \<open>\<open>bufLen\<close> is the size of the buffer; \<open>c_string\<close> is the string a NUL-terminated buffer holds.\<close>

definition bufLen :: "MzPathHelper \<Rightarrow> nat" where
  "bufLen h = (case hbuf h of None \<Rightarrow> 0 | Some b \<Rightarrow> length b)"

text \<open>
  \<open>junk\<close> is what fresh memory holds.  \<open>None\<close> in the result is the NULL that reports a failed
  allocation.
\<close>

definition grow :: "(nat \<Rightarrow> bool) \<Rightarrow> char \<Rightarrow> nat \<Rightarrow> MzPathHelper \<Rightarrow> MzPathHelper option" where
  "grow malloc_ok junk needLen h =
     (if bufLen h < needLen then
        if \<not> malloc_ok (2 * needLen) then None
        else Some (h\<lparr>hbuf := Some ((case hbuf h of None \<Rightarrow> [] | Some b \<Rightarrow> b) @
                       replicate (2 * needLen - bufLen h) junk)\<rparr>)
      else Some h)"

definition put_target_dir :: "MzPathHelper \<Rightarrow> string \<Rightarrow> (MzPathHelper \<times> string) ub" where
  "put_target_dir h buf = do {
     buf \<leftarrow> overwrite_ub buf 0 (take (targetDirLen h) (targetDir h));
     if targetDirLen h = 0 \<or> buf ! (targetDirLen h - 1) \<noteq> CHR ''/''
     then do {
       buf \<leftarrow> overwrite_ub buf (targetDirLen h) ''/'';
       Some (h\<lparr>targetDirLen := targetDirLen h + 1\<rparr>, buf)}
     else Some (h, buf)}"

definition targetEntryPath ::
  "(nat \<Rightarrow> bool) \<Rightarrow> char \<Rightarrow> MzPathHelper \<Rightarrow> ZipEntry \<Rightarrow> (string option \<times> MzPathHelper) ub" where
  "targetEntryPath malloc_ok junk helper e =
     (let firstTime = (hbuf helper = None) in
      if fileNameLen e < zipDirLen helper then None
      else case grow malloc_ok junk (targetDirLen helper + 1 + fileNameLen e - zipDirLen helper + 1) helper of
          None \<Rightarrow> Some (None, helper)
        | Some helper \<Rightarrow> do {
            buf \<leftarrow> hbuf helper;
            (helper, buf) \<leftarrow> (if firstTime then put_target_dir helper buf else Some (helper, buf));
            let suffix = drop (zipDirLen helper) (fileName e);
            buf \<leftarrow> overwrite_ub buf (targetDirLen helper) suffix;
            buf \<leftarrow> overwrite_ub buf (targetDirLen helper + length suffix) [CHR 0x00];
            Some (Some (c_string buf), helper\<lparr>hbuf := Some buf\<rparr>)})"

section \<open>Extraction\<close>

definition MZ_EXTRACT_FILES_ONLY :: nat where "MZ_EXTRACT_FILES_ONLY = 1"
definition MZ_EXTRACT_DRY_RUN :: nat where "MZ_EXTRACT_DRY_RUN = 2"
definition UNZIP_DIRMODE :: nat where "UNZIP_DIRMODE = 493"
definition UNZIP_FILEMODE :: nat where "UNZIP_FILEMODE = 420"

record 'w zipsys = "'w syscalls" +
  w_symlink :: "'w \<Rightarrow> string \<Rightarrow> string \<Rightarrow> bool \<times> 'w"
  w_creat :: "'w \<Rightarrow> string \<Rightarrow> nat \<Rightarrow> wrfd option \<times> 'w"
  w_close :: "'w \<Rightarrow> string \<Rightarrow> wrfd \<Rightarrow> 'w"

text \<open>What the code has when it is called: system calls, zlib, archive descriptor and options.\<close>

record ('w, 'z) xenv =
  xsys :: "'w zipsys"
  xzlib :: "'z zlib"
  xfd :: zipfd
  xpos :: nat
  xflags :: nat
  xtimestamp :: "nat option"
  xsehnd :: selabel
  xjunk :: byte

text \<open>
  Extracting one entry: \<open>Inr w\<close> when the loop goes on, \<open>Inl (ok, w)\<close> when it is left, with the value
  the variable \<open>ok\<close> of the function then has.
\<close>

definition extract_symlink ::
  "('w, 'z) xenv \<Rightarrow> 'w \<Rightarrow> string \<Rightarrow> ZipEntry \<Rightarrow> (bool \<times> 'w + 'w) ub" where
  "extract_symlink X w targetFile e =
     (if uncompLen e = 0 then Some (Inl (False, w))
      else let n = nat ((uncompLen e + 1) mod 2 ^ 32) in
        if \<not> w_malloc (xsys X) n then Some (Inl (False, w))
        else do {
          (ok, pos, linkTarget) \<leftarrow>
            mzReadZipEntry (xzlib X) (xfd X) (xpos X) e (replicate n (xjunk X)) (uncompLen e);
          if \<not> ok then Some (Inl (False, w))
          else if uncompLen e < 0 then None
          else do {
            linkTarget \<leftarrow> overwrite_ub linkTarget (nat (uncompLen e)) [0];
            case w_symlink (xsys X) w (c_string (bytes_string linkTarget)) targetFile of
              (False, w) \<Rightarrow> Some (Inl (False, w))
            | (True, w) \<Rightarrow> Some (Inr w)}})"

text \<open>
  The result of the extraction is assigned to a variable \<open>ok\<close> declared in the inner block, so that
  leaving the loop there keeps the outer one, which is true.
\<close>

definition extract_file ::
  "('w, 'z) xenv \<Rightarrow> 'w \<Rightarrow> string \<Rightarrow> ZipEntry \<Rightarrow> (bool \<times> 'w + 'w) ub" where
  "extract_file X w targetFile e =
     (let (secontext, w) = label_for (xsys X) (xsehnd X) w targetFile UNZIP_FILEMODE;
          (fd, w) = w_creat (xsys X) w targetFile UNZIP_FILEMODE;
          w = unlabel (xsys X) secontext w
      in case fd of
          None \<Rightarrow> Some (Inl (False, w))
        | Some fd \<Rightarrow> do {
            (ok, pos, fd) \<leftarrow> mzExtractZipEntryToFile (xzlib X) (xfd X) (xpos X) e fd;
            let w = w_close (xsys X) w targetFile fd;
            if \<not> ok then Some (Inl (True, w))
            else case xtimestamp X of
                None \<Rightarrow> Some (Inr w)
              | Some t \<Rightarrow>
                  (case w_utime (xsys X) w targetFile t of
                     (False, w) \<Rightarrow> Some (Inl (True, w))
                   | (True, w) \<Rightarrow> Some (Inr w))})"

definition files_only :: "('w, 'z) xenv \<Rightarrow> bool" where
  "files_only X \<longleftrightarrow> xflags X AND MZ_EXTRACT_FILES_ONLY \<noteq> 0"

definition dry_run :: "('w, 'z) xenv \<Rightarrow> bool" where
  "dry_run X \<longleftrightarrow> xflags X AND MZ_EXTRACT_DRY_RUN \<noteq> 0"

definition extract_entry ::
  "('w, 'z) xenv \<Rightarrow> 'w \<Rightarrow> string \<Rightarrow> ZipEntry \<Rightarrow> (bool \<times> 'w + 'w) ub" where
  "extract_entry X w targetFile e =
     (if fileName e = [] then None
      else if last (fileName e) = CHR ''/'' then
        if files_only X then Some (Inr w)
        else do {
          (ret, w) \<leftarrow> dirCreateHierarchy (xsys X) w targetFile UNZIP_DIRMODE (xtimestamp X) False (xsehnd X);
          Some (if ret \<noteq> 0 then Inl (False, w) else Inr w)}
      else do {
        (ret, w) \<leftarrow> dirCreateHierarchy (xsys X) w targetFile UNZIP_DIRMODE (xtimestamp X) True (xsehnd X);
        if ret \<noteq> 0 then Some (Inl (False, w))
        else if \<not> files_only X \<and> mzIsZipEntrySymlink e then extract_symlink X w targetFile e
        else extract_file X w targetFile e})"

type_synonym 'k callback = "('k \<Rightarrow> string \<Rightarrow> 'k) option"

definition call_back :: "'k callback \<Rightarrow> 'k \<Rightarrow> string \<Rightarrow> 'k" where
  "call_back cb cookie fn = (case cb of None \<Rightarrow> cookie | Some f \<Rightarrow> f cookie fn)"

fun extract_loop ::
  "('w, 'z) xenv \<Rightarrow> 'k callback \<Rightarrow> string \<Rightarrow> bool \<Rightarrow> MzPathHelper \<Rightarrow> ZipEntry list \<Rightarrow> 'w \<Rightarrow> 'k \<Rightarrow> (bool \<times> 'w \<times> 'k) ub" where
  "extract_loop X cb zpath seenMatch helper [] w cookie = Some (True, w, cookie)"
| "extract_loop X cb zpath seenMatch helper (e # es) w cookie =
     (if fileNameLen e < length zpath then
        if seenMatch then Some (True, w, cookie)
        else extract_loop X cb zpath seenMatch helper es w cookie
      else if take (length zpath) (fileName e) \<noteq> zpath then
        if seenMatch then Some (True, w, cookie)
        else extract_loop X cb zpath seenMatch helper es w cookie
      else do {
        (target, helper) \<leftarrow> targetEntryPath (w_malloc (xsys X)) (char_of (unat (xjunk X))) helper e;
        case target of
          None \<Rightarrow> Some (False, w, cookie)
        | Some targetFile \<Rightarrow>
            if dry_run X then extract_loop X cb zpath True helper es w (call_back cb cookie targetFile)
            else do {
              r \<leftarrow> extract_entry X w targetFile e;
              case r of
                Inl (ok, w) \<Rightarrow> Some (ok, w, cookie)
              | Inr w \<Rightarrow> extract_loop X cb zpath True helper es w (call_back cb cookie targetFile)}})"

definition zpath_of :: "string \<Rightarrow> string" where
  "zpath_of zdir = (if zdir \<noteq> [] \<and> last zdir \<noteq> CHR ''/'' then zdir @ ''/'' else zdir)"

definition mzExtractRecursive ::
  "('w, 'z) xenv \<Rightarrow> ZipArchive \<Rightarrow> string \<Rightarrow> string \<Rightarrow> 'k callback \<Rightarrow> 'w \<Rightarrow> 'k \<Rightarrow> (bool \<times> 'w \<times> 'k) ub" where
  "mzExtractRecursive X a zdir tdir cb w cookie =
     (if zdir \<noteq> [] \<and> hd zdir = CHR ''/'' then Some (False, w, cookie)
      else if tdir = [] \<or> hd tdir \<noteq> CHR ''/'' then Some (False, w, cookie)
      else if \<not> w_malloc (xsys X) (length zdir + 2) then Some (False, w, cookie)
      else
        let zpath = zpath_of zdir;
            helper = \<lparr>targetDir = tdir, zipDir = zpath, hbuf = None, targetDirLen = length tdir,
                      zipDirLen = length zpath\<rparr>
        in extract_loop X cb zpath False helper (take (zNumEntries a) (zEntries a)) w cookie)"

section \<open>The path helper is correct\<close>

definition with_slash :: "string \<Rightarrow> string" where
  "with_slash tdir = (if tdir = [] \<or> last tdir \<noteq> CHR ''/'' then tdir @ ''/'' else tdir)"

text \<open>
  The helper before its first use, and afterwards: the buffer then starts with the target directory
  and its slash.
\<close>

definition helper_ok :: "string \<Rightarrow> string \<Rightarrow> MzPathHelper \<Rightarrow> bool" where
  "helper_ok tdir zpath h \<longleftrightarrow> targetDir h = tdir \<and> zipDirLen h = length zpath \<and>
     (case hbuf h of
        None \<Rightarrow> targetDirLen h = length tdir
      | Some b \<Rightarrow> targetDirLen h = length (with_slash tdir) \<and> prefix (with_slash tdir) b)"

lemma put_target_dir_ok:
  assumes "targetDir h = tdir" and "targetDirLen h = length tdir" and "length tdir + 1 \<le> length buf"
  obtains buf' where "put_target_dir h buf = Some (h\<lparr>targetDirLen := length (with_slash tdir)\<rparr>, buf')"
    and "prefix (with_slash tdir) buf'" and "length buf' = length buf"
proof -
  have 1: "overwrite_ub buf 0 tdir = Some (tdir @ drop (length tdir) buf)"
    using assms(3) by (simp add: overwrite_ub_def)
  have 2: "(tdir @ drop (length tdir) buf) ! (length tdir - 1) = last tdir" if "tdir \<noteq> []"
    using that by (simp add: nth_append last_conv_nth)
  have 3: "overwrite_ub (tdir @ drop (length tdir) buf) (length tdir) ''/'' = Some (tdir @ ''/'' @ drop (length tdir + 1) buf)"
    using assms(3) by (simp add: overwrite_ub_def)
  have c: "(targetDirLen h = 0 \<or> (tdir @ drop (length tdir) buf) ! (targetDirLen h - 1) \<noteq> CHR ''/'') \<longleftrightarrow>
      tdir = [] \<or> last tdir \<noteq> CHR ''/''"
    using 2 assms(2) by auto
  have eq: "put_target_dir h buf =
      (if tdir = [] \<or> last tdir \<noteq> CHR ''/'' then Some (h\<lparr>targetDirLen := length tdir + 1\<rparr>, tdir @ ''/'' @ drop (length tdir + 1) buf)
       else Some (h, tdir @ drop (length tdir) buf))"
    unfolding put_target_dir_def using assms(1,2) 1 3 c by simp
  show ?thesis
  proof (cases "tdir = [] \<or> last tdir \<noteq> CHR ''/''")
    case True
    then show ?thesis
      using that [of "tdir @ ''/'' @ drop (length tdir + 1) buf"] eq assms by (auto simp: with_slash_def)
  next
    case False
    then have "h\<lparr>targetDirLen := length (with_slash tdir)\<rparr> = h" using assms(2) by (simp add: with_slash_def)
    then show ?thesis
      using that [of "tdir @ drop (length tdir) buf"] eq False assms by (auto simp: with_slash_def)
  qed
qed

lemma write_suffix:
  assumes "prefix base buf" and "length base + length sfx + 1 \<le> length buf" and "no_nul base" and "no_nul sfx"
  shows "\<exists>buf'. (do {
      buf \<leftarrow> overwrite_ub buf (length base) sfx;
      buf \<leftarrow> overwrite_ub buf (length base + length sfx) [CHR 0x00];
      Some (c_string buf, buf)}) = Some (base @ sfx, buf') \<and> prefix base buf'"
proof -
  obtain r where r: "buf = base @ r" using assms(1) by (auto simp: prefix_def)
  have "no_nul (base @ sfx)" using assms(3,4) by (simp add: no_nul_def)
  then show ?thesis
    using assms(2) r c_string_terminated [of "base @ sfx"] by (auto simp: overwrite_ub_def)
qed

lemma targetEntryPath_ok:
  assumes h: "helper_ok tdir zpath h" and m: "\<And>n. malloc_ok n" and len: "length zpath \<le> fileNameLen e"
    and nul: "no_nul tdir" "no_nul (fileName e)"
  obtains h' where "targetEntryPath malloc_ok junk h e =
      Some (Some (with_slash tdir @ drop (length zpath) (fileName e)), h')" and "helper_ok tdir zpath h'"
proof -
  let ?suffix = "drop (length zpath) (fileName e)"
  define need where "need = targetDirLen h + 1 + fileNameLen e - zipDirLen h + 1"
  obtain b where g: "grow malloc_ok junk need h = Some (h\<lparr>hbuf := Some b\<rparr>)" and b: "need \<le> length b"
    "\<And>b0. hbuf h = Some b0 \<Longrightarrow> prefix b0 b"
  proof (cases "bufLen h < need")
    case True
    then show ?thesis
      using that [of "(case hbuf h of None \<Rightarrow> [] | Some b \<Rightarrow> b) @ replicate (2 * need - bufLen h) junk"] m
      by (auto simp: grow_def bufLen_def split: option.splits)
  next
    case False
    moreover have "0 < need" by (simp add: need_def)
    ultimately obtain b0 where "hbuf h = Some b0" "need \<le> length b0"
      by (auto simp: bufLen_def split: option.splits)
    then show ?thesis using that [of b0] False by (simp add: grow_def)
  qed
  have nul': "no_nul (with_slash tdir)" "no_nul ?suffix"
    using nul by (auto simp: no_nul_def with_slash_def dest: in_set_dropD)
  have slash: "length (with_slash tdir) \<le> length tdir + 1" by (simp add: with_slash_def)
  obtain b1 where b1: "(if hbuf h = None then put_target_dir (h\<lparr>hbuf := Some b\<rparr>) b else Some (h\<lparr>hbuf := Some b\<rparr>, b)) =
      Some (h\<lparr>hbuf := Some b, targetDirLen := length (with_slash tdir)\<rparr>, b1)"
    and p1: "prefix (with_slash tdir) b1" "length b1 = length b"
  proof (cases "hbuf h")
    case None
    then have "targetDirLen h = length tdir" "targetDir h = tdir" using h by (auto simp: helper_ok_def)
    moreover have "length tdir + 1 \<le> length b" using b(1) h len None by (simp add: need_def helper_ok_def)
    ultimately show ?thesis
      using put_target_dir_ok [of "h\<lparr>hbuf := Some b\<rparr>" tdir b] that None by auto
  next
    case (Some b0)
    then have "prefix (with_slash tdir) b" using h b(2) by (auto simp: helper_ok_def)
    moreover have "h\<lparr>hbuf := Some b, targetDirLen := length (with_slash tdir)\<rparr> = h\<lparr>hbuf := Some b\<rparr>"
      using h Some by (simp add: helper_ok_def)
    ultimately show ?thesis using that [of b] Some by simp
  qed
  have fit: "length (with_slash tdir) + length ?suffix + 1 \<le> length b1"
    using b(1) h len slash p1(2) by (auto simp: need_def helper_ok_def fileNameLen_def split: option.splits)
  obtain b2 where b2: "(do {
      buf \<leftarrow> overwrite_ub b1 (length (with_slash tdir)) ?suffix;
      buf \<leftarrow> overwrite_ub buf (length (with_slash tdir) + length ?suffix) [CHR 0x00];
      Some (c_string buf, buf)}) = Some (with_slash tdir @ ?suffix, b2)" "prefix (with_slash tdir) b2"
    using write_suffix [OF p1(1) fit nul'] by blast
  then obtain b3 where b3: "overwrite_ub b1 (length (with_slash tdir)) ?suffix = Some b3"
    "overwrite_ub b3 (length (with_slash tdir) + length ?suffix) [CHR 0x00] = Some b2" "c_string b2 = with_slash tdir @ ?suffix"
    by (auto elim!: bind_eq_SomeE)
  have z: "zipDirLen h = length zpath" "targetDir h = tdir" using h by (auto simp: helper_ok_def)
  have "targetEntryPath malloc_ok junk h e = do {
      (helper, buf) \<leftarrow> (if hbuf h = None then put_target_dir (h\<lparr>hbuf := Some b\<rparr>) b else Some (h\<lparr>hbuf := Some b\<rparr>, b));
      buf \<leftarrow> overwrite_ub buf (targetDirLen helper) (drop (zipDirLen helper) (fileName e));
      buf \<leftarrow> overwrite_ub buf (targetDirLen helper + length (drop (zipDirLen helper) (fileName e))) [CHR 0x00];
      Some (Some (c_string buf), helper\<lparr>hbuf := Some buf\<rparr>)}"
    using len z(1) g by (simp add: targetEntryPath_def Let_def need_def)
  then have "targetEntryPath malloc_ok junk h e = Some (Some (with_slash tdir @ ?suffix),
      h\<lparr>hbuf := Some b2, targetDirLen := length (with_slash tdir)\<rparr>)"
    unfolding b1 using b3 z(1) by simp
  then show ?thesis using that b2(2) z by (simp add: helper_ok_def)
qed

section \<open>Selection of entries\<close>

text \<open>The reference: the given entries with their target paths, one after the other.\<close>

fun extract_all ::
  "('w, 'z) xenv \<Rightarrow> 'k callback \<Rightarrow> (ZipEntry \<times> string) list \<Rightarrow> 'w \<Rightarrow> 'k \<Rightarrow> (bool \<times> 'w \<times> 'k) ub" where
  "extract_all X cb [] w cookie = Some (True, w, cookie)"
| "extract_all X cb ((e, targetFile) # es) w cookie =
     (if dry_run X then extract_all X cb es w (call_back cb cookie targetFile)
      else do {
        r \<leftarrow> extract_entry X w targetFile e;
        case r of
          Inl (ok, w) \<Rightarrow> Some (ok, w, cookie)
        | Inr w \<Rightarrow> extract_all X cb es w (call_back cb cookie targetFile)})"

definition selected :: "string \<Rightarrow> string \<Rightarrow> ZipEntry list \<Rightarrow> (ZipEntry \<times> string) list" where
  "selected zpath tdir es =
     map (\<lambda>e. (e, with_slash tdir @ drop (length zpath) (fileName e))) (filter (\<lambda>e. prefix zpath (fileName e)) es)"

lemma prefix_between:
  fixes a b c :: string
  assumes "prefix z a" and "prefix z c" and "a \<le> b" and "b \<le> c"
  shows "prefix z b"
  using assms
proof (induction z arbitrary: a b c)
  case (Cons x z)
  obtain a' c' where ac: "a = x # a'" "c = x # c'" "prefix z a'" "prefix z c'"
    using Cons.prems(1,2) by (auto simp: prefix_def)
  obtain y b' where b: "b = y # b'" using Cons.prems(3) ac(1) by (cases b) auto
  have "y = x" using Cons.prems(3,4) ac b by auto
  moreover have "prefix z b'"
    using Cons.IH [OF ac(3,4), of b'] Cons.prems(3,4) ac b by auto
  ultimately show ?case using b by simp
qed simp

lemma prefix_iff_take: "prefix z s \<longleftrightarrow> length z \<le> length s \<and> take (length z) s = z"
  by (metis append_eq_conv_conj append_take_drop_id length_append le_add1 prefix_def prefix_length_le)

lemma extract_loop_selects:
  assumes m: "\<And>n. w_malloc (xsys X) n" and nul: "no_nul tdir"
  shows "sorted (map fileName es) \<Longrightarrow> list_all (\<lambda>e. no_nul (fileName e)) es \<Longrightarrow> helper_ok tdir zpath h \<Longrightarrow>
    (seen \<longrightarrow> (\<exists>a. prefix zpath a \<and> (\<forall>e \<in> set es. a \<le> fileName e))) \<Longrightarrow>
    extract_loop X cb zpath seen h es w cookie = extract_all X cb (selected zpath tdir es) w cookie"
proof (induction es arbitrary: seen h w cookie)
  case Nil
  then show ?case by (simp add: selected_def)
next
  case (Cons e es)
  show ?case
  proof (cases "prefix zpath (fileName e)")
    case False
    have miss: "fileNameLen e < length zpath \<or> take (length zpath) (fileName e) \<noteq> zpath"
      using False by (auto simp: prefix_iff_take fileNameLen_def)
    show ?thesis
    proof (cases seen)
      case True
      then obtain a where a: "prefix zpath a" "a \<le> fileName e" using Cons.prems(4) by auto
      have "\<not> prefix zpath (fileName e')" if "e' \<in> set es" for e'
        using prefix_between [OF a(1) _ a(2)] that False Cons.prems(1) by auto
      then have "selected zpath tdir (e # es) = []" using False by (auto simp: selected_def filter_empty_conv)
      then show ?thesis using True miss by auto
    next
      case no: False
      have "selected zpath tdir (e # es) = selected zpath tdir es" using False by (simp add: selected_def)
      then show ?thesis using no miss Cons.IH [of h False w cookie] Cons.prems by auto
    qed
  next
    case True
    have hit: "length zpath \<le> fileNameLen e" "take (length zpath) (fileName e) = zpath"
      using True by (auto simp: prefix_iff_take fileNameLen_def)
    obtain h' where h': "targetEntryPath (w_malloc (xsys X)) (char_of (unat (xjunk X))) h e =
        Some (Some (with_slash tdir @ drop (length zpath) (fileName e)), h')" "helper_ok tdir zpath h'"
      by (rule targetEntryPath_ok [where malloc_ok = "w_malloc (xsys X)" and junk = "char_of (unat (xjunk X))",
            OF Cons.prems(3) m hit(1) nul]) (use Cons.prems(2) in simp)
    have IH: "extract_loop X cb zpath True h' es w' k = extract_all X cb (selected zpath tdir es) w' k" for w' k
      using Cons.IH [of h' True w' k] Cons.prems(1,2) h'(2) True by auto
    have "selected zpath tdir (e # es) =
        (e, with_slash tdir @ drop (length zpath) (fileName e)) # selected zpath tdir es"
      using True by (simp add: selected_def)
    then show ?thesis using hit h'(1) by (simp add: IH)
  qed
qed

lemma valid_no_nul: "validFilename name \<Longrightarrow> no_nul name"
  by (auto simp: validFilename_def no_nul_def list_all_iff)

lemma extract_recursive_selects:
  assumes "archive_ok len a" and m: "\<And>n. w_malloc (xsys X) n" and nul: "no_nul tdir"
    and "tdir \<noteq> []" and "hd tdir = CHR ''/''" and "zdir = [] \<or> hd zdir \<noteq> CHR ''/''"
  shows "mzExtractRecursive X a zdir tdir cb w cookie =
    extract_all X cb (selected (zpath_of zdir) tdir (zEntries a)) w cookie"
proof -
  have "sorted (map fileName (zEntries a))" "list_all (\<lambda>e. no_nul (fileName e)) (zEntries a)"
    "take (zNumEntries a) (zEntries a) = zEntries a"
    using assms(1) valid_no_nul by (auto simp: archive_ok_def entry_ok_def list_all_iff)
  then show ?thesis
    using assms(4-6) extract_loop_selects [OF m nul, of "zEntries a" "zpath_of zdir"
        "\<lparr>targetDir = tdir, zipDir = zpath_of zdir, hbuf = None, targetDirLen = length tdir,
          zipDirLen = length (zpath_of zdir)\<rparr>" False]
    by (auto simp: mzExtractRecursive_def m helper_ok_def Let_def)
qed

section \<open>A sample extraction\<close>

definition sample_zipsys :: "string list zipsys" where
  "sample_zipsys =
     \<lparr>w_stat = \<lambda>w q. if q \<in> set w then Is_Dir else No_Ent, w_mkdir = \<lambda>w q _. (True, q # w),
      w_utime = \<lambda>w _ _. (True, w), w_setcon = \<lambda>w _. w, w_malloc = \<lambda>_. True,
      w_symlink = \<lambda>w _ _. (True, w),
      w_creat = \<lambda>w q _. (Some \<lparr>written = [], wcalls = 0, woracle = \<lambda>_ n. (int n, False)\<rparr>, w),
      w_close = \<lambda>w q _. q # w\<rparr>"

definition sample_xenv :: "nat \<Rightarrow> zipfd \<Rightarrow> (string list, nat) xenv" where
  "sample_xenv flags fd = \<lparr>xsys = sample_zipsys, xzlib = copying_zlib, xfd = fd, xpos = 0, xflags = flags,
     xtimestamp = None, xsehnd = None, xjunk = 0\<rparr>"

lemma sample_selected: "selected (zpath_of []) ''/tmp'' [sample_entry] = [(sample_entry, ''/tmp/a'')]"
  by (simp add: selected_def zpath_of_def with_slash_def sample_entry_def)

lemma sample_file_entry: "fileName sample_entry = ''a''" "\<not> mzIsZipEntrySymlink sample_entry"
  by (simp_all add: sample_entry_def mzIsZipEntrySymlink_def CENVEM_UNIX_def drop_bit_eq_div)

lemma sample_archive:
  obtains a where "archive_ok 102 a" "zEntries a = [sample_entry]"
proof (rule sample_parse)
  fix a
  assume "parseZipArchive (\<lambda>_ _. True) (\<lambda>a b. a + b < 2 ^ 32) (\<lambda>a b. a + b < 2 ^ 31) sample_map
      empty_archive = Some (Done (Some a))" "zEntries a = [sample_entry]"
  then show thesis
    using that [of a] parse_archive_ok [of "\<lambda>_ _. True" "\<lambda>a b. a + b < 2 ^ 32" "\<lambda>a b. a + b < 2 ^ 31" sample_map empty_archive a]
    by (simp add: sample_map_def sample_length)
qed

section \<open>Properties\<close>

text \<open>
  C13.  \<open>mzExtractRecursive\<close> extracts exactly the entries below \<open>zipDir\<close>, in archive order, each to the
  target directory followed by the rest of its name: stopping at the first mismatch after a match
  loses nothing because the entries are sorted, and the path buffer, reused and grown across
  entries, never overflows and always holds the right path.
\<close>

theorem mzExtractRecursive_selects:
  assumes "archive_ok len a" and "\<And>n. w_malloc (xsys X) n" and "no_nul tdir"
    and "tdir \<noteq> []" and "hd tdir = CHR ''/''" and "zdir = [] \<or> hd zdir \<noteq> CHR ''/''"
  shows "mzExtractRecursive X a zdir tdir cb w cookie =
    extract_all X cb (selected (zpath_of zdir) tdir (zEntries a)) w cookie"
  using assms by (rule extract_recursive_selects)

theorem mzExtractRecursive_selects_witness:
  "\<exists>a. zEntries a = [sample_entry] \<and>
     mzExtractRecursive (sample_xenv MZ_EXTRACT_DRY_RUN sample_fd) a [] ''/tmp'' (Some (\<lambda>k fn. fn # k)) [] [] =
       Some (True, [], [''/tmp/a''])"
proof (rule sample_archive)
  fix a
  assume a: "archive_ok 102 a" "zEntries a = [sample_entry]"
  have "mzExtractRecursive (sample_xenv MZ_EXTRACT_DRY_RUN sample_fd) a [] ''/tmp'' (Some (\<lambda>k fn. fn # k)) [] [] =
      extract_all (sample_xenv MZ_EXTRACT_DRY_RUN sample_fd) (Some (\<lambda>k fn. fn # k))
        (selected (zpath_of []) ''/tmp'' (zEntries a)) [] []"
    by (rule mzExtractRecursive_selects [OF a(1)]) (simp_all add: sample_xenv_def sample_zipsys_def no_nul_def)
  also have "\<dots> = Some (True, [], [''/tmp/a''])"
    by (simp add: a(2) sample_selected sample_xenv_def dry_run_def MZ_EXTRACT_DRY_RUN_def call_back_def)
  finally show ?thesis using a(2) by blast
qed

text \<open>
  C38.  A failed extraction is reported as success.  When the contents of the first selected regular file
  cannot be extracted, the loop is left, but the function still returns true: the failure is
  recorded in a variable of the inner block that hides the one that is returned.
\<close>

theorem mzExtractRecursive_hides_failure:
  assumes "archive_ok len a" and "\<And>n. w_malloc (xsys X) n" and "no_nul tdir"
    and "tdir \<noteq> []" and "hd tdir = CHR ''/''" and "zdir = [] \<or> hd zdir \<noteq> CHR ''/''"
    and "selected (zpath_of zdir) tdir (zEntries a) = (e, targetFile) # es" and "\<not> dry_run X"
    and "fileName e \<noteq> []" and "last (fileName e) \<noteq> CHR ''/''" and "files_only X \<or> \<not> mzIsZipEntrySymlink e"
    and "dirCreateHierarchy (xsys X) w targetFile UNZIP_DIRMODE (xtimestamp X) True (xsehnd X) = Some (0, w1)"
    and "xsehnd X = None" and "w_creat (xsys X) w1 targetFile UNZIP_FILEMODE = (Some fd, w2)"
    and "mzExtractZipEntryToFile (xzlib X) (xfd X) (xpos X) e fd = Some (False, pos, fd')"
  shows "mzExtractRecursive X a zdir tdir cb w cookie = Some (True, w_close (xsys X) w2 targetFile fd', cookie)"
proof -
  have "extract_file X w1 targetFile e = Some (Inl (True, w_close (xsys X) w2 targetFile fd'))"
    using assms(13-15) by (simp add: extract_file_def label_for_def unlabel_def)
  then have "extract_entry X w targetFile e = Some (Inl (True, w_close (xsys X) w2 targetFile fd'))"
    using assms(9-12) by (auto simp: extract_entry_def)
  then show ?thesis
    using extract_recursive_selects [OF assms(1-6), of cb w cookie] assms(7,8) by simp
qed

theorem mzExtractRecursive_hides_failure_witness:
  "\<exists>a. zEntries a = [sample_entry] \<and>
     mzExtractRecursive (sample_xenv 0 (sample_fd\<lparr>fdread := \<lambda>_ _. None\<rparr>)) a [] ''/tmp'' None [''/tmp/''] () =
       Some (True, [''/tmp/a'', ''/tmp/''], ())"
proof (rule sample_archive)
  fix a
  let ?X = "sample_xenv 0 (sample_fd\<lparr>fdread := \<lambda>_ _. None\<rparr>)"
  let ?fd = "\<lparr>written = [], wcalls = 0, woracle = \<lambda>_ n. (int n, False)\<rparr>"
  assume a: "archive_ok 102 a" "zEntries a = [sample_entry]"
  have dir: "dirCreateHierarchy (xsys ?X) [''/tmp/''] ''/tmp/a'' UNZIP_DIRMODE (xtimestamp ?X) True (xsehnd ?X) =
      Some (0, [''/tmp/''])"
    by (simp add: dirCreateHierarchy_def strip_file_name_def getPathDirStatus_def sample_xenv_def sample_zipsys_def)
  have "mzExtractZipEntryToFile (xzlib ?X) (xfd ?X) (xpos ?X) sample_entry ?fd = Some (False, 0, ?fd)"
    by (simp add: mzExtractZipEntryToFile_def mzProcessZipEntryContents_def processStoredEntry_def stored_loop.simps
        sample_xenv_def sample_entry_def STORED_def read_fd_def lseek_set_def)
  then have "mzExtractRecursive ?X a [] ''/tmp'' None [''/tmp/''] () =
      Some (True, w_close (xsys ?X) [''/tmp/''] ''/tmp/a'' ?fd, ())"
    using a(2) dir
    by (intro mzExtractRecursive_hides_failure [OF a(1), where e = sample_entry and es = "[]" and fd = ?fd and pos = 0])
       (simp_all add: sample_selected no_nul_def dry_run_def files_only_def sample_file_entry,
        simp_all add: sample_xenv_def sample_zipsys_def)
  then show ?thesis using a(2) by (auto simp: sample_xenv_def sample_zipsys_def)
qed

end
