(* ===== verification/Bspatch.thy ===== *)
theory Bspatch
  imports Bits
begin

text \<open>
  Applying binary patches (\<^verbatim>\<open>applypatch/bspatch.c\<close>) and the value readers of \<^verbatim>\<open>applypatch/utils.c\<close>.

  \<^item> \<open>off_t\<close> and \<open>ssize_t\<close> are 32 bits wide; values are integers, and an operation whose result
    leaves the range is undefined.
  \<^item> The decompressor of the external bzip2 library is a parameter: a state is made from the
    compressed bytes, and a step fills part of the output.
  \<^item> In the results, the outer \<open>None\<close> is undefined behaviour or a call that does not return, the
    inner \<open>None\<close> is an error code.
\<close>

section \<open>Values in files\<close>

definition Write4 :: "u32 \<Rightarrow> byte list" where
  "Write4 value = [ucast value, ucast (drop_bit 8 value), ucast (drop_bit 16 value), ucast (drop_bit 24 value)]"

definition Write8 :: "64 word \<Rightarrow> byte list" where
  "Write8 value =
     [ucast value, ucast (drop_bit 8 value), ucast (drop_bit 16 value), ucast (drop_bit 24 value),
      ucast (drop_bit 32 value), ucast (drop_bit 40 value), ucast (drop_bit 48 value), ucast (drop_bit 56 value)]"

definition Read2 :: "byte list \<Rightarrow> nat \<Rightarrow> int ub" where
  "Read2 src p = do {
     p0 \<leftarrow> nth_ub src p; p1 \<leftarrow> nth_ub src (p + 1);
     Some (sint (push_bit 8 (ucast p1) OR ucast p0 :: u32))}"

definition Read4 :: "byte list \<Rightarrow> nat \<Rightarrow> int ub" where
  "Read4 src p = do {
     p0 \<leftarrow> nth_ub src p; p1 \<leftarrow> nth_ub src (p + 1); p2 \<leftarrow> nth_ub src (p + 2); p3 \<leftarrow> nth_ub src (p + 3);
     Some (sint (push_bit 24 (ucast p3) OR push_bit 16 (ucast p2) OR push_bit 8 (ucast p1) OR ucast p0 :: u32))}"

definition Read8 :: "byte list \<Rightarrow> nat \<Rightarrow> int ub" where
  "Read8 src p = do {
     p0 \<leftarrow> nth_ub src p; p1 \<leftarrow> nth_ub src (p + 1); p2 \<leftarrow> nth_ub src (p + 2); p3 \<leftarrow> nth_ub src (p + 3);
     p4 \<leftarrow> nth_ub src (p + 4); p5 \<leftarrow> nth_ub src (p + 5); p6 \<leftarrow> nth_ub src (p + 6); p7 \<leftarrow> nth_ub src (p + 7);
     Some (sint (push_bit 56 (ucast p7) OR push_bit 48 (ucast p6) OR push_bit 40 (ucast p5) OR
       push_bit 32 (ucast p4) OR push_bit 24 (ucast p3) OR push_bit 16 (ucast p2) OR
       push_bit 8 (ucast p1) OR ucast p0 :: 64 word))}"

section \<open>Offsets\<close>

text \<open>\<open>y = y * 256; y += b\<close>, from the most significant byte down.\<close>

fun offtin_digits :: "int \<Rightarrow> byte list \<Rightarrow> int ub" where
  "offtin_digits y [] = Some y"
| "offtin_digits y (b # bs) = do {
     y \<leftarrow> i32 (y * 256);
     y \<leftarrow> i32 (y + uint b);
     offtin_digits y bs}"

definition offtin :: "byte list \<Rightarrow> nat \<Rightarrow> int ub" where
  "offtin buf p = do {
     bs \<leftarrow> segment_ub buf p 8;
     y \<leftarrow> offtin_digits (uint (bs ! 7 AND 0x7f)) (rev (take 7 bs));
     if bs ! 7 AND 0x80 \<noteq> 0 then i32 (- y) else Some y}"

section \<open>The decompressor\<close>

text \<open>
  \<open>bz_step s n\<close>: whether the library reported \<open>BZ_OK\<close> or \<open>BZ_STREAM_END\<close>, the new state, and the
  output, for \<open>n\<close> bytes of room.
\<close>

record 'b bz =
  bz_init :: "byte list \<Rightarrow> 'b"
  bz_step :: "'b \<Rightarrow> nat \<Rightarrow> bool \<times> 'b \<times> byte list"

partial_function (option) FillBuffer ::
  "'b bz \<Rightarrow> nat \<Rightarrow> 'b \<Rightarrow> byte list \<Rightarrow> (byte list \<times> 'b) option option" where
  "FillBuffer B avail_out stream filled =
     (if avail_out = 0 then Some (Some (filled, stream))
      else case bz_step B stream avail_out of
          (ok, stream, out) \<Rightarrow>
            if \<not> ok then Some None
            else FillBuffer B (avail_out - length out) stream (filled @ out))"

section \<open>Applying a patch\<close>

text \<open>
  Adding old data to a piece of the diff string.  \<open>old_size\<close> is what the caller claims; the memory
  behind \<open>old_data\<close> may be shorter.
\<close>

fun add_old :: "byte list \<Rightarrow> int \<Rightarrow> int \<Rightarrow> byte list \<Rightarrow> byte list ub" where
  "add_old old_data old_size pos [] = Some []"
| "add_old old_data old_size pos (d # ds) = do {
     pos \<leftarrow> i32 pos;
     x \<leftarrow> (if 0 \<le> pos \<and> pos < old_size
           then do { b \<leftarrow> nth_ub old_data (nat pos); Some (d + b) }
           else Some d);
     xs \<leftarrow> add_old old_data old_size (pos + 1) ds;
     Some (x # xs)}"

text \<open>
  The main loop; \<open>new_data\<close> holds the first \<open>newpos\<close> bytes of the output.
\<close>

partial_function (option) bspatch_loop ::
  "'b bz \<Rightarrow> byte list \<Rightarrow> int \<Rightarrow> int \<Rightarrow> int \<Rightarrow> int \<Rightarrow> 'b \<Rightarrow> 'b \<Rightarrow> 'b \<Rightarrow> byte list \<Rightarrow> byte list option option" where
  "bspatch_loop B old_data old_size new_size oldpos newpos cstream dstream estream new_data =
     (if \<not> newpos < new_size then Some (Some new_data)
      else
        Option.bind (FillBuffer B 24 cstream []) (\<lambda>r. case r of None \<Rightarrow> Some None | Some (buf, cstream) \<Rightarrow>
        Option.bind (offtin buf 0) (\<lambda>ctrl0.
        Option.bind (offtin buf 8) (\<lambda>ctrl1.
        Option.bind (offtin buf 16) (\<lambda>ctrl2.
          if ctrl0 < 0 \<or> ctrl1 < 0 then Some None
          else
        Option.bind (i32 (newpos + ctrl0)) (\<lambda>n1.
          if n1 > new_size then Some None
          else
        Option.bind (FillBuffer B (nat ctrl0) dstream []) (\<lambda>r. case r of None \<Rightarrow> Some None | Some (diff, dstream) \<Rightarrow>
        Option.bind (add_old old_data old_size oldpos diff) (\<lambda>diff.
        Option.bind (i32 (oldpos + ctrl0)) (\<lambda>oldpos.
        Option.bind (i32 (n1 + ctrl1)) (\<lambda>n2.
          if n2 > new_size then Some None
          else
        Option.bind (FillBuffer B (nat ctrl1) estream []) (\<lambda>r. case r of None \<Rightarrow> Some None | Some (extra, estream) \<Rightarrow>
        Option.bind (i32 (oldpos + ctrl2)) (\<lambda>oldpos.
          bspatch_loop B old_data old_size new_size oldpos n2 cstream dstream estream (new_data @ diff @ extra)))))))))))))"

text \<open>A patch is a value: its bytes and its size.\<close>

definition BSDIFF40 :: "byte list" where
  "BSDIFF40 = map (\<lambda>c. of_nat (of_char c)) ''BSDIFF40''"

definition ApplyBSDiffPatchMem ::
  "'b bz \<Rightarrow> (int \<Rightarrow> bool) \<Rightarrow> byte list \<Rightarrow> int \<Rightarrow> byte list \<Rightarrow> nat \<Rightarrow> byte list option ub" where
  "ApplyBSDiffPatchMem B malloc_ok old_data old_size patch patch_offset = do {
     magic \<leftarrow> segment_ub patch patch_offset 8;
     if magic \<noteq> BSDIFF40 then Some None
     else do {
       ctrl_len \<leftarrow> offtin patch (patch_offset + 8);
       data_len \<leftarrow> offtin patch (patch_offset + 16);
       new_size \<leftarrow> offtin patch (patch_offset + 24);
       if ctrl_len < 0 \<or> data_len < 0 \<or> new_size < 0 then Some None
       else do {
         cin \<leftarrow> segment_ub patch (patch_offset + 32) (nat ctrl_len);
         din \<leftarrow> segment_ub patch (patch_offset + 32 + nat ctrl_len) (nat data_len);
         let ein = drop (patch_offset + 32 + nat ctrl_len + nat data_len) patch;
         if \<not> malloc_ok new_size then Some None
         else bspatch_loop B old_data old_size new_size 0 0 (bz_init B cin) (bz_init B din) (bz_init B ein) []}}}"

text \<open>
  Sending the result to a sink, and to a hash context if there is one.  The sink returns how many
  bytes it took; the result is the return value with the new states.
\<close>

type_synonym 't sink_fn = "byte list \<Rightarrow> 't \<Rightarrow> int \<times> 't"

definition ApplyBSDiffPatch ::
  "'b bz \<Rightarrow> (int \<Rightarrow> bool) \<Rightarrow> byte list \<Rightarrow> int \<Rightarrow> byte list \<Rightarrow> nat \<Rightarrow> 't sink_fn \<Rightarrow> ('h \<Rightarrow> byte list \<Rightarrow> 'h) \<Rightarrow>
   't \<Rightarrow> 'h option \<Rightarrow> (int \<times> 't \<times> 'h option) ub" where
  "ApplyBSDiffPatch B malloc_ok old_data old_size patch patch_offset sink sha_update token ctx = do {
     r \<leftarrow> ApplyBSDiffPatchMem B malloc_ok old_data old_size patch patch_offset;
     case r of
       None \<Rightarrow> Some (- 1, token, ctx)
     | Some new_data \<Rightarrow>
         (case sink new_data token of
            (n, token) \<Rightarrow>
              if n < int (length new_data) then Some (1, token, ctx)
              else Some (0, token, map_option (\<lambda>c. sha_update c new_data) ctx))}"

section \<open>What a patch means\<close>

text \<open>
  The documented behaviour of the decompressor on an intact stream, relative to a relation between a
  state and the data still to come: with room for output it delivers the next nonempty part.
\<close>

definition bz_contract :: "'b bz \<Rightarrow> ('b \<Rightarrow> byte list \<Rightarrow> bool) \<Rightarrow> bool" where
  "bz_contract B R \<longleftrightarrow>
     (\<forall>s data n. R s data \<and> data \<noteq> [] \<and> 0 < n \<longrightarrow>
        (\<exists>s' k. bz_step B s n = (True, s', take k data) \<and> 0 < k \<and> k \<le> n \<and> k \<le> length data \<and> R s' (drop k data)))"

text \<open>
  The meaning of the control triples \<open>(x, y, z)\<close>, as the comment of the code gives it: add \<open>x\<close> bytes of
  the old file to \<open>x\<close> bytes of the diff, copy \<open>y\<close> bytes of the extra block, move \<open>z\<close> bytes in the
  old file.
\<close>

type_synonym script = "(int \<times> int \<times> int) list"

fun add_ref :: "byte list \<Rightarrow> int \<Rightarrow> byte list \<Rightarrow> byte list" where
  "add_ref old p [] = []"
| "add_ref old p (d # ds) = (if 0 \<le> p \<and> p < int (length old) then d + old ! nat p else d) # add_ref old (p + 1) ds"

fun bs_ref :: "byte list \<Rightarrow> int \<Rightarrow> script \<Rightarrow> byte list \<Rightarrow> byte list \<Rightarrow> byte list" where
  "bs_ref old p [] d e = []"
| "bs_ref old p ((x, y, z) # s) d e =
     add_ref old p (take (nat x) d) @ take (nat y) e @ bs_ref old (p + x + z) s (drop (nat x) d) (drop (nat y) e)"

fun reads_script :: "byte list \<Rightarrow> script \<Rightarrow> bool" where
  "reads_script bs [] \<longleftrightarrow> True"
| "reads_script bs ((x, y, z) # s) \<longleftrightarrow>
     24 \<le> length bs \<and> offtin bs 0 = Some x \<and> offtin bs 8 = Some y \<and> offtin bs 16 = Some z \<and>
     reads_script (drop 24 bs) s"

fun script_ok :: "int \<Rightarrow> script \<Rightarrow> bool" where
  "script_ok p [] \<longleftrightarrow> True"
| "script_ok p ((x, y, z) # s) \<longleftrightarrow>
     0 \<le> x \<and> 0 \<le> y \<and> i32_ok (p + x) \<and> i32_ok (p + x + z) \<and> script_ok (p + x + z) s"

fun diff_total :: "script \<Rightarrow> int" where
  "diff_total [] = 0"
| "diff_total ((x, y, z) # s) = x + diff_total s"

fun extra_total :: "script \<Rightarrow> int" where
  "extra_total [] = 0"
| "extra_total ((x, y, z) # s) = y + extra_total s"

lemma totals_nonneg: "script_ok p s \<Longrightarrow> 0 \<le> diff_total s \<and> 0 \<le> extra_total s"
  by (induction p s rule: script_ok.induct) auto

section \<open>The loop computes it\<close>

lemma fill_ok:
  assumes "bz_contract B R"
  shows "R s data \<Longrightarrow> n \<le> length data \<Longrightarrow>
    \<exists>s'. FillBuffer B n s acc = Some (Some (acc @ take n data, s')) \<and> R s' (drop n data)"
proof (induction n arbitrary: s data acc rule: less_induct)
  case (less n)
  show ?case
  proof (cases "n = 0")
    case True
    then show ?thesis using less.prems by (auto simp: FillBuffer.simps)
  next
    case False
    then have "data \<noteq> []" using less.prems(2) by auto
    then obtain s1 k where k: "bz_step B s n = (True, s1, take k data)" "0 < k" "k \<le> n" "k \<le> length data" "R s1 (drop k data)"
      using assms [unfolded bz_contract_def, rule_format, of s data n] less.prems False by auto
    obtain s2 where s2: "FillBuffer B (n - k) s1 (acc @ take k data) =
        Some (Some ((acc @ take k data) @ take (n - k) (drop k data), s2))" "R s2 (drop (n - k) (drop k data))"
      using less.IH [of "n - k" s1 "drop k data" "acc @ take k data"] k less.prems(2) diff_le_mono [OF less.prems(2), of k] by auto
    have "take k data @ take (n - k) (drop k data) = take n data"
      using k(3) by (metis le_add_diff_inverse take_add)
    then show ?thesis
      using s2 k False by (subst FillBuffer.simps) (auto simp: min_def)
  qed
qed

lemma add_old_ref:
  "i32_ok p \<Longrightarrow> i32_ok (p + int (length ds)) \<Longrightarrow> add_old old (int (length old)) p ds = Some (add_ref old p ds)"
proof (induction ds arbitrary: p)
  case (Cons d ds)
  then have "i32_ok (p + 1)" by (auto simp: i32_ok_def)
  then have "add_old old (int (length old)) (p + 1) ds = Some (add_ref old (p + 1) ds)"
    using Cons by (simp add: algebra_simps)
  then show ?case using Cons.prems by (auto simp: i32_def nth_ub_def)
qed simp

lemma length_add_ref [simp]: "length (add_ref old p ds) = length ds"
  by (induction ds arbitrary: p) auto

lemma offtin_take: "p + 8 \<le> n \<Longrightarrow> n \<le> length bs \<Longrightarrow> offtin (take n bs) p = offtin bs p"
  by (simp add: offtin_def segment_ub_def segment_def drop_take min_def)

lemma bs_ref_empty: "script_ok p s \<Longrightarrow> diff_total s + extra_total s = 0 \<Longrightarrow> bs_ref old p s d e = []"
proof (induction s arbitrary: p d e)
  case (Cons t s)
  obtain x y z where t: "t = (x, y, z)" by (cases t)
  have "x = 0" "y = 0" "diff_total s + extra_total s = 0"
    using Cons.prems totals_nonneg [of "p + x + z" s] by (auto simp: t)
  then show ?case using Cons by (simp add: t)
qed simp

lemma bspatch_loop_ref:
  assumes B: "bz_contract B R"
  shows "reads_script ctrl s \<Longrightarrow> script_ok oldpos s \<Longrightarrow> i32_ok oldpos \<Longrightarrow> i32_ok new_size \<Longrightarrow> 0 \<le> newpos \<Longrightarrow>
    newpos + diff_total s + extra_total s = new_size \<Longrightarrow> R cs ctrl \<Longrightarrow> R ds d \<Longrightarrow> R es e \<Longrightarrow>
    diff_total s \<le> int (length d) \<Longrightarrow> extra_total s \<le> int (length e) \<Longrightarrow>
    bspatch_loop B old (int (length old)) new_size oldpos newpos cs ds es out = Some (Some (out @ bs_ref old oldpos s d e))"
proof (induction s arbitrary: ctrl oldpos newpos cs ds es d e out)
  case Nil
  then show ?case by (subst bspatch_loop.simps) simp
next
  case (Cons t s)
  obtain x y z where t: "t = (x, y, z)" by (cases t)
  show ?case
  proof (cases "newpos < new_size")
    case False
    then have "diff_total (t # s) + extra_total (t # s) = 0"
      using Cons.prems(6) totals_nonneg [OF Cons.prems(2)] by linarith
    then show ?thesis
      using bs_ref_empty [OF Cons.prems(2)] False by (subst bspatch_loop.simps) simp
  next
    case True
    have c: "24 \<le> length ctrl" "offtin ctrl 0 = Some x" "offtin ctrl 8 = Some y" "offtin ctrl 16 = Some z"
      "reads_script (drop 24 ctrl) s"
      using Cons.prems(1) by (auto simp: t)
    have ok: "0 \<le> x" "0 \<le> y" "i32_ok (oldpos + x)" "i32_ok (oldpos + x + z)" "script_ok (oldpos + x + z) s"
      using Cons.prems(2) by (auto simp: t)
    have tot: "0 \<le> diff_total s" "0 \<le> extra_total s" using totals_nonneg [OF ok(5)] by auto
    have lens: "nat x \<le> length d" "nat y \<le> length e" using Cons.prems(10,11) tot ok by (auto simp: t)
    obtain cs' where cs': "FillBuffer B 24 cs [] = Some (Some (take 24 ctrl, cs'))" "R cs' (drop 24 ctrl)"
      using fill_ok [OF B Cons.prems(7) c(1), of "[]"] by auto
    obtain ds' where ds': "FillBuffer B (nat x) ds [] = Some (Some (take (nat x) d, ds'))" "R ds' (drop (nat x) d)"
      using fill_ok [OF B Cons.prems(8) lens(1), of "[]"] by auto
    obtain es' where es': "FillBuffer B (nat y) es [] = Some (Some (take (nat y) e, es'))" "R es' (drop (nat y) e)"
      using fill_ok [OF B Cons.prems(9) lens(2), of "[]"] by auto
    have add: "add_old old (int (length old)) oldpos (take (nat x) d) = Some (add_ref old oldpos (take (nat x) d))"
      using ok lens Cons.prems(3) by (intro add_old_ref) (auto simp: min_def)
    have pos: "i32 (newpos + x) = Some (newpos + x)" "i32 (newpos + x + y) = Some (newpos + x + y)"
      "newpos + x \<le> new_size" "newpos + x + y \<le> new_size"
      using Cons.prems(4-6) ok(1,2) tot by (auto simp: t i32_ok_def)
    have "bspatch_loop B old (int (length old)) new_size (oldpos + x + z) (newpos + x + y) cs' ds' es'
        (out @ add_ref old oldpos (take (nat x) d) @ take (nat y) e) =
        Some (Some ((out @ add_ref old oldpos (take (nat x) d) @ take (nat y) e) @
          bs_ref old (oldpos + x + z) s (drop (nat x) d) (drop (nat y) e)))"
      using Cons.prems(4-6,10,11) c(5) ok cs'(2) ds'(2) es'(2) tot lens by (intro Cons.IH) (auto simp: t)
    then show ?thesis
      using True c ok(1-4) cs'(1) ds'(1) es'(1) add pos
      by (subst bspatch_loop.simps) (simp add: offtin_take i32_def t)
  qed
qed

lemma FillBuffer_stalled:
  assumes "0 < n" and "bz_step B s n = (True, s, [])"
  shows "FillBuffer B n s acc = None"
proof (rule ccontr)
  assume "FillBuffer B n s acc \<noteq> None"
  then obtain r where "FillBuffer B n s acc = Some r" by auto
  then have "\<not> (0 < n \<and> bz_step B s n = (True, s, []))"
  proof (rule FillBuffer.raw_induct [where P = "\<lambda>B n s acc r. \<not> (0 < n \<and> bz_step B s n = (True, s, []))", rotated])
    fix f B s n and acc :: "byte list" and r
    assume IH: "\<And>B n s acc r. f B n s acc = Some r \<Longrightarrow> \<not> (0 < n \<and> bz_step B s n = (True, s, []))"
      and eq: "(if n = 0 then Some (Some (acc, s))
        else case bz_step B s n of (ok, stream, out) \<Rightarrow>
          if \<not> ok then Some None else f B (n - length out) stream (acc @ out)) = Some r"
    show "\<not> (0 < n \<and> bz_step B s n = (True, s, []))"
    proof
      assume A: "0 < n \<and> bz_step B s n = (True, s, [])"
      then have "f B n s acc = Some r" using eq by simp
      from IH [OF this] A show False by blast
    qed
  qed
  then show False using assms by blast
qed

lemma apply_mem_ref:
  assumes "bz_contract B R" and "segment_ub patch off0 8 = Some BSDIFF40"
    and "offtin patch (off0 + 8) = Some clen" and "offtin patch (off0 + 16) = Some dlen"
    and "offtin patch (off0 + 24) = Some new_size" and "0 \<le> clen" and "0 \<le> dlen" and "i32_ok new_size"
    and "off0 + 32 + nat clen + nat dlen \<le> length patch"
    and "R (bz_init B (segment patch (off0 + 32) (nat clen))) ctrl"
    and "R (bz_init B (segment patch (off0 + 32 + nat clen) (nat dlen))) d"
    and "R (bz_init B (drop (off0 + 32 + nat clen + nat dlen) patch)) e"
    and "reads_script ctrl s" and "script_ok 0 s" and "diff_total s + extra_total s = new_size"
    and "diff_total s \<le> int (length d)" and "extra_total s \<le> int (length e)" and "malloc_ok new_size"
  shows "ApplyBSDiffPatchMem B malloc_ok old (int (length old)) patch off0 = Some (Some (bs_ref old 0 s d e))"
proof -
  have "0 \<le> new_size" using totals_nonneg [OF assms(14)] assms(15) by simp
  then show ?thesis
    using assms(2-9,18) bspatch_loop_ref [OF assms(1,13,14), of new_size 0 _ _ d _ e old "[]"] assms(10-12,15-17)
    by (simp add: ApplyBSDiffPatchMem_def segment_ub_def i32_ok_def)
qed

section \<open>A sample patch\<close>

text \<open>A codec that stores.\<close>

definition storing_bz :: "byte list bz" where
  "storing_bz = \<lparr>bz_init = id, bz_step = \<lambda>s n. (True, drop n s, take n s)\<rparr>"

lemma storing_contract: "bz_contract storing_bz (=)"
  unfolding bz_contract_def
proof (intro allI impI)
  fix s data :: "byte list" and n :: nat
  assume "s = data \<and> data \<noteq> [] \<and> 0 < n"
  then show "\<exists>s' k. bz_step storing_bz s n = (True, s', take k data) \<and> 0 < k \<and> k \<le> n \<and> k \<le> length data \<and>
      s' = drop k data"
    by (intro exI [of _ "drop n s"] exI [of _ "min n (length data)"]) (auto simp: storing_bz_def min_def)
qed

definition sample_ctrl :: "byte list" where
  "sample_ctrl = [2, 0, 0, 0, 0, 0, 0, 0, 1, 0, 0, 0, 0, 0, 0, 0, 5, 0, 0, 0, 0, 0, 0, 0x80]"

definition sample_patch :: "byte list" where
  "sample_patch = BSDIFF40 @ [24, 0, 0, 0, 0, 0, 0, 0, 2, 0, 0, 0, 0, 0, 0, 0, 3, 0, 0, 0, 0, 0, 0, 0] @
     sample_ctrl @ [1, 1] @ [7]"

lemma sample_offsets:
  "offtin sample_patch 8 = Some 24" "offtin sample_patch 16 = Some 2" "offtin sample_patch 24 = Some 3"
  "reads_script sample_ctrl [(2, 1, - 5)]"
  by (simp_all add: offtin_def segment_ub_def segment_def sample_patch_def sample_ctrl_def BSDIFF40_def i32_def i32_ok_def)

section \<open>Properties\<close>

text \<open>
  Reading back what \<open>Write4\<close> and \<open>Write8\<close> wrote gives the value, at every position, including
  negative values.
\<close>

theorem Write_Read_roundtrip:
  "Read4 (pre @ Write4 v @ post) (length pre) = Some (sint v) \<and>
   Read8 (pre @ Write8 x @ post) (length pre) = Some (sint x)"
  by (simp add: Read4_def Write4_def Read8_def Write8_def nth_ub_append_right join32 join64)

text \<open>
  C17.  Applying a patch computes what its control block says: when the header announces the lengths, and
  the three streams decompress to control triples, diff and extra bytes whose totals are the
  announced size, the call ends and returns the file the triples describe.
\<close>

theorem ApplyBSDiffPatchMem_refines:
  assumes "bz_contract B R" and "segment_ub patch off0 8 = Some BSDIFF40"
    and "offtin patch (off0 + 8) = Some clen" and "offtin patch (off0 + 16) = Some dlen"
    and "offtin patch (off0 + 24) = Some new_size" and "0 \<le> clen" and "0 \<le> dlen" and "i32_ok new_size"
    and "off0 + 32 + nat clen + nat dlen \<le> length patch"
    and "R (bz_init B (segment patch (off0 + 32) (nat clen))) ctrl"
    and "R (bz_init B (segment patch (off0 + 32 + nat clen) (nat dlen))) d"
    and "R (bz_init B (drop (off0 + 32 + nat clen + nat dlen) patch)) e"
    and "reads_script ctrl s" and "script_ok 0 s" and "diff_total s + extra_total s = new_size"
    and "diff_total s \<le> int (length d)" and "extra_total s \<le> int (length e)" and "malloc_ok new_size"
  shows "ApplyBSDiffPatchMem B malloc_ok old (int (length old)) patch off0 = Some (Some (bs_ref old 0 s d e))"
  using assms by (rule apply_mem_ref)

theorem ApplyBSDiffPatchMem_refines_witness:
  "ApplyBSDiffPatchMem storing_bz (\<lambda>_. True) [10, 20] 2 sample_patch 0 = Some (Some [11, 21, 7])"
proof -
  have "ApplyBSDiffPatchMem storing_bz (\<lambda>_. True) [10, 20] (int (length [10, 20 :: byte])) sample_patch 0 =
      Some (Some (bs_ref [10, 20] 0 [(2, 1, - 5)] [1, 1] [7]))"
    by (rule ApplyBSDiffPatchMem_refines [OF storing_contract, where clen = 24 and dlen = 2 and new_size = 3 and ctrl = sample_ctrl])
       (simp_all add: sample_offsets i32_ok_def del: reads_script.simps,
        simp_all add: sample_patch_def sample_ctrl_def BSDIFF40_def segment_ub_def segment_def storing_bz_def)
  then show ?thesis by simp
qed

text \<open>
  C36.  \<open>FillBuffer\<close> never returns once the decompressor reports success without producing output, as
  it does when a truncated stream has no more input.
\<close>

theorem FillBuffer_hangs:
  assumes "0 < n" and "bz_step B s n = (True, s, [])"
  shows "FillBuffer B n s acc = None"
  using assms by (rule FillBuffer_stalled)

theorem FillBuffer_hangs_witness:
  "FillBuffer \<lparr>bz_init = id, bz_step = \<lambda>s n. (True, drop n s, take n s)\<rparr> 24 [] [] = None"
  by (rule FillBuffer_hangs) simp_all

end
