(* ===== verification/Bsdiff.thy ===== *)
theory Bsdiff
  imports Bspatch
begin

text \<open>
  Making binary patches (\<^verbatim>\<open>applypatch/bsdiff.c\<close>: \<open>matchlen\<close>, \<open>search\<close>, \<open>offtout\<close>, \<open>bsdiff\<close>).

  \<^item> The index \<open>I\<close> is the array the caller passes; how it was sorted does not matter here, only that
    its entries are positions of the old file.
  \<^item> \<open>off_t\<close> values are integers; the sizes are assumed to be below \<open>2 ^ 30\<close> in the theorems, which
    keeps every intermediate value in range.
  \<^item> The compressor of the bzip2 library is a parameter.  Errors of the file functions end the
    program and are not modelled; the result is the patch file.
\<close>

section \<open>Arrays\<close>

definition rd :: "'a list \<Rightarrow> int \<Rightarrow> 'a ub" where
  "rd xs i = (if 0 \<le> i \<and> i < int (length xs) then Some (xs ! nat i) else None)"

definition same :: "byte list \<Rightarrow> int \<Rightarrow> byte list \<Rightarrow> int \<Rightarrow> bool ub" where
  "same xs i ys j = do { a \<leftarrow> rd xs i; b \<leftarrow> rd ys j; Some (a = b) }"

section \<open>Searching\<close>

text \<open>The two ranges are given as lists.\<close>

fun matchlen :: "byte list \<Rightarrow> byte list \<Rightarrow> nat" where
  "matchlen (a # as) (b # bs) = (if a \<noteq> b then 0 else Suc (matchlen as bs))"
| "matchlen [] bs = 0"
| "matchlen as [] = 0"

function search :: "int list \<Rightarrow> byte list \<Rightarrow> byte list \<Rightarrow> int \<Rightarrow> int \<Rightarrow> (int \<times> int) ub" where
  "search I old new st en =
     (if en - st < 2 then do {
        ist \<leftarrow> rd I st;
        ien \<leftarrow> rd I en;
        if ist < 0 \<or> int (length old) < ist \<or> ien < 0 \<or> int (length old) < ien then None
        else
          let x = matchlen (drop (nat ist) old) new;
              y = matchlen (drop (nat ien) old) new
          in Some (if x > y then (int x, ist) else (int y, ien))}
      else let x = st + (en - st) div 2 in
        case rd I x of
          None \<Rightarrow> None
        | Some ix \<Rightarrow>
            if ix < 0 \<or> int (length old) < ix then None
            else let n = min (length old - nat ix) (length new) in
              if take n (drop (nat ix) old) < take n new then search I old new x en
              else search I old new st x)"
  by pat_completeness auto
termination
  by (relation "measure (\<lambda>(I, old, new, st, en). nat (en - st))") auto

declare search.simps [simp del]

section \<open>Writing offsets\<close>

fun offtout_bytes :: "nat \<Rightarrow> int \<Rightarrow> byte list" where
  "offtout_bytes 0 y = []"
| "offtout_bytes (Suc n) y =
     (let b = y mod 256; y = y - b in of_int b # offtout_bytes n (y div 256))"

definition offtout :: "int \<Rightarrow> byte list" where
  "offtout x =
     (let buf = offtout_bytes 8 (if x < 0 then - x else x) in
      if x < 0 then buf[7 := buf ! 7 OR 0x80] else buf)"

section \<open>The loops of the difference computation\<close>

text \<open>Extending the score of the current alignment up to \<open>bound\<close>.\<close>

function score_loop :: "byte list \<Rightarrow> byte list \<Rightarrow> int \<Rightarrow> int \<Rightarrow> int \<Rightarrow> int \<Rightarrow> int ub" where
  "score_loop old new lastoffset bound scsc oldscore =
     (if scsc < bound then
        case (if scsc + lastoffset < int (length old) then same old (scsc + lastoffset) new scsc else Some False) of
          None \<Rightarrow> None
        | Some eq \<Rightarrow> score_loop old new lastoffset bound (scsc + 1) (if eq then oldscore + 1 else oldscore)
      else Some oldscore)"
  by pat_completeness auto
termination
  by (relation "measure (\<lambda>(old, new, lastoffset, bound, scsc, oldscore). nat (bound - scsc))") auto

declare score_loop.simps [simp del]

text \<open>The scan for the next match; it returns \<open>scan\<close>, \<open>len\<close>, \<open>pos\<close> and \<open>oldscore\<close>.\<close>

function scan_loop ::
  "int list \<Rightarrow> byte list \<Rightarrow> byte list \<Rightarrow> int \<Rightarrow> int \<Rightarrow> int \<Rightarrow> int \<Rightarrow> int \<Rightarrow> int \<Rightarrow> (int \<times> int \<times> int \<times> int) ub" where
  "scan_loop I old new lastoffset scan scsc oldscore len pos =
     (if scan < int (length new) then
        case search I old (drop (nat scan) new) 0 (int (length old)) of
          None \<Rightarrow> None
        | Some (len, pos) \<Rightarrow>
            (case score_loop old new lastoffset (scan + len) scsc oldscore of
               None \<Rightarrow> None
             | Some oldscore \<Rightarrow>
                 let scsc = max scsc (scan + len) in
                 if len = oldscore \<and> len \<noteq> 0 \<or> len > oldscore + 8 then Some (scan, len, pos, oldscore)
                 else case (if scan + lastoffset < int (length old) then same old (scan + lastoffset) new scan
                            else Some False) of
                     None \<Rightarrow> None
                   | Some eq \<Rightarrow>
                       scan_loop I old new lastoffset (scan + 1) scsc (if eq then oldscore - 1 else oldscore) len pos)
      else Some (scan, len, pos, oldscore))"
  by pat_completeness auto
termination
  by (relation "measure (\<lambda>(I, old, new, lastoffset, scan, scsc, oldscore, len, pos). nat (int (length new) - scan))") auto

declare scan_loop.simps [simp del]

text \<open>Extending the previous match forwards: the result is \<open>lenf\<close>.\<close>

function forward_loop ::
  "byte list \<Rightarrow> byte list \<Rightarrow> int \<Rightarrow> int \<Rightarrow> int \<Rightarrow> int \<Rightarrow> int \<Rightarrow> int \<Rightarrow> int \<Rightarrow> int ub" where
  "forward_loop old new lastscan lastpos scan i s Sf lenf =
     (if lastscan + i < scan \<and> lastpos + i < int (length old) then
        case same old (lastpos + i) new (lastscan + i) of
          None \<Rightarrow> None
        | Some eq \<Rightarrow>
            let s = (if eq then s + 1 else s); i = i + 1 in
            if s * 2 - i > Sf * 2 - lenf then forward_loop old new lastscan lastpos scan i s s i
            else forward_loop old new lastscan lastpos scan i s Sf lenf
      else Some lenf)"
  by pat_completeness auto
termination
  by (relation "measure (\<lambda>(old, new, lastscan, lastpos, scan, i, s, Sf, lenf). nat (scan - (lastscan + i)))")
     auto

declare forward_loop.simps [simp del]

text \<open>Extending the new match backwards: the result is \<open>lenb\<close>.\<close>

function backward_loop ::
  "byte list \<Rightarrow> byte list \<Rightarrow> int \<Rightarrow> int \<Rightarrow> int \<Rightarrow> int \<Rightarrow> int \<Rightarrow> int \<Rightarrow> int \<Rightarrow> int ub" where
  "backward_loop old new lastscan pos scan i s Sb lenb =
     (if scan \<ge> lastscan + i \<and> pos \<ge> i then
        case same old (pos - i) new (scan - i) of
          None \<Rightarrow> None
        | Some eq \<Rightarrow>
            let s = (if eq then s + 1 else s) in
            if s * 2 - i > Sb * 2 - lenb then backward_loop old new lastscan pos scan (i + 1) s s i
            else backward_loop old new lastscan pos scan (i + 1) s Sb lenb
      else Some lenb)"
  by pat_completeness auto
termination
  by (relation "measure (\<lambda>(old, new, lastscan, pos, scan, i, s, Sb, lenb). nat (pos - i + 1))") auto

declare backward_loop.simps [simp del]

text \<open>Dividing an overlap: \<open>f\<close> and \<open>b\<close> are where the two sides start; the result is \<open>lens\<close>.\<close>

function overlap_loop ::
  "byte list \<Rightarrow> byte list \<Rightarrow> int \<Rightarrow> int \<Rightarrow> int \<Rightarrow> int \<Rightarrow> int \<Rightarrow> int \<Rightarrow> int \<Rightarrow> int \<Rightarrow> int \<Rightarrow> int ub" where
  "overlap_loop old new newf oldf newb oldb overlap i s Ss lens =
     (if i < overlap then
        case same new (newf + i) old (oldf + i) of
          None \<Rightarrow> None
        | Some eqf \<Rightarrow>
            (case same new (newb + i) old (oldb + i) of
               None \<Rightarrow> None
             | Some eqb \<Rightarrow>
                 let s = (if eqf then s + 1 else s); s = (if eqb then s - 1 else s) in
                 if s > Ss then overlap_loop old new newf oldf newb oldb overlap (i + 1) s s (i + 1)
                 else overlap_loop old new newf oldf newb oldb overlap (i + 1) s Ss lens)
      else Some lens)"
  by pat_completeness auto
termination
  by (relation "measure (\<lambda>(old, new, newf, oldf, newb, oldb, overlap, i, s, Ss, lens). nat (overlap - i))") auto

declare overlap_loop.simps [simp del]

section \<open>Emitting a control triple\<close>

fun diff_piece :: "byte list \<Rightarrow> byte list \<Rightarrow> int \<Rightarrow> int \<Rightarrow> nat \<Rightarrow> byte list ub" where
  "diff_piece old new lastscan lastpos 0 = Some []"
| "diff_piece old new lastscan lastpos (Suc n) = do {
     a \<leftarrow> rd new lastscan; b \<leftarrow> rd old lastpos;
     ds \<leftarrow> diff_piece old new (lastscan + 1) (lastpos + 1) n;
     Some ((a - b) # ds)}"

fun copy_piece :: "byte list \<Rightarrow> int \<Rightarrow> nat \<Rightarrow> byte list ub" where
  "copy_piece new p 0 = Some []"
| "copy_piece new p (Suc n) = do { a \<leftarrow> rd new p; as \<leftarrow> copy_piece new (p + 1) n; Some (a # as) }"

text \<open>
  The variables that live across iterations.  \<open>db\<close> and \<open>eb\<close> are the filled parts of their buffers,
  which have one byte more than the new file; \<open>ctrl\<close> is what was written to the control stream.
\<close>

record bsd =
  scan :: int
  len :: int
  pos :: int
  lastscan :: int
  lastpos :: int
  lastoffset :: int
  db :: "byte list"
  eb :: "byte list"
  ctrl :: "byte list"

definition emit :: "byte list \<Rightarrow> byte list \<Rightarrow> int \<Rightarrow> int \<Rightarrow> bsd \<Rightarrow> bsd ub" where
  "emit old new lenf lenb v = do {
     let extra = (scan v - lenb) - (lastscan v + lenf);
     ds \<leftarrow> diff_piece old new (lastscan v) (lastpos v) (nat lenf);
     es \<leftarrow> copy_piece new (lastscan v + lenf) (nat extra);
     if length new + 1 < length (db v) + length ds \<or> length new + 1 < length (eb v) + length es then None
     else Some (v\<lparr>db := db v @ ds, eb := eb v @ es,
       ctrl := ctrl v @ offtout lenf @ offtout extra @ offtout ((pos v - lenb) - (lastpos v + lenf)),
       lastscan := scan v - lenb, lastpos := pos v - lenb, lastoffset := pos v - scan v\<rparr>)}"

definition split_overlap :: "byte list \<Rightarrow> byte list \<Rightarrow> bsd \<Rightarrow> int \<Rightarrow> int \<Rightarrow> (int \<times> int) ub" where
  "split_overlap old new v lenf lenb =
     (if lastscan v + lenf > scan v - lenb then do {
        let overlap = (lastscan v + lenf) - (scan v - lenb);
        lens \<leftarrow> overlap_loop old new (lastscan v + lenf - overlap) (lastpos v + lenf - overlap)
          (scan v - lenb) (pos v - lenb) overlap 0 0 0 0;
        Some (lenf + (lens - overlap), lenb - lens)}
      else Some (lenf, lenb))"

definition bsdiff_step :: "int list \<Rightarrow> byte list \<Rightarrow> byte list \<Rightarrow> bsd \<Rightarrow> bsd ub" where
  "bsdiff_step I old new v = do {
     let scan0 = scan v + len v;
     (scan', len', pos', oldscore) \<leftarrow> scan_loop I old new (lastoffset v) scan0 scan0 0 (len v) (pos v);
     let v = v\<lparr>scan := scan', len := len', pos := pos'\<rparr>;
     if len' \<noteq> oldscore \<or> scan' = int (length new) then do {
       lenf \<leftarrow> forward_loop old new (lastscan v) (lastpos v) scan' 0 0 0 0;
       lenb \<leftarrow> (if scan' < int (length new) then backward_loop old new (lastscan v) pos' scan' 1 0 0 0 else Some 0);
       (lenf, lenb) \<leftarrow> split_overlap old new v lenf lenb;
       emit old new lenf lenb v}
     else Some v}"

partial_function (option) bsdiff_loop :: "int list \<Rightarrow> byte list \<Rightarrow> byte list \<Rightarrow> bsd \<Rightarrow> bsd option" where
  "bsdiff_loop I old new v =
     (if scan v < int (length new)
      then Option.bind (bsdiff_step I old new v) (bsdiff_loop I old new)
      else Some v)"

text \<open>The header is written twice, first with empty lengths; the file is what is there at the end.\<close>

definition bsdiff :: "(byte list \<Rightarrow> byte list) \<Rightarrow> int list \<Rightarrow> byte list \<Rightarrow> byte list \<Rightarrow> byte list ub" where
  "bsdiff bzcompress I old new = do {
     v \<leftarrow> bsdiff_loop I old new
       \<lparr>scan = 0, len = 0, pos = 0, lastscan = 0, lastpos = 0, lastoffset = 0, db = [], eb = [], ctrl = []\<rparr>;
     let cblock = bzcompress (ctrl v);
     let dblock = bzcompress (db v);
     let eblock = bzcompress (eb v);
     Some (BSDIFF40 @ offtout (int (length cblock)) @ offtout (int (length dblock)) @ offtout (int (length new)) @
       cblock @ dblock @ eblock)}"

section \<open>Offsets can be read back\<close>

lemma offtout_small:
  assumes "0 \<le> y" and "y < 2 ^ 31"
  shows "offtout_bytes 8 y = [of_int (y mod 256), of_int (y div 256 mod 256), of_int (y div 65536 mod 256),
    of_int (y div 16777216), 0, 0, 0, 0]"
proof -
  have step: "offtout_bytes (Suc n) z = of_int (z mod 256) # offtout_bytes n (z div 256)" for n z
    by (simp add: Let_def minus_mod_eq_div_mult)
  have z: "offtout_bytes n 0 = replicate n 0" for n by (induction n) simp_all
  have "y div 256 div 256 = y div 65536" "y div 65536 div 256 = y div 16777216" "y div 16777216 div 256 = 0"
    "y div 16777216 mod 256 = y div 16777216"
    using assms by (simp_all flip: zdiv_zmult2_eq)
  then have "offtout_bytes (Suc (Suc (Suc (Suc 4)))) y = [of_int (y mod 256), of_int (y div 256 mod 256),
      of_int (y div 65536 mod 256), of_int (y div 16777216)] @ replicate 4 0"
    by (simp only: step z append.simps)
  moreover have "replicate 4 (0 :: byte) = [0, 0, 0, 0]" by (simp add: numeral_eq_Suc)
  moreover have "(8 :: nat) = Suc (Suc (Suc (Suc 4)))" by simp
  ultimately show ?thesis by (simp only: append.simps)
qed

lemma length_offtout [simp]: "length (offtout x) = 8"
proof -
  have "length (offtout_bytes n y) = n" for n y by (induction n arbitrary: y) (simp_all add: Let_def)
  then show ?thesis by (simp add: offtout_def Let_def)
qed

lemma offtin_offtout:
  assumes "- (2 ^ 31) < x" and "x < 2 ^ 31" and "length pre = p"
  shows "offtin (pre @ offtout x @ post) p = Some x"
proof -
  define y where "y = (if x < 0 then - x else x)"
  have y: "0 \<le> y" "y < 2 ^ 31" using assms(1,2) by (auto simp: y_def)
  have bs: "offtout x = [of_int (y mod 256), of_int (y div 256 mod 256), of_int (y div 65536 mod 256),
      of_int (y div 16777216), 0, 0, 0, if x < 0 then 0x80 else 0]"
    using offtout_small [OF y] by (simp add: offtout_def y_def Let_def)
  define a b c d where "a = y div 16777216" and "b = y div 65536 mod 256" and "c = y div 256 mod 256" and "d = y mod 256"
  have "y div 65536 div 256 = a" "y div 256 div 256 = y div 65536"
    by (simp_all add: a_def flip: zdiv_zmult2_eq)
  then have eq: "((a * 256 + b) * 256 + c) * 256 + d = y"
    using div_mult_mod_eq [of "y div 65536" 256] div_mult_mod_eq [of "y div 256" 256] div_mult_mod_eq [of y 256]
    by (simp add: b_def c_def d_def)
  have rng: "0 \<le> a" "a < 128" "0 \<le> b" "b < 256" "0 \<le> c" "c < 256" "0 \<le> d" "d < 256"
    using y by (auto simp: a_def b_def c_def d_def)
  have u: "uint (of_int z :: byte) = z" if "0 \<le> z" "z < 256" for z
    using that by (simp add: unsigned_of_int take_bit_int_eq_self)
  have seg: "segment_ub (pre @ offtout x @ post) p 8 = Some (offtout x)"
    using assms(3) by (simp add: segment_ub_def segment_def)
  have "offtin_digits 0 [0, 0, 0, of_int a, of_int b, of_int c, of_int d] = Some (((a * 256 + b) * 256 + c) * 256 + d)"
    using rng by (simp add: u i32_def i32_ok_def)
  then have dig: "offtin_digits 0 (rev (take 7 (offtout x))) = Some y"
    unfolding eq by (simp add: bs a_def b_def c_def d_def)
  have b7: "offtout x ! 7 = (if x < 0 then 0x80 else 0)" by (simp add: bs)
  have "i32_ok x" using assms(1,2) by (auto simp: i32_ok_def)
  then show ?thesis
    unfolding offtin_def seg by (cases "x < 0") (simp_all add: b7 dig i32_def, simp_all add: y_def)
qed

definition ctrl_bytes :: "int \<times> int \<times> int \<Rightarrow> byte list" where
  "ctrl_bytes t = (case t of (x, y, z) \<Rightarrow> offtout x @ offtout y @ offtout z)"

definition triple_ok :: "int \<times> int \<times> int \<Rightarrow> bool" where
  "triple_ok t \<longleftrightarrow> (case t of (x, y, z) \<Rightarrow> \<bar>x\<bar> < 2 ^ 31 \<and> \<bar>y\<bar> < 2 ^ 31 \<and> \<bar>z\<bar> < 2 ^ 31)"

lemma reads_ctrl_bytes: "list_all triple_ok s \<Longrightarrow> reads_script (concat (map ctrl_bytes s)) s"
proof (induction s)
  case (Cons t s)
  obtain x y z where t: "t = (x, y, z)" by (cases t)
  have "offtin (concat (map ctrl_bytes (t # s))) 0 = Some x" "offtin (concat (map ctrl_bytes (t # s))) 8 = Some y"
    "offtin (concat (map ctrl_bytes (t # s))) 16 = Some z"
    using Cons.prems offtin_offtout [of x "[]" 0 "offtout y @ offtout z @ concat (map ctrl_bytes s)"]
      offtin_offtout [of y "offtout x" 8 "offtout z @ concat (map ctrl_bytes s)"]
      offtin_offtout [of z "offtout x @ offtout y" 16 "concat (map ctrl_bytes s)"]
    by (auto simp: t triple_ok_def ctrl_bytes_def)
  moreover have "drop 24 (concat (map ctrl_bytes (t # s))) = concat (map ctrl_bytes s)"
    "24 \<le> length (concat (map ctrl_bytes (t # s)))"
    by (simp_all add: t ctrl_bytes_def)
  ultimately show ?case using Cons by (simp add: t)
qed simp

section \<open>Scripts that grow at the end\<close>

fun end_pos :: "int \<Rightarrow> script \<Rightarrow> int" where
  "end_pos p [] = p"
| "end_pos p ((x, y, z) # s) = end_pos (p + x + z) s"

lemma totals_snoc [simp]:
  "diff_total (s @ [(x, y, z)]) = diff_total s + x" "extra_total (s @ [(x, y, z)]) = extra_total s + y"
  "end_pos p (s @ [(x, y, z)]) = end_pos p s + x + z"
  by (induction p s rule: end_pos.induct) auto

lemma script_ok_snoc [simp]:
  "script_ok p (s @ [(x, y, z)]) \<longleftrightarrow> script_ok p s \<and> 0 \<le> x \<and> 0 \<le> y \<and> i32_ok (end_pos p s + x) \<and>
     i32_ok (end_pos p s + x + z)"
  by (induction p s rule: end_pos.induct) auto

lemma bs_ref_snoc:
  "script_ok p s \<Longrightarrow> diff_total s = int (length d) \<Longrightarrow> extra_total s = int (length e) \<Longrightarrow>
   bs_ref old p (s @ [(x, y, z)]) (d @ d') (e @ e') =
     bs_ref old p s d e @ add_ref old (end_pos p s) (take (nat x) d') @ take (nat y) e'"
proof (induction s arbitrary: p d e)
  case (Cons t s)
  obtain x0 y0 z0 where t: "t = (x0, y0, z0)" by (cases t)
  have nn: "0 \<le> diff_total s" "0 \<le> extra_total s" using totals_nonneg [of "p + x0 + z0" s] Cons.prems by (auto simp: t)
  have "bs_ref old (p + x0 + z0) (s @ [(x, y, z)]) (drop (nat x0) d @ d') (drop (nat y0) e @ e') =
      bs_ref old (p + x0 + z0) s (drop (nat x0) d) (drop (nat y0) e) @
        add_ref old (end_pos (p + x0 + z0) s) (take (nat x) d') @ take (nat y) e'"
    using Cons.prems nn by (intro Cons.IH) (auto simp: t)
  then show ?case using Cons.prems nn by (auto simp: t)
qed simp

section \<open>The loops stay in range\<close>

lemma rd_ok: "0 \<le> i \<Longrightarrow> i < int (length xs) \<Longrightarrow> rd xs i = Some (xs ! nat i)"
  by (simp add: rd_def)

lemma same_ok:
  assumes "0 \<le> i" and "i < int (length xs)" and "0 \<le> j" and "j < int (length ys)"
  obtains eq where "same xs i ys j = Some eq"
  using assms by (auto simp: same_def rd_ok)

lemma matchlen_le: "matchlen as bs \<le> length as" "matchlen as bs \<le> length bs"
  by (induction as bs rule: matchlen.induct) auto

lemma matchlen_end:
  assumes "0 \<le> a" and "a \<le> int (length old)"
  shows "a + int (matchlen (drop (nat a) old) nw) \<le> int (length old)"
proof -
  have "nat a + matchlen (drop (nat a) old) nw \<le> length old"
    using matchlen_le(1) [of "drop (nat a) old" nw] assms by auto
  then show ?thesis using assms(1) by linarith
qed

definition index_ok :: "int list \<Rightarrow> byte list \<Rightarrow> bool" where
  "index_ok I old \<longleftrightarrow> length I = length old + 1 \<and> list_all (\<lambda>x. 0 \<le> x \<and> x \<le> int (length old)) I"

lemma index_rd:
  assumes "index_ok I old" and "0 \<le> i" and "i \<le> int (length old)"
  obtains x where "rd I i = Some x" "0 \<le> x" "x \<le> int (length old)"
  using assms by (auto simp: index_ok_def rd_def list_all_length)

lemma search_ok:
  assumes I: "index_ok I old"
  shows "0 \<le> st \<Longrightarrow> st \<le> en \<Longrightarrow> en \<le> int (length old) \<Longrightarrow>
    \<exists>l p. search I old nw st en = Some (l, p) \<and> 0 \<le> l \<and> l \<le> int (length nw) \<and> 0 \<le> p \<and> p + l \<le> int (length old)"
proof (induction "nat (en - st)" arbitrary: st en rule: less_induct)
  case less
  show ?case
  proof (cases "en - st < 2")
    case True
    obtain a where a: "rd I st = Some a" "0 \<le> a" "a \<le> int (length old)"
      by (rule index_rd [OF I, of st]) (use less.prems in auto)
    obtain b where b: "rd I en = Some b" "0 \<le> b" "b \<le> int (length old)"
      by (rule index_rd [OF I, of en]) (use less.prems in auto)
    show ?thesis
      using True a b matchlen_le(2) [of "drop (nat a) old" nw] matchlen_le(2) [of "drop (nat b) old" nw]
        matchlen_end [OF a(2,3), of nw] matchlen_end [OF b(2,3), of nw]
      by (subst search.simps) (auto simp: Let_def)
  next
    case False
    define x where "x = st + (en - st) div 2"
    have x: "st < x" "x < en" using False by (auto simp: x_def)
    obtain a where a: "rd I x = Some a" "0 \<le> a" "a \<le> int (length old)"
      by (rule index_rd [OF I, of x]) (use less.prems x in auto)
    have "\<exists>l p. search I old nw x en = Some (l, p) \<and> 0 \<le> l \<and> l \<le> int (length nw) \<and> 0 \<le> p \<and> p + l \<le> int (length old)"
      "\<exists>l p. search I old nw st x = Some (l, p) \<and> 0 \<le> l \<and> l \<le> int (length nw) \<and> 0 \<le> p \<and> p + l \<le> int (length old)"
      using less.hyps [of en x] less.hyps [of x st] x less.prems by auto
    then show ?thesis
      using False a by (subst search.simps) (auto simp: x_def [symmetric] Let_def)
  qed
qed

lemma score_ok:
  "0 \<le> sc \<Longrightarrow> 0 \<le> sc + lo \<Longrightarrow> bound \<le> int (length nw) \<Longrightarrow> \<exists>r \<ge> os. score_loop old nw lo bound sc os = Some r"
proof (induction "nat (bound - sc)" arbitrary: sc os rule: less_induct)
  case less
  show ?case
  proof (cases "sc < bound")
    case True
    obtain eq where eq: "(if sc + lo < int (length old) then same old (sc + lo) nw sc else Some False) = Some eq"
    proof (cases "sc + lo < int (length old)")
      case lt: True
      then obtain eq where "same old (sc + lo) nw sc = Some eq"
        by (rule same_ok [of "sc + lo" old sc nw, rotated]) (use less.prems True in auto)
      then show ?thesis using that lt by simp
    qed (use that in auto)
    obtain r where "(if eq then os + 1 else os) \<le> r" "score_loop old nw lo bound (sc + 1) (if eq then os + 1 else os) = Some r"
      using less.hyps [of "sc + 1" "if eq then os + 1 else os"] True less.prems by auto
    then show ?thesis using True eq by (subst score_loop.simps) (auto split: if_splits)
  next
    case False
    then show ?thesis by (subst score_loop.simps) auto
  qed
qed

lemma scan_ok:
  assumes I: "index_ok I old"
  shows "0 \<le> sn \<Longrightarrow> sn \<le> int (length nw) \<Longrightarrow> 0 \<le> sn + lo \<Longrightarrow> 0 \<le> sc \<and> 0 \<le> sc + lo \<Longrightarrow> sc \<le> int (length nw) \<Longrightarrow> sn0 - sn \<le> os \<Longrightarrow> sn0 \<le> sn \<Longrightarrow>
    0 \<le> ps \<Longrightarrow> ps \<le> int (length old) \<Longrightarrow>
    \<exists>sn' l p os'. scan_loop I old nw lo sn sc os ln ps = Some (sn', l, p, os') \<and> sn \<le> sn' \<and> sn' \<le> int (length nw) \<and>
      0 \<le> p \<and> p \<le> int (length old) \<and> (sn' < int (length nw) \<longrightarrow> 0 \<le> l \<and> sn' + l \<le> int (length nw) \<and> sn0 < sn' + l)"
proof (induction "nat (int (length nw) - sn)" arbitrary: sn sc os ln ps rule: less_induct)
  case less
  show ?case
  proof (cases "sn < int (length nw)")
    case False
    then show ?thesis using less.prems by (subst scan_loop.simps) auto
  next
    case True
    obtain l p where lp: "search I old (drop (nat sn) nw) 0 (int (length old)) = Some (l, p)" "0 \<le> l"
      "l \<le> int (length (drop (nat sn) nw))" "0 \<le> p" "p + l \<le> int (length old)"
      using search_ok [OF I, of 0 "int (length old)" "drop (nat sn) nw"] by auto
    have l: "sn + l \<le> int (length nw)" "p \<le> int (length old)" using lp less.prems True by auto
    obtain os1 where os1: "os \<le> os1" "score_loop old nw lo (sn + l) sc os = Some os1"
      using score_ok [of sc lo "sn + l" nw os old] less.prems l by auto
    obtain eq where eq: "(if sn + lo < int (length old) then same old (sn + lo) nw sn else Some False) = Some eq"
    proof (cases "sn + lo < int (length old)")
      case lt: True
      then obtain eq where "same old (sn + lo) nw sn = Some eq"
        by (rule same_ok [of "sn + lo" old sn nw, rotated]) (use less.prems True in auto)
      then show ?thesis using that lt by simp
    qed (use that in auto)
    show ?thesis
    proof (cases "l = os1 \<and> l \<noteq> 0 \<or> l > os1 + 8")
      case brk: True
      have "sn0 < sn + l" using brk os1(1) less.prems(6,7) lp(2) by auto
      then show ?thesis
        using True brk lp os1 l less.prems by (subst scan_loop.simps) (auto simp: Let_def)
    next
      case no: False
      have "\<exists>sn' l' p' os'. scan_loop I old nw lo (sn + 1) (max sc (sn + l)) (if eq then os1 - 1 else os1) l p =
          Some (sn', l', p', os') \<and> sn + 1 \<le> sn' \<and> sn' \<le> int (length nw) \<and>
          0 \<le> p' \<and> p' \<le> int (length old) \<and> (sn' < int (length nw) \<longrightarrow> 0 \<le> l' \<and> sn' + l' \<le> int (length nw) \<and> sn0 < sn' + l')"
        using less.prems True l lp os1 by (intro less.hyps) auto
      then show ?thesis
        using True no lp(1) os1(2) eq by (subst scan_loop.simps) (auto simp: Let_def)
    qed
  qed
qed

lemma forward_ok:
  "0 \<le> i \<Longrightarrow> 0 \<le> lenf \<Longrightarrow> lenf \<le> i \<Longrightarrow> 0 \<le> ls \<Longrightarrow> 0 \<le> lp \<Longrightarrow> sn \<le> int (length nw) \<Longrightarrow>
   ls + lenf \<le> sn \<Longrightarrow> lp + lenf \<le> int (length old) \<Longrightarrow>
   \<exists>r. forward_loop old nw ls lp sn i s Sf lenf = Some r \<and> 0 \<le> r \<and> ls + r \<le> sn \<and> lp + r \<le> int (length old)"
proof (induction "nat (sn - (ls + i))" arbitrary: i s Sf lenf rule: less_induct)
  case less
  show ?case
  proof (cases "ls + i < sn \<and> lp + i < int (length old)")
    case True
    obtain eq where eq: "same old (lp + i) nw (ls + i) = Some eq"
      by (rule same_ok [of "lp + i" old "ls + i" nw]) (use less.prems True in auto)
    have "\<exists>r. forward_loop old nw ls lp sn (i + 1) s' Sf' lenf' = Some r \<and> 0 \<le> r \<and> ls + r \<le> sn \<and> lp + r \<le> int (length old)"
      if "lenf' = i + 1 \<or> lenf' = lenf" for s' Sf' lenf'
      using less.prems True that by (intro less.hyps) auto
    then show ?thesis using True eq by (subst forward_loop.simps) (auto simp: Let_def)
  next
    case False
    then show ?thesis using less.prems by (subst forward_loop.simps) auto
  qed
qed

lemma backward_ok:
  "1 \<le> i \<Longrightarrow> 0 \<le> lenb \<Longrightarrow> 0 \<le> ls \<Longrightarrow> sn \<le> int (length nw) \<Longrightarrow> ps \<le> int (length old) \<Longrightarrow>
   ls + lenb \<le> sn \<Longrightarrow> lenb \<le> ps \<Longrightarrow>
   \<exists>r. backward_loop old nw ls ps sn i s Sb lenb = Some r \<and> 0 \<le> r \<and> ls + r \<le> sn \<and> r \<le> ps"
proof (induction "nat (ps - i + 1)" arbitrary: i s Sb lenb rule: less_induct)
  case less
  show ?case
  proof (cases "sn \<ge> ls + i \<and> ps \<ge> i")
    case True
    obtain eq where eq: "same old (ps - i) nw (sn - i) = Some eq"
      by (rule same_ok [of "ps - i" old "sn - i" nw]) (use less.prems True in auto)
    have "\<exists>r. backward_loop old nw ls ps sn (i + 1) s' Sb' lenb' = Some r \<and> 0 \<le> r \<and> ls + r \<le> sn \<and> r \<le> ps"
      if "lenb' = i \<or> lenb' = lenb" for s' Sb' lenb'
      using less.prems True that by (intro less.hyps) auto
    then show ?thesis using True eq by (subst backward_loop.simps) (auto simp: Let_def)
  next
    case False
    then show ?thesis using less.prems by (subst backward_loop.simps) auto
  qed
qed

lemma overlap_ok:
  "0 \<le> i \<Longrightarrow> 0 \<le> lens \<Longrightarrow> lens \<le> n \<Longrightarrow> 0 \<le> nf \<Longrightarrow> nf + n \<le> int (length nw) \<Longrightarrow> 0 \<le> olf \<Longrightarrow> olf + n \<le> int (length old) \<Longrightarrow>
   0 \<le> nb \<Longrightarrow> nb + n \<le> int (length nw) \<Longrightarrow> 0 \<le> ob \<Longrightarrow> ob + n \<le> int (length old) \<Longrightarrow>
   \<exists>r. overlap_loop old nw nf olf nb ob n i s Ss lens = Some r \<and> 0 \<le> r \<and> r \<le> n"
proof (induction "nat (n - i)" arbitrary: i s Ss lens rule: less_induct)
  case less
  show ?case
  proof (cases "i < n")
    case True
    obtain e1 where e1: "same nw (nf + i) old (olf + i) = Some e1"
      by (rule same_ok [of "nf + i" nw "olf + i" old]) (use less.prems True in auto)
    obtain e2 where e2: "same nw (nb + i) old (ob + i) = Some e2"
      by (rule same_ok [of "nb + i" nw "ob + i" old]) (use less.prems True in auto)
    have "\<exists>r. overlap_loop old nw nf olf nb ob n (i + 1) s' Ss' lens' = Some r \<and> 0 \<le> r \<and> r \<le> n"
      if "lens' = i + 1 \<or> lens' = lens" for s' Ss' lens'
      using less.prems True that by (intro less.hyps) auto
    then show ?thesis using True e1 e2 by (subst overlap_loop.simps) (simp add: Let_def)
  next
    case False
    then show ?thesis using less.prems by (subst overlap_loop.simps) auto
  qed
qed

lemma split_overlap_ok:
  assumes "0 \<le> lastscan v" and "0 \<le> lastpos v" and "lastscan v \<le> scan v" and "scan v \<le> int (length nw)"
    and "pos v \<le> int (length old)" and "0 \<le> lenf" and "lastscan v + lenf \<le> scan v" and "lastpos v + lenf \<le> int (length old)"
    and "0 \<le> lenb" and "lastscan v + lenb \<le> scan v" and "lenb \<le> pos v"
  shows "\<exists>f b. split_overlap old nw v lenf lenb = Some (f, b) \<and> 0 \<le> f \<and> f \<le> lenf \<and> 0 \<le> b \<and> b \<le> lenb \<and>
    lastscan v + f \<le> scan v - b"
proof (cases "lastscan v + lenf > scan v - lenb")
  case True
  define n where "n = (lastscan v + lenf) - (scan v - lenb)"
  have n: "0 \<le> n" "n \<le> lenf" "n \<le> lenb" using True assms by (auto simp: n_def)
  have "\<exists>r. overlap_loop old nw (lastscan v + lenf - n) (lastpos v + lenf - n) (scan v - lenb) (pos v - lenb) n 0 0 0 0 =
      Some r \<and> 0 \<le> r \<and> r \<le> n"
    using assms n by (intro overlap_ok) (auto simp: n_def)
  then obtain r where r: "overlap_loop old nw (lastscan v + lenf - n) (lastpos v + lenf - n) (scan v - lenb) (pos v - lenb) n 0 0 0 0 =
      Some r" "0 \<le> r" "r \<le> n" by blast
  have "split_overlap old nw v lenf lenb = Some (lenf + (r - n), lenb - r)"
    using True r(1) by (simp add: split_overlap_def n_def [symmetric] Let_def)
  then show ?thesis using n r(2,3) by (auto simp: n_def)
next
  case False
  then show ?thesis using assms by (auto simp: split_overlap_def)
qed

section \<open>The pieces decode to the new file\<close>

lemma diff_piece_ok:
  "0 \<le> ls \<Longrightarrow> 0 \<le> lp \<Longrightarrow> ls + int n \<le> int (length nw) \<Longrightarrow> lp + int n \<le> int (length old) \<Longrightarrow>
   \<exists>ds. diff_piece old nw ls lp n = Some ds \<and> length ds = n \<and> add_ref old lp ds = segment nw (nat ls) n"
proof (induction n arbitrary: ls lp)
  case (Suc n)
  obtain ds where ds: "diff_piece old nw (ls + 1) (lp + 1) n = Some ds" "length ds = n"
    "add_ref old (lp + 1) ds = segment nw (nat (ls + 1)) n"
    using Suc.IH [of "ls + 1" "lp + 1"] Suc.prems by auto
  have "segment nw (nat ls) (Suc n) = nw ! nat ls # segment nw (nat (ls + 1)) n"
    using Suc.prems by (simp add: segment_Suc nat_add_distrib)
  then show ?case using ds Suc.prems by (auto simp: rd_ok)
qed simp

lemma copy_piece_ok:
  "0 \<le> p \<Longrightarrow> p + int n \<le> int (length nw) \<Longrightarrow> copy_piece nw p n = Some (segment nw (nat p) n)"
proof (induction n arbitrary: p)
  case (Suc n)
  have "copy_piece nw (p + 1) n = Some (segment nw (nat (p + 1)) n)" using Suc by simp
  moreover have "segment nw (nat p) (Suc n) = nw ! nat p # segment nw (nat (p + 1)) n"
    using Suc.prems by (simp add: segment_Suc nat_add_distrib)
  ultimately show ?case using Suc.prems by (simp add: rd_ok)
qed simp

text \<open>
  The invariant: the triples written so far decode, with the diff and extra bytes collected so far,
  to the first \<open>lastscan\<close> bytes of the new file, and leave the old position at \<open>lastpos\<close>.
\<close>

definition covers :: "byte list \<Rightarrow> byte list \<Rightarrow> script \<Rightarrow> bsd \<Rightarrow> bool" where
  "covers old nw s v \<longleftrightarrow>
     bs_ref old 0 s (db v) (eb v) = take (nat (lastscan v)) nw \<and> diff_total s = int (length (db v)) \<and>
     extra_total s = int (length (eb v)) \<and> diff_total s + extra_total s = lastscan v \<and> end_pos 0 s = lastpos v \<and>
     script_ok 0 s \<and> list_all triple_ok s \<and> ctrl v = concat (map ctrl_bytes s) \<and> 0 \<le> lastpos v \<and>
     lastpos v \<le> int (length old)"

definition bsd_inv :: "byte list \<Rightarrow> byte list \<Rightarrow> bsd \<Rightarrow> bool" where
  "bsd_inv old nw v \<longleftrightarrow> (\<exists>s. covers old nw s v) \<and> lastscan v \<le> scan v \<and> scan v \<le> int (length nw) \<and>
     0 \<le> pos v \<and> pos v \<le> int (length old) \<and> 0 \<le> scan v + lastoffset v \<and>
     (scan v < int (length nw) \<longrightarrow> 0 \<le> len v \<and> scan v + len v \<le> int (length nw)) \<and>
     (scan v = int (length nw) \<longrightarrow> lastscan v = int (length nw))"

lemma covers_lastscan: "covers old nw s v \<Longrightarrow> 0 \<le> lastscan v"
  by (auto simp: covers_def)

lemma emit_ok:
  assumes cov: "covers old nw s v" and f: "0 \<le> f" "lastpos v + f \<le> int (length old)"
    and b: "0 \<le> b" "b \<le> pos v" and fb: "lastscan v + f \<le> scan v - b"
    and r: "scan v \<le> int (length nw)" "pos v \<le> int (length old)"
    and sz: "int (length old) < 2 ^ 30" "int (length nw) < 2 ^ 30"
  shows "\<exists>v' s'. emit old nw f b v = Some v' \<and> covers old nw s' v' \<and> lastscan v' = scan v - b \<and>
    lastoffset v' = pos v - scan v \<and> scan v' = scan v \<and> len v' = len v \<and> pos v' = pos v"
proof -
  define ex where "ex = (scan v - b) - (lastscan v + f)"
  have ls: "0 \<le> lastscan v" and lp: "0 \<le> lastpos v" "end_pos 0 s = lastpos v"
    using cov covers_lastscan by (auto simp: covers_def)
  have ex: "0 \<le> ex" "lastscan v + f + ex = scan v - b" using fb by (auto simp: ex_def)
  obtain ds where ds: "diff_piece old nw (lastscan v) (lastpos v) (nat f) = Some ds" "length ds = nat f"
    "add_ref old (lastpos v) ds = segment nw (nat (lastscan v)) (nat f)"
    using diff_piece_ok [of "lastscan v" "lastpos v" "nat f" nw old] ls lp f b fb r by auto
  define es where "es = segment nw (nat (lastscan v + f)) (nat ex)"
  have es: "copy_piece nw (lastscan v + f) (nat ex) = Some es" "length es = nat ex"
    using copy_piece_ok [of "lastscan v + f" "nat ex" nw] ls f b ex r by (auto simp: es_def nat_add_distrib)
  let ?t = "(f, ex, (pos v - b) - (lastpos v + f))"
  let ?v = "v\<lparr>db := db v @ ds, eb := eb v @ es, ctrl := ctrl v @ ctrl_bytes ?t,
      lastscan := scan v - b, lastpos := pos v - b, lastoffset := pos v - scan v\<rparr>"
  have tot: "int (length (db v)) + int (length (eb v)) = lastscan v" using cov by (simp add: covers_def)
  have "length (db v) + length ds \<le> length nw + 1" "length (eb v) + length es \<le> length nw + 1"
    using tot ds(2) es(2) ex f b r by linarith+
  then have emit: "emit old nw f b v = Some ?v"
    using ds(1) es(1) by (simp add: emit_def ex_def [symmetric] ctrl_bytes_def Let_def)
  have sum: "nat (lastscan v) + nat f = nat (lastscan v + f)" "nat (lastscan v + f) + nat ex = nat (scan v - b)"
    using ls f ex by (auto simp: nat_add_distrib [symmetric])
  have "take (nat (lastscan v)) nw @ segment nw (nat (lastscan v)) (nat f) @ es = take (nat (scan v - b)) nw"
    using segment_add [of nw 0 "nat (lastscan v)" "nat f"] segment_add [of nw 0 "nat (lastscan v + f)" "nat ex"]
    by (simp add: es_def sum segment_def)
  then have ref: "bs_ref old 0 (s @ [?t]) (db v @ ds) (eb v @ es) = take (nat (scan v - b)) nw"
    using cov bs_ref_snoc [of 0 s "db v" "eb v" old f ex "(pos v - b) - (lastpos v + f)" ds es] ds es lp
    by (simp add: covers_def)
  have "triple_ok ?t" "i32_ok (lastpos v + f)" "i32_ok (pos v - b)"
    using sz f b ex r lp ls by (auto simp: triple_ok_def i32_ok_def)
  then have "covers old nw (s @ [?t]) ?v"
    using cov ref ds(2) es(2) f b ex r lp by (auto simp: covers_def)
  then show ?thesis using emit by (intro exI [of _ ?v] exI [of _ "s @ [?t]"]) simp
qed

lemma bsdiff_step_ok:
  assumes I: "index_ok I old" and inv: "bsd_inv old nw v" and lt: "scan v < int (length nw)"
    and sz: "int (length old) < 2 ^ 30" "int (length nw) < 2 ^ 30"
  shows "\<exists>v'. bsdiff_step I old nw v = Some v' \<and> bsd_inv old nw v' \<and>
    (scan v' < int (length nw) \<longrightarrow> scan v + len v < scan v' + len v')"
proof -
  obtain s where cov: "covers old nw s v" using inv by (auto simp: bsd_inv_def)
  define sn0 where "sn0 = scan v + len v"
  have v: "lastscan v \<le> scan v" "0 \<le> pos v" "pos v \<le> int (length old)" "0 \<le> scan v + lastoffset v"
    "0 \<le> len v" "sn0 \<le> int (length nw)" "0 \<le> lastscan v" "0 \<le> lastpos v" "lastpos v \<le> int (length old)"
    using inv lt cov covers_lastscan by (auto simp: bsd_inv_def covers_def sn0_def)
  obtain sn l p os where sc: "scan_loop I old nw (lastoffset v) sn0 sn0 0 (len v) (pos v) = Some (sn, l, p, os)"
    and r: "sn0 \<le> sn" "sn \<le> int (length nw)" "0 \<le> p" "p \<le> int (length old)"
      "sn < int (length nw) \<longrightarrow> 0 \<le> l \<and> sn + l \<le> int (length nw) \<and> sn0 < sn + l"
    using scan_ok [OF I, of sn0 nw "lastoffset v" sn0 sn0 0 "pos v" "len v"] v by (auto simp: sn0_def)
  let ?v = "v\<lparr>scan := sn, len := l, pos := p\<rparr>"
  have cov': "covers old nw s ?v" using cov by (simp add: covers_def)
  have ge: "scan v \<le> sn" "lastscan v \<le> sn" using r v by (auto simp: sn0_def)
  show ?thesis
  proof (cases "l \<noteq> os \<or> sn = int (length nw)")
    case False
    have "bsdiff_step I old nw v = Some ?v" using False sc by (simp add: bsdiff_step_def sn0_def)
    moreover have "bsd_inv old nw ?v" using False cov' r v ge by (auto simp: bsd_inv_def)
    ultimately show ?thesis using r by (auto simp: sn0_def)
  next
    case True
    obtain lf where lf: "forward_loop old nw (lastscan v) (lastpos v) sn 0 0 0 0 = Some lf" "0 \<le> lf"
      "lastscan v + lf \<le> sn" "lastpos v + lf \<le> int (length old)"
      using forward_ok [of 0 0 "lastscan v" "lastpos v" sn nw old 0 0] v ge r by auto
    obtain lb where lb: "(if sn < int (length nw) then backward_loop old nw (lastscan v) p sn 1 0 0 0 else Some 0) = Some lb"
      "0 \<le> lb" "lastscan v + lb \<le> sn" "lb \<le> p" "sn = int (length nw) \<longrightarrow> lb = 0"
      using backward_ok [of 1 0 "lastscan v" sn nw p old 0 0] v ge r by (cases "sn < int (length nw)") auto
    obtain f b where fb: "split_overlap old nw ?v lf lb = Some (f, b)" "0 \<le> f" "f \<le> lf" "0 \<le> b" "b \<le> lb"
      "lastscan v + f \<le> sn - b"
      using split_overlap_ok [of ?v nw old lf lb] v ge r lf lb by auto
    obtain v' s' where e: "emit old nw f b ?v = Some v'" "covers old nw s' v'" "lastscan v' = sn - b"
      "lastoffset v' = p - sn" "scan v' = sn" "len v' = l" "pos v' = p"
      using emit_ok [OF cov', of f b] fb lf lb r sz by auto
    have "bsdiff_step I old nw v = Some v'"
      using True sc lf(1) lb(1) fb(1) e(1)
      by (cases "sn < int (length nw)") (auto simp: bsdiff_step_def sn0_def [symmetric] Let_def)
    moreover have "bsd_inv old nw v'"
      using e r fb lb by (auto simp: bsd_inv_def)
    ultimately show ?thesis using r e by (auto simp: sn0_def)
  qed
qed

lemma bsdiff_loop_ok:
  assumes "index_ok I old" and "int (length old) < 2 ^ 30" and "int (length nw) < 2 ^ 30"
  shows "bsd_inv old nw v \<Longrightarrow>
    \<exists>v' s. bsdiff_loop I old nw v = Some v' \<and> covers old nw s v' \<and> lastscan v' = int (length nw)"
proof (induction "if scan v < int (length nw) then Suc (nat (int (length nw) - (scan v + len v))) else 0"
    arbitrary: v rule: less_induct)
  case less
  show ?case
  proof (cases "scan v < int (length nw)")
    case True
    obtain v' where v': "bsdiff_step I old nw v = Some v'" "bsd_inv old nw v'"
      "scan v' < int (length nw) \<longrightarrow> scan v + len v < scan v' + len v'"
      using bsdiff_step_ok [OF assms(1) less.prems True assms(2,3)] by blast
    have "scan v' < int (length nw) \<longrightarrow> scan v' + len v' \<le> int (length nw)" using v'(2) by (auto simp: bsd_inv_def)
    then have "(if scan v' < int (length nw) then Suc (nat (int (length nw) - (scan v' + len v'))) else 0) <
        (if scan v < int (length nw) then Suc (nat (int (length nw) - (scan v + len v))) else 0)"
      using True v'(3) by auto
    then obtain w s where "bsdiff_loop I old nw v' = Some w" "covers old nw s w" "lastscan w = int (length nw)"
      using less.hyps [OF _ v'(2)] by blast
    then show ?thesis using True v'(1) by (subst bsdiff_loop.simps) auto
  next
    case False
    then show ?thesis using less.prems by (subst bsdiff_loop.simps) (auto simp: bsd_inv_def)
  qed
qed

lemma apply_bsdiff:
  assumes "index_ok I old" and "int (length old) < 2 ^ 30" and "int (length nw) < 2 ^ 30"
    and "bz_contract B R" and "\<And>bs. R (bz_init B (bzcompress bs)) bs" and "\<And>n. malloc_ok n"
  shows "\<exists>patch. bsdiff bzcompress I old nw = Some patch \<and>
    (int (length patch) < 2 ^ 31 \<longrightarrow>
      ApplyBSDiffPatchMem B malloc_ok old (int (length old)) patch 0 = Some (Some nw))"
proof -
  let ?v0 = "\<lparr>scan = 0, len = 0, pos = 0, lastscan = 0, lastpos = 0, lastoffset = 0, db = [], eb = [], ctrl = []\<rparr>"
  have "covers old nw [] ?v0" by (simp add: covers_def)
  then have "bsd_inv old nw ?v0" by (auto simp: bsd_inv_def)
  then obtain v s where v: "bsdiff_loop I old nw ?v0 = Some v" "covers old nw s v" "lastscan v = int (length nw)"
    using bsdiff_loop_ok [OF assms(1-3)] by blast
  define c d e where "c = bzcompress (ctrl v)" and "d = bzcompress (db v)" and "e = bzcompress (eb v)"
  define patch where "patch = BSDIFF40 @ offtout (int (length c)) @ offtout (int (length d)) @ offtout (int (length nw)) @ c @ d @ e"
  have patch: "bsdiff bzcompress I old nw = Some patch"
    using v(1) by (simp add: bsdiff_def patch_def c_def d_def e_def Let_def)
  have magic: "length BSDIFF40 = 8" by (simp add: BSDIFF40_def)
  have "ApplyBSDiffPatchMem B malloc_ok old (int (length old)) patch 0 = Some (Some (bs_ref old 0 s (db v) (eb v)))"
    if small: "int (length patch) < 2 ^ 31"
  proof (rule apply_mem_ref [OF assms(4), where clen = "int (length c)" and dlen = "int (length d)"
        and new_size = "int (length nw)" and ctrl = "ctrl v"])
    have lens: "int (length c) < 2 ^ 31" "int (length d) < 2 ^ 31" using small by (auto simp: patch_def)
    show "segment_ub patch 0 8 = Some BSDIFF40" using magic by (simp add: patch_def segment_ub_def segment_def)
    show "offtin patch (0 + 8) = Some (int (length c))"
      using offtin_offtout [of "int (length c)" BSDIFF40 8] lens magic by (simp add: patch_def)
    show "offtin patch (0 + 16) = Some (int (length d))"
      using offtin_offtout [of "int (length d)" "BSDIFF40 @ offtout (int (length c))" 16] lens magic by (simp add: patch_def)
    show "offtin patch (0 + 24) = Some (int (length nw))"
      using offtin_offtout [of "int (length nw)" "BSDIFF40 @ offtout (int (length c)) @ offtout (int (length d))" 24]
        assms(3) magic by (simp add: patch_def)
    show "R (bz_init B (segment patch (0 + 32) (nat (int (length c))))) (ctrl v)"
      "R (bz_init B (segment patch (0 + 32 + nat (int (length c))) (nat (int (length d))))) (db v)"
      "R (bz_init B (drop (0 + 32 + nat (int (length c)) + nat (int (length d))) patch)) (eb v)"
      using assms(5) magic by (simp_all add: patch_def segment_def c_def d_def e_def)
    show "reads_script (ctrl v) s" using v(2) reads_ctrl_bytes by (simp add: covers_def)
  qed (use v(2,3) assms(3,6) magic in \<open>auto simp: covers_def patch_def i32_ok_def\<close>)
  moreover have "bs_ref old 0 s (db v) (eb v) = nw" using v(2,3) by (simp add: covers_def)
  ultimately show ?thesis using patch by auto
qed

section \<open>Properties\<close>

text \<open>
  C15.  Applying a patch made by \<open>bsdiff\<close> to the old file gives the new file, for all pairs of files and
  every index array of old positions: the difference computation ends, never accesses an array
  out of range, and the patch it writes is applied without error.  Of the compressor only is
  assumed that the decompressor delivers what was compressed.
\<close>

theorem bsdiff_bspatch_roundtrip:
  assumes "index_ok I old" and "int (length old) < 2 ^ 30" and "int (length nw) < 2 ^ 30"
    and "bz_contract B R" and "\<And>bs. R (bz_init B (bzcompress bs)) bs" and "\<And>n. malloc_ok n"
  shows "\<exists>patch. bsdiff bzcompress I old nw = Some patch \<and>
    (int (length patch) < 2 ^ 31 \<longrightarrow>
      ApplyBSDiffPatchMem B malloc_ok old (int (length old)) patch 0 = Some (Some nw))"
  using assms by (rule apply_bsdiff)

theorem bsdiff_bspatch_roundtrip_witness:
  "\<exists>patch. bsdiff id [2, 0, 1] [10, 20] [20, 10, 20, 30] = Some patch \<and>
    (int (length patch) < 2 ^ 31 \<longrightarrow>
      ApplyBSDiffPatchMem storing_bz (\<lambda>_. True) [10, 20] (int (length [10, 20 :: byte])) patch 0 =
        Some (Some [20, 10, 20, 30]))"
  by (rule bsdiff_bspatch_roundtrip [where R = "(=)"]) (simp_all add: index_ok_def storing_contract, simp add: storing_bz_def)

end
