(* ===== verification/Imgpatch.thy ===== *)
theory Imgpatch
  imports Bspatch
begin

text \<open>
  Applying image patches (\<^verbatim>\<open>applypatch/imgpatch.c\<close>, chunk types from \<^verbatim>\<open>imgdiff.h\<close>).

  The zlib calls are parameters: \<open>zexpand src n\<close> is the output of inflating \<open>src\<close> into \<open>n\<close> bytes of
  room when that reaches the end of the stream, and the deflater is a state machine whose step
  reports the end of the stream and its output.  \<open>None\<close> in the results is undefined behaviour or a
  call that does not return.
\<close>

definition CHUNK_NORMAL :: int where "CHUNK_NORMAL = 0"
definition CHUNK_DEFLATE :: int where "CHUNK_DEFLATE = 2"
definition CHUNK_RAW :: int where "CHUNK_RAW = 3"

definition IMGDIFF2 :: "byte list" where
  "IMGDIFF2 = map (\<lambda>c. of_nat (of_char c)) ''IMGDIFF2''"

text \<open>Level, method, window bits, memory level and strategy.\<close>

type_synonym deflate_params = "int \<times> int \<times> int \<times> int \<times> int"

record ('b, 'd) codecs =
  cbz :: "'b bz"
  zexpand :: "byte list \<Rightarrow> nat \<Rightarrow> byte list option"
  dinit :: "deflate_params \<Rightarrow> byte list \<Rightarrow> 'd"
  dstep :: "'d \<Rightarrow> nat \<Rightarrow> bool \<times> 'd \<times> byte list"
  cmalloc :: "int \<Rightarrow> bool"

text \<open>Where the output goes: the sink and the hash.\<close>

record ('t, 'h) outputs =
  osink :: "'t sink_fn"
  oupdate :: "'h \<Rightarrow> byte list \<Rightarrow> 'h"

definition size_t :: "int \<Rightarrow> nat" where
  "size_t x = nat (x mod 2 ^ 32)"

section \<open>Chunks\<close>

definition normal_chunk ::
  "('b, 'd) codecs \<Rightarrow> ('t, 'h) outputs \<Rightarrow> byte list \<Rightarrow> byte list \<Rightarrow> nat \<Rightarrow> 't \<Rightarrow> 'h option \<Rightarrow> ('t \<times> 'h option) ub" where
  "normal_chunk C S old_data patch hdr token ctx = do {
     src_start \<leftarrow> Read8 patch hdr;
     src_len \<leftarrow> Read8 patch (hdr + 8);
     patch_offset \<leftarrow> Read8 patch (hdr + 16);
     (r, token, ctx) \<leftarrow> ApplyBSDiffPatch (cbz C) (cmalloc C) (drop (size_t src_start) old_data)
       (sint (of_int src_len :: u32)) patch (size_t patch_offset) (osink S) (oupdate S) token ctx;
     Some (token, ctx)}"

text \<open>The result is the position after the data, or \<open>None\<close> for the error code.\<close>

definition raw_chunk ::
  "('t, 'h) outputs \<Rightarrow> byte list \<Rightarrow> nat \<Rightarrow> 't \<Rightarrow> 'h option \<Rightarrow> (nat option \<times> 't \<times> 'h option) ub" where
  "raw_chunk S patch hdr token ctx = do {
     data_len \<leftarrow> Read4 patch hdr;
     data_end \<leftarrow> i32 (int (hdr + 4) + data_len);
     if data_end > int (length patch) then Some (None, token, ctx)
     else if data_len < 0 then None
     else do {
       c \<leftarrow> ctx;
       let bytes = segment patch (hdr + 4) (nat data_len);
       let ctx = Some (oupdate S c bytes);
       case osink S bytes token of
         (n, token) \<Rightarrow>
           if n \<noteq> data_len then Some (None, token, ctx)
           else Some (Some (hdr + 4 + nat data_len), token, ctx)}}"

partial_function (option) deflate_loop ::
  "('b, 'd) codecs \<Rightarrow> ('t, 'h) outputs \<Rightarrow> nat \<Rightarrow> 'd \<Rightarrow> 't \<Rightarrow> 'h option \<Rightarrow> (bool \<times> 't \<times> 'h option) option" where
  "deflate_loop C S temp_size strm token ctx =
     (case dstep C strm temp_size of
        (fin, strm, out) \<Rightarrow>
          (case osink S out token of
             (n, token) \<Rightarrow>
               if n \<noteq> int (length out) then Some (False, token, ctx)
               else case ctx of
                   None \<Rightarrow> None
                 | Some c \<Rightarrow>
                     if fin then Some (True, token, Some (oupdate S c out))
                     else deflate_loop C S temp_size strm token (Some (oupdate S c out))))"

definition deflate_chunk ::
  "('b, 'd) codecs \<Rightarrow> ('t, 'h) outputs \<Rightarrow> byte list \<Rightarrow> byte list \<Rightarrow> byte list option \<Rightarrow> nat \<Rightarrow> 't \<Rightarrow> 'h option \<Rightarrow>
   (bool \<times> 't \<times> 'h option) ub" where
  "deflate_chunk C S old_data patch bonus hdr token ctx = do {
     src_start \<leftarrow> Read8 patch hdr;
     src_len \<leftarrow> Read8 patch (hdr + 8);
     patch_offset \<leftarrow> Read8 patch (hdr + 16);
     expanded_len \<leftarrow> Read8 patch (hdr + 24);
     level \<leftarrow> Read4 patch (hdr + 40);
     method \<leftarrow> Read4 patch (hdr + 44);
     windowBits \<leftarrow> Read4 patch (hdr + 48);
     memLevel \<leftarrow> Read4 patch (hdr + 52);
     strategy \<leftarrow> Read4 patch (hdr + 56);
     let expanded_len = size_t expanded_len;
     let bonus_data = (case bonus of None \<Rightarrow> [] | Some b \<Rightarrow> b);
     if \<not> cmalloc C (int expanded_len) then Some (False, token, ctx)
     else do {
       src \<leftarrow> segment_ub old_data (size_t src_start) (size_t src_len);
       case zexpand C src expanded_len of
         None \<Rightarrow> Some (False, token, ctx)
       | Some out \<Rightarrow>
           if length out + length bonus_data \<noteq> expanded_len then Some (False, token, ctx)
           else do {
             r \<leftarrow> ApplyBSDiffPatchMem (cbz C) (cmalloc C) (out @ bonus_data) (sint (of_nat expanded_len :: u32))
               patch (size_t patch_offset);
             case r of
               None \<Rightarrow> Some (False, token, ctx)
             | Some target \<Rightarrow>
                 let small = (expanded_len < 32768 \<or> 2 ^ 31 \<le> expanded_len);
                     temp_size = (if small then 32768 else expanded_len) in
                 if small \<and> \<not> cmalloc C 32768 then None
                 else deflate_loop C S temp_size (dinit C (level, method, windowBits, memLevel, strategy) target) token ctx}}}"

section \<open>The patch\<close>

text \<open>\<open>n\<close> chunks remain, \<open>i\<close> is the number of the next; the bonus data goes into chunk 1.\<close>

fun image_loop ::
  "('b, 'd) codecs \<Rightarrow> ('t, 'h) outputs \<Rightarrow> byte list \<Rightarrow> byte list \<Rightarrow> byte list option \<Rightarrow> nat \<Rightarrow> nat \<Rightarrow> nat \<Rightarrow> 't \<Rightarrow> 'h option \<Rightarrow>
   (int \<times> 't \<times> 'h option) ub" where
  "image_loop C S old_data patch bonus 0 i pos token ctx = Some (0, token, ctx)"
| "image_loop C S old_data patch bonus (Suc n) i pos token ctx =
     (if pos + 4 > length patch then Some (- 1, token, ctx)
      else do {
        ctype \<leftarrow> Read4 patch pos;
        let hdr = pos + 4;
        if ctype = CHUNK_NORMAL then
          if hdr + 24 > length patch then Some (- 1, token, ctx)
          else do {
            (token, ctx) \<leftarrow> normal_chunk C S old_data patch hdr token ctx;
            image_loop C S old_data patch bonus n (i + 1) (hdr + 24) token ctx}
        else if ctype = CHUNK_RAW then
          if hdr + 4 > length patch then Some (- 1, token, ctx)
          else do {
            (r, token, ctx) \<leftarrow> raw_chunk S patch hdr token ctx;
            case r of
              None \<Rightarrow> Some (- 1, token, ctx)
            | Some pos \<Rightarrow> image_loop C S old_data patch bonus n (i + 1) pos token ctx}
        else if ctype = CHUNK_DEFLATE then
          if hdr + 60 > length patch then Some (- 1, token, ctx)
          else do {
            (ok, token, ctx) \<leftarrow> deflate_chunk C S old_data patch (if i = 1 then bonus else None) hdr token ctx;
            if \<not> ok then Some (- 1, token, ctx)
            else image_loop C S old_data patch bonus n (i + 1) (hdr + 60) token ctx}
        else Some (- 1, token, ctx)})"

definition ApplyImagePatch ::
  "('b, 'd) codecs \<Rightarrow> ('t, 'h) outputs \<Rightarrow> byte list \<Rightarrow> byte list \<Rightarrow> byte list option \<Rightarrow> 't \<Rightarrow> 'h option \<Rightarrow>
   (int \<times> 't \<times> 'h option) ub" where
  "ApplyImagePatch C S old_data patch bonus token ctx =
     (if length patch < 12 then Some (- 1, token, ctx)
      else if take 8 patch \<noteq> IMGDIFF2 then Some (- 1, token, ctx)
      else do {
        num_chunks \<leftarrow> Read4 patch 8;
        image_loop C S old_data patch bonus (nat num_chunks) 0 12 token ctx})"

section \<open>The hash covers what was written\<close>

text \<open>
  \<open>G\<close> relates the state of a sink and of the hash while everything that was reported as written has been hashed, \<open>W\<close> holds
  whatever happens: how a call of the sink has to keep them.
\<close>

definition sink_keeps :: "'t sink_fn \<Rightarrow> ('h \<Rightarrow> byte list \<Rightarrow> 'h) \<Rightarrow> ('t \<Rightarrow> 'h \<Rightarrow> bool) \<Rightarrow> ('t \<Rightarrow> bool) \<Rightarrow> bool" where
  "sink_keeps sink upd G W \<longleftrightarrow> (\<forall>bs t n t'. sink bs t = (n, t') \<longrightarrow>
     (W t \<longrightarrow> W t') \<and>
     (\<forall>c. W t \<and> G t c \<longrightarrow> (if int (length bs) \<le> n then G t' (upd c bs) else G t' c)))"

lemma sink_keepsD:
  assumes "sink_keeps sink upd G W" and "sink bs t = (n, t')" and "W t"
  shows "W t' \<and> (G t c \<longrightarrow> (if int (length bs) \<le> n then G t' (upd c bs) else G t' c))"
  using assms unfolding sink_keeps_def by blast

lemma bsdiff_keeps:
  assumes S: "sink_keeps sink upd G W" and W: "W t"
    and r: "ApplyBSDiffPatch B m old n patch off sink upd t (Some c) = Some (r, t', ctx')"
  shows "W t' \<and> (\<exists>c'. ctx' = Some c' \<and> (G t c \<longrightarrow> G t' c'))"
proof -
  obtain res where res: "ApplyBSDiffPatchMem B m old n patch off = Some res" using r by (auto simp: ApplyBSDiffPatch_def elim!: bind_eq_SomeE)
  show ?thesis
  proof (cases res)
    case None
    then show ?thesis using r res W by (auto simp: ApplyBSDiffPatch_def)
  next
    case (Some new)
    obtain k u where k: "sink new t = (k, u)" by (cases "sink new t")
    show ?thesis
      using r res Some k sink_keepsD [OF S k W, of c] by (auto simp: ApplyBSDiffPatch_def split: if_splits)
  qed
qed

lemma normal_keeps:
  assumes S: "sink_keeps (osink S) (oupdate S) G W" and W: "W t" and r: "normal_chunk C S old patch hdr t (Some c) = Some (t', ctx')"
  shows "W t' \<and> (\<exists>c'. ctx' = Some c' \<and> (G t c \<longrightarrow> G t' c'))"
  using r by (auto simp: normal_chunk_def elim!: bind_eq_SomeE dest!: bsdiff_keeps [OF S W])

lemma raw_keeps:
  assumes S: "sink_keeps (osink S) (oupdate S) G W" and W: "W t" and r: "raw_chunk S patch hdr t (Some c) = Some (r, t', ctx')"
  shows "W t' \<and> (\<exists>c'. ctx' = Some c' \<and> (r \<noteq> None \<and> G t c \<longrightarrow> G t' c'))"
proof -
  obtain data_len where d: "Read4 patch hdr = Some data_len" using r by (auto simp: raw_chunk_def elim!: bind_eq_SomeE)
  obtain k u where k: "osink S (segment patch (hdr + 4) (nat data_len)) t = (k, u)" by (cases "osink S (segment patch (hdr + 4) (nat data_len)) t")
  show ?thesis
    using r d k W sink_keepsD [OF S k W, of c] by (auto simp: raw_chunk_def Let_def i32_def split: if_splits)
qed

lemma deflate_loop_keeps:
  assumes S: "sink_keeps (osink S) (oupdate S) G W"
    and ret: "deflate_loop C S n strm t ctx = Some res"
  shows "\<forall>c. ctx = Some c \<and> W t \<longrightarrow> W (fst (snd res)) \<and> (\<exists>c'. snd (snd res) = Some c' \<and> (fst res \<and> G t c \<longrightarrow> G (fst (snd res)) c'))"
proof -
  have "S = S \<longrightarrow> (\<forall>c. ctx = Some c \<and> W t \<longrightarrow> W (fst (snd res)) \<and> (\<exists>c'. snd (snd res) = Some c' \<and> (fst res \<and> G t c \<longrightarrow> G (fst (snd res)) c')))"
  proof (rule deflate_loop.raw_induct [where P = "\<lambda>C S' n strm t ctx r.
        S' = S \<longrightarrow> (\<forall>c. ctx = Some c \<and> W t \<longrightarrow> W (fst (snd r)) \<and> (\<exists>c'. snd (snd r) = Some c' \<and> (fst r \<and> G t c \<longrightarrow> G (fst (snd r)) c')))",
        OF _ ret], intro impI allI)
    fix f C S' n strm t ctx r c
    assume IH: "\<And>C S' n strm t ctx r. f C S' n strm t ctx = Some r \<Longrightarrow>
        S' = S \<longrightarrow> (\<forall>c. ctx = Some c \<and> W t \<longrightarrow> W (fst (snd r)) \<and> (\<exists>c'. snd (snd r) = Some c' \<and> (fst r \<and> G t c \<longrightarrow> G (fst (snd r)) c')))"
      and eq: "(case dstep C strm n of (fin, strm, out) \<Rightarrow>
          (case osink S' out t of (k, token) \<Rightarrow>
             if k \<noteq> int (length out) then Some (False, token, ctx)
             else case ctx of None \<Rightarrow> None
               | Some c \<Rightarrow> if fin then Some (True, token, Some (oupdate S' c out))
                   else f C S' n strm token (Some (oupdate S' c out)))) = Some r"
      and S': "S' = S" and c: "ctx = Some c \<and> W t"
    obtain fin strm' out where d: "dstep C strm n = (fin, strm', out)" by (cases "dstep C strm n")
    obtain k u where k: "osink S out t = (k, u)" by (cases "osink S out t")
    note keep = sink_keepsD [OF S k conjunct2 [OF c], of c]
    show "W (fst (snd r)) \<and> (\<exists>c'. snd (snd r) = Some c' \<and> (fst r \<and> G t c \<longrightarrow> G (fst (snd r)) c'))"
    proof (cases "k \<noteq> int (length out) \<or> fin")
      case True
      then show ?thesis using eq c keep by (auto simp: d k S' split: if_splits)
    next
      case False
      then have "f C S n strm' u (Some (oupdate S c out)) = Some r" using eq c by (simp add: d k S')
      from IH [OF this] show ?thesis using keep False by auto
    qed
  qed
  then show ?thesis by simp
qed

lemma deflate_keeps:
  assumes S: "sink_keeps (osink S) (oupdate S) G W" and W: "W t"
    and r: "deflate_chunk C S old patch bonus hdr t (Some c) = Some (ok, t', ctx')"
  shows "W t' \<and> (\<exists>c'. ctx' = Some c' \<and> (ok \<and> G t c \<longrightarrow> G t' c'))"
  using r W deflate_loop_keeps [OF S] unfolding deflate_chunk_def Let_def
  by (auto elim!: bind_eq_SomeE split: if_splits option.splits) fastforce+

lemma image_loop_keeps:
  assumes S: "sink_keeps (osink S) (oupdate S) G W"
  shows "image_loop C S old patch bonus n i pos t (Some c) = Some (r, t', ctx') \<Longrightarrow> W t \<Longrightarrow>
    W t' \<and> (\<exists>c'. ctx' = Some c' \<and> (r = 0 \<and> G t c \<longrightarrow> G t' c'))"
proof (induction n arbitrary: i pos t c)
  case 0
  then show ?case by auto
next
  case (Suc n)
  show ?case
  proof (cases "r = - 1 \<and> t' = t \<and> ctx' = Some c")
    case True
    then show ?thesis using Suc.prems(2) by auto
  next
    case False
    then obtain ctype where ct: "\<not> pos + 4 > length patch" "Read4 patch pos = Some ctype"
      using Suc.prems(1) by (auto simp: Let_def elim!: bind_eq_SomeE split: if_splits)
    consider (normal) "ctype = CHUNK_NORMAL" "\<not> pos + 4 + 24 > length patch" | (raw) "ctype \<noteq> CHUNK_NORMAL" "ctype = CHUNK_RAW" "\<not> pos + 4 + 4 > length patch"
      | (deflate) "ctype \<noteq> CHUNK_NORMAL" "ctype \<noteq> CHUNK_RAW" "ctype = CHUNK_DEFLATE" "\<not> pos + 4 + 60 > length patch"
      using Suc.prems(1) False ct by (auto simp: Let_def split: if_splits)
    then show ?thesis
    proof cases
      case normal
      then obtain u cu where u: "normal_chunk C S old patch (pos + 4) t (Some c) = Some (u, cu)"
          "image_loop C S old patch bonus n (i + 1) (pos + 4 + 24) u cu = Some (r, t', ctx')"
        using Suc.prems(1) ct by (auto simp: Let_def elim!: bind_eq_SomeE)
      obtain d where "W u" "cu = Some d" "G t c \<longrightarrow> G u d"
        using normal_keeps [OF S Suc.prems(2) u(1)] by blast
      then show ?thesis using Suc.IH [of "i + 1" "pos + 4 + 24" u d] u(2) by auto
    next
      case raw
      then obtain q u cu where u: "raw_chunk S patch (pos + 4) t (Some c) = Some (q, u, cu)"
          "(case q of None \<Rightarrow> Some (- 1, u, cu) | Some pos \<Rightarrow> image_loop C S old patch bonus n (i + 1) pos u cu) = Some (r, t', ctx')"
        using Suc.prems(1) ct by (auto simp: Let_def elim!: bind_eq_SomeE)
      obtain d where "W u" "cu = Some d" "q \<noteq> None \<and> G t c \<longrightarrow> G u d"
        using raw_keeps [OF S Suc.prems(2) u(1)] by blast
      then show ?thesis using Suc.IH [of "i + 1" _ u d] u(2) by (cases q) auto
    next
      case deflate
      then obtain ok u cu where u: "deflate_chunk C S old patch (if i = 1 then bonus else None) (pos + 4) t (Some c) = Some (ok, u, cu)"
          "(if \<not> ok then Some (- 1, u, cu) else image_loop C S old patch bonus n (i + 1) (pos + 4 + 60) u cu) = Some (r, t', ctx')"
        using Suc.prems(1) ct by (auto simp: Let_def elim!: bind_eq_SomeE)
      obtain d where "W u" "cu = Some d" "ok \<and> G t c \<longrightarrow> G u d"
        using deflate_keeps [OF S Suc.prems(2) u(1)] by blast
      then show ?thesis using Suc.IH [of "i + 1" "pos + 4 + 60" u d] u(2) by (cases ok) auto
    qed
  qed
qed

text \<open>A sink that takes a block completely or not at all, with \<open>out\<close> what it has taken, and a hash that can be continued.\<close>

definition whole_sink :: "'t sink_fn \<Rightarrow> ('t \<Rightarrow> byte list) \<Rightarrow> bool" where
  "whole_sink sink out \<longleftrightarrow> (\<forall>bs t n t'. sink bs t = (n, t') \<longrightarrow>
     n = int (length bs) \<and> out t' = out t @ bs \<or> n < int (length bs) \<and> out t' = out t)"

definition continues :: "('h \<Rightarrow> byte list \<Rightarrow> 'h) \<Rightarrow> bool" where
  "continues upd \<longleftrightarrow> (\<forall>c. upd c [] = c) \<and> (\<forall>c a b. upd c (a @ b) = upd (upd c a) b)"

lemma whole_sink_keeps:
  assumes "whole_sink sink out" and "continues upd"
  shows "sink_keeps sink upd (\<lambda>t c. \<exists>w. out t = out0 @ w \<and> c = upd c0 w) (\<lambda>_. True)"
  unfolding sink_keeps_def
proof (intro allI impI conjI, simp)
  fix bs t n t' c
  assume s: "sink bs t = (n, t')" and "True \<and> (\<exists>w. out t = out0 @ w \<and> c = upd c0 w)"
  then obtain w where w: "out t = out0 @ w" "c = upd c0 w" by blast
  have "n = int (length bs) \<and> out t' = out t @ bs \<or> n < int (length bs) \<and> out t' = out t"
    using assms(1) s unfolding whole_sink_def by blast
  then show "if int (length bs) \<le> n then \<exists>w. out t' = out0 @ w \<and> upd c bs = upd c0 w else \<exists>w. out t' = out0 @ w \<and> c = upd c0 w"
  proof (elim disjE conjE)
    assume "n = int (length bs)" "out t' = out t @ bs"
    then show ?thesis using w assms(2) by (auto simp: continues_def intro!: exI [of _ "w @ bs"])
  qed (use w in auto)
qed

lemma apply_image_keeps:
  assumes "sink_keeps (osink S) (oupdate S) G W" and "W t" and "ApplyImagePatch C S old_data patch bonus t (Some c) = Some (r, t', ctx')"
  shows "W t' \<and> (\<exists>c'. ctx' = Some c' \<and> (r = 0 \<and> G t c \<longrightarrow> G t' c'))"
  using assms(2,3) by (auto simp: ApplyImagePatch_def elim!: bind_eq_SomeE split: if_splits dest!: image_loop_keeps [OF assms(1)])

section \<open>Patches of normal chunks\<close>


definition sample_outputs :: "(byte list, byte list) outputs" where
  "sample_outputs = \<lparr>osink = \<lambda>bs t. (int (length bs), t @ bs), oupdate = \<lambda>c bs. c @ bs\<rparr>"

definition sample_codecs :: "(byte list, unit) codecs" where
  "sample_codecs = \<lparr>cbz = storing_bz, zexpand = \<lambda>_ _. None, dinit = \<lambda>_ _. (), dstep = \<lambda>_ _. (True, (), []),
     cmalloc = \<lambda>_. True\<rparr>"

lemma sample_outputs_whole: "whole_sink (osink sample_outputs) id" "continues (oupdate sample_outputs)"
  by (auto simp: whole_sink_def continues_def sample_outputs_def)

definition raw_patch :: "byte list" where
  "raw_patch = IMGDIFF2 @ [1, 0, 0, 0] @ [3, 0, 0, 0] @ [2, 0, 0, 0] @ [65, 66]"


section \<open>Properties\<close>

text \<open>
  C24.  When applying an image patch reports success, the hash context has been updated with exactly the bytes
  that the sink took, in the same order, so that the digest that the caller compares is the digest of what
  was written.  This holds for every sink that takes each block completely or refuses it.
\<close>

theorem ApplyImagePatch_hashes_output:
  assumes "whole_sink (osink S) out" and "continues (oupdate S)"
    and "ApplyImagePatch C S old_data patch bonus token (Some ctx) = Some (0, token', ctx')"
  shows "\<exists>written. out token' = out token @ written \<and> ctx' = Some (oupdate S ctx written)"
proof -
  have "\<exists>w. out token = out token @ w \<and> ctx = oupdate S ctx w"
    using assms(2) by (intro exI [of _ "[]"]) (simp add: continues_def)
  then show ?thesis
    using apply_image_keeps [OF whole_sink_keeps [OF assms(1,2)] TrueI assms(3)] by blast
qed

theorem ApplyImagePatch_hashes_output_witness:
  "ApplyImagePatch sample_codecs sample_outputs [] raw_patch None [9] (Some []) = Some (0, [9, 65, 66], Some [65, 66]) \<and>
   (\<exists>out. [9, 65, 66] = [9] @ out \<and> Some [65, 66] = Some (oupdate sample_outputs [] out))"
proof -
  have r4: "Read4 raw_patch 8 = Some 1" "Read4 raw_patch 12 = Some 3" "Read4 raw_patch 16 = Some 2"
    by (simp_all add: Read4_def raw_patch_def IMGDIFF2_def)
  have "length raw_patch = 22" "take 8 raw_patch = IMGDIFF2" "segment raw_patch 20 2 = [65, 66]"
    by (simp_all add: raw_patch_def IMGDIFF2_def segment_def)
  then have run: "ApplyImagePatch sample_codecs sample_outputs [] raw_patch None [9] (Some []) =
      Some (0, [9, 65, 66], Some [65, 66])"
    by (simp add: ApplyImagePatch_def r4 CHUNK_NORMAL_def CHUNK_RAW_def raw_chunk_def sample_outputs_def Let_def i32_def i32_ok_def)
  then show ?thesis using ApplyImagePatch_hashes_output [OF sample_outputs_whole run] by simp
qed



end
