(* ===== verification/MtdTable.thy ===== *)
theory MtdTable
  imports Scan
begin

text \<open>
  The table of flash partitions (\<^verbatim>\<open>mtdutils/mtdutils.c\<close>: \<open>mtd_scan_partitions\<close>,
  \<open>mtd_find_partition_by_name\<close>, \<open>mtd_mount_partition\<close>).

  \<^item> The text of \<^verbatim>\<open>/proc/mtd\<close> is a parameter, \<open>None\<close> when it cannot be opened or read; it is free of
    NUL characters.  One call of \<open>read\<close> delivers at most 2047 characters of it.
  \<^item> \<open>dup\<close> says whether \<open>strdup\<close> can copy a string, \<open>table\<close> whether the table can be allocated.
\<close>

unbundle bit_operations_syntax

record MtdPartition =
  device_index :: int
  part_size :: u32
  erase_size :: u32
  part_name :: "string option"

text \<open>\<open>partitions_allocd\<close> is the length of the list.\<close>

record MtdState =
  partitions :: "MtdPartition list option"
  partition_count :: int

definition g_mtd_state :: MtdState where
  "g_mtd_state = \<lparr>partitions = None, partition_count = - 1\<rparr>"

section \<open>Scanning\<close>

definition quote :: char where
  "quote = CHR 0x22"

text \<open>A literal part of the format, or the end of the matching.\<close>

definition lit :: "string \<Rightarrow> string \<Rightarrow> string option" where
  "lit fmt s = (case scan_lit fmt s of (True, r) \<Rightarrow> Some r | (False, _) \<Rightarrow> None)"

text \<open>The four conversions of a line: number, size, erase size and name.\<close>

definition scan_entry :: "string \<Rightarrow> (int \<times> u32 \<times> u32 \<times> string) option" where
  "scan_entry s = do {
     s \<leftarrow> lit ''mtd'' s;
     (mtdnum, s) \<leftarrow> scan_signed dec_prefix s;
     s \<leftarrow> lit '': '' s;
     (mtdsize, s) \<leftarrow> scan_unsigned hex_prefix s;
     s \<leftarrow> lit '' '' s;
     (mtderasesize, s) \<leftarrow> scan_unsigned hex_prefix s;
     s \<leftarrow> lit ('' '' @ [quote]) s;
     let mtdname = take 63 (takeWhile (\<lambda>c. c \<noteq> quote) s);
     if mtdname = [] then None else Some (mtdnum, mtdsize, mtderasesize, mtdname)}"

definition eat_line :: "string \<Rightarrow> string" where
  "eat_line s = drop 1 (dropWhile (\<lambda>c. c \<noteq> newline) s)"

lemma length_eat_line [termination_simp]: "s \<noteq> [] \<Longrightarrow> length (eat_line s) < length s"
proof -
  assume "s \<noteq> []"
  then show ?thesis
    using length_dropWhile_le [of "\<lambda>c. c \<noteq> newline" s] by (cases s) (auto simp: eat_line_def less_Suc_eq_le)
qed

text \<open>The flag of the result is false after the jump to \<open>bail\<close>.\<close>

function scan_table :: "(string \<Rightarrow> bool) \<Rightarrow> MtdPartition list \<Rightarrow> int \<Rightarrow> string \<Rightarrow> (bool \<times> MtdPartition list \<times> int) ub" where
  "scan_table dup ps count s =
     (if s = [] then Some (True, ps, count)
      else case scan_entry s of
          None \<Rightarrow> scan_table dup ps count (eat_line s)
        | Some (mtdnum, mtdsize, mtderasesize, mtdname) \<Rightarrow>
            if mtdnum < 0 \<or> int (length ps) \<le> mtdnum then None
            else if dup mtdname then
              scan_table dup (ps[nat mtdnum := \<lparr>device_index = mtdnum, part_size = mtdsize,
                  erase_size = mtderasesize, part_name = Some mtdname\<rparr>]) (count + 1) (eat_line s)
            else Some (False, ps[nat mtdnum := \<lparr>device_index = mtdnum, part_size = mtdsize,
                  erase_size = mtderasesize, part_name = None\<rparr>], count))"
  by pat_completeness auto
termination
  by (relation "measure (\<lambda>(dup, ps, count, s). length s)") (auto simp: length_eat_line)

declare scan_table.simps [simp del]

definition blank :: "MtdPartition \<Rightarrow> MtdPartition" where
  "blank p = p\<lparr>device_index := - 1, part_name := None\<rparr>"

definition new_table :: "MtdPartition list" where
  "new_table = replicate 32 \<lparr>device_index = 0, part_size = 0, erase_size = 0, part_name = None\<rparr>"

lemma length_new_table: "length new_table = 32"
  by (simp add: new_table_def)

definition mtd_scan_partitions :: "(string \<Rightarrow> bool) \<Rightarrow> bool \<Rightarrow> string option \<Rightarrow> MtdState \<Rightarrow> (int \<times> MtdState) ub" where
  "mtd_scan_partitions dup table proc st =
     (if partitions st = None \<and> \<not> table then Some (- 1, st)
      else
        let ps = map blank (case partitions st of None \<Rightarrow> new_table | Some ps \<Rightarrow> ps) in
        case proc of
          None \<Rightarrow> Some (- 1, \<lparr>partitions = Some ps, partition_count = - 1\<rparr>)
        | Some text \<Rightarrow> do {
            (ok, ps, count) \<leftarrow> scan_table dup ps 0 (take 2047 text);
            if ok then Some (count, \<lparr>partitions = Some ps, partition_count = count\<rparr>)
            else Some (- 1, \<lparr>partitions = Some ps, partition_count = - 1\<rparr>)})"

definition mtd_find_partition_by_name :: "MtdState \<Rightarrow> string \<Rightarrow> MtdPartition option" where
  "mtd_find_partition_by_name st name =
     (case partitions st of
        None \<Rightarrow> None
      | Some ps \<Rightarrow> find (\<lambda>p. 0 \<le> device_index p \<and> part_name p = Some name) ps)"

text \<open>The table keeps its 32 places.\<close>

lemma length_scan_table: "scan_table dup ps count s = Some (ok, ps', count') \<Longrightarrow> length ps' = length ps"
proof (induction dup ps count s rule: scan_table.induct)
  case (1 dup ps count s)
  then show ?case by (subst (asm) (3) scan_table.simps) (auto split: if_splits option.splits prod.splits)
qed

lemma scan_keeps_places:
  assumes "mtd_scan_partitions dup table proc st = Some (c, st')" and "\<forall>ps. partitions st = Some ps \<longrightarrow> length ps = 32"
    and "partitions st' = Some ps'"
  shows "length ps' = 32"
  using assms
  by (auto simp: mtd_scan_partitions_def Let_def length_new_table dest!: length_scan_table
      elim!: bind_eq_SomeE split: if_splits option.splits)

section \<open>Mounting\<close>

text \<open>
  The system calls, with the state they act on.  \<open>mount dev point fs read_only\<close> and \<open>chmod\<close> return the
  new state with their result, \<open>mode\<close> is \<open>stat\<close>.
\<close>

record 'w mount_calls =
  mount :: "'w \<Rightarrow> string \<Rightarrow> string \<Rightarrow> string \<Rightarrow> bool \<Rightarrow> int \<times> 'w"
  mode :: "'w \<Rightarrow> string \<Rightarrow> u32 option"
  chmod :: "'w \<Rightarrow> string \<Rightarrow> u32 \<Rightarrow> int \<times> 'w"

definition mtd_mount_partition ::
  "'w mount_calls \<Rightarrow> MtdPartition \<Rightarrow> string \<Rightarrow> string \<Rightarrow> bool \<Rightarrow> 'w \<Rightarrow> int \<times> 'w" where
  "mtd_mount_partition K part mount_point filesystem read_only w =
     (let devname = ''/dev/block/mtdblock'' @ show_int (device_index part);
          (rv, w) = (if read_only then (- 1, w) else mount K w devname mount_point filesystem False);
          (rv, w) = (if read_only \<or> rv < 0 then mount K w devname mount_point filesystem True else (rv, w))
      in if rv < 0 then (rv, w)
         else case mode K w mount_point of
             None \<Rightarrow> (- 1, w)
           | Some m \<Rightarrow>
               if m OR 0x49 \<noteq> m then chmod K w mount_point (m OR 0x49) else (0, w))"

section \<open>The format of the file\<close>

text \<open>An entry: number, size, erase size and name, with the numbers of the line zero-padded.\<close>

type_synonym mtd_entry = "nat \<times> u32 \<times> u32 \<times> string"

definition hex8 :: "u32 \<Rightarrow> string" where
  "hex8 w = map (\<lambda>i. hex_digit (unat w div 16 ^ i mod 16)) (rev [0..<8])"

definition print_entry :: "mtd_entry \<Rightarrow> string" where
  "print_entry = (\<lambda>(k, sz, es, name).
     ''mtd'' @ show_nat k @ '': '' @ hex8 sz @ '' '' @ hex8 es @ '' '' @ [quote] @ name @ [quote, newline])"

definition proc_mtd :: "mtd_entry list \<Rightarrow> string" where
  "proc_mtd es = ''dev:    size   erasesize  name'' @ [newline] @ concat (map print_entry es)"

definition entry_ok :: "mtd_entry \<Rightarrow> bool" where
  "entry_ok = (\<lambda>(k, sz, es, name). k < 32 \<and> name \<noteq> [] \<and> length name \<le> 63 \<and> quote \<notin> set name \<and> newline \<notin> set name)"

definition partition_of :: "mtd_entry \<Rightarrow> MtdPartition" where
  "partition_of e = \<lparr>device_index = int (fst e), part_size = fst (snd e), erase_size = fst (snd (snd e)),
     part_name = Some (snd (snd (snd e)))\<rparr>"

section \<open>The format is read back\<close>

lemma numeral_val_hex8: "numeral_val 16 0 (hex8 w) = unat w"
proof -
  have lt: "unat w < 16 ^ 8"
    using unsigned_less [where 'a = nat and w = w] by simp
  have d: "digit_value (hex_digit (k mod 16)) = k mod 16" for k
    by (rule hex_digit_facts(2)) simp
  have step: "numeral_val 16 0 (map (\<lambda>i. hex_digit (v div 16 ^ i mod 16)) (rev [0..<n])) = v mod 16 ^ n" for v n
  proof (induction n arbitrary: v)
    case (Suc n)
    have "map (\<lambda>i. hex_digit (v div 16 ^ i mod 16)) (rev [0..<Suc n]) =
        map (\<lambda>i. hex_digit (v div 16 div 16 ^ i mod 16)) (rev [0..<n]) @ [hex_digit (v mod 16)]"
      by (simp add: upt_conv_Cons map_Suc_upt [symmetric] rev_map o_def div_mult2_eq del: upt_Suc)
    moreover have "v mod 16 ^ Suc n = 16 * (v div 16 mod 16 ^ n) + v mod 16"
      by (simp add: mod_mult2_eq)
    ultimately show ?case using Suc [of "v div 16"] by (simp add: numeral_val_append d)
  qed simp
  show ?thesis using step [of "unat w" 8] lt by (simp add: hex8_def)
qed

lemma hex8_digits: "\<forall>c \<in> set (hex8 w). isxdigit c"
  by (auto simp: hex8_def intro!: hex_digit_facts(1))

lemma hex8_not_Nil [simp]: "hex8 w \<noteq> []"
  by (simp add: hex8_def)

lemma length_hex8 [simp]: "length (hex8 w) = 8"
  by (simp add: hex8_def)

lemma scan_hex8: "scan_unsigned hex_prefix (hex8 w @ CHR '' '' # r) = Some (w, CHR '' '' # r)"
  by (rule scan_hex_digits) (use hex8_digits numeral_val_hex8 in \<open>simp_all add: isxdigit_def isdigit_def\<close>)

lemma drop_space_hex8: "dropWhile isspace (hex8 w @ r) = hex8 w @ r"
proof -
  have "\<not> isspace (hd (hex8 w))"
    using hex8_digits [of w] hd_in_set [OF hex8_not_Nil [of w]] xdigit_char_facts(1) by blast
  then show ?thesis by (cases "hex8 w") auto
qed

lemma scan_entry_print:
  assumes "entry_ok (k, sz, es, name)"
  shows "scan_entry (print_entry (k, sz, es, name) @ rest) = Some (int k, sz, es, name)"
proof -
  have num: "scan_signed dec_prefix (show_nat k @ CHR '':'' # r) = Some (int k, CHR '':'' # r)" for r
    using scan_int [of "CHR '':'' # r" "int k"] assms by (simp add: entry_ok_def show_int_def isdigit_def)
  have sp: "\<not> isspace quote" "quote \<noteq> CHR '' ''" by (simp_all add: quote_def isspace_def)
  have "\<forall>c \<in> set name. c \<noteq> quote"
    using assms by (auto simp: entry_ok_def)
  then have name: "takeWhile (\<lambda>c. c \<noteq> quote) (name @ quote # r) = name" for r
    using span_digits [of name "\<lambda>c. c \<noteq> quote" "quote # r"] by simp
  show ?thesis
    using assms sp
    by (simp add: scan_entry_def print_entry_def lit_def num scan_hex8 drop_space_hex8 name entry_ok_def Let_def)
qed

lemma hex8_no_newline: "newline \<notin> set (hex8 w)"
  using hex8_digits [of w] xdigit_char_facts(2) by blast

lemma eat_line_print: "entry_ok e \<Longrightarrow> eat_line (print_entry e @ rest) = rest"
proof -
  assume ok: "entry_ok e"
  obtain k sz es name where e: "e = (k, sz, es, name)" by (cases e)
  define l where "l = ''mtd'' @ show_nat k @ '': '' @ hex8 sz @ '' '' @ hex8 es @ '' '' @ [quote] @ name @ [quote]"
  have "\<forall>c \<in> set (show_nat k). c \<noteq> newline"
    using show_nat_digits [of k] xdigit_char_facts(2) by (auto simp: isxdigit_def)
  then have "\<forall>c \<in> set l. c \<noteq> newline"
    using ok hex8_no_newline by (auto simp: l_def e entry_ok_def newline_def quote_def)
  then have "dropWhile (\<lambda>c. c \<noteq> newline) (l @ newline # rest) = newline # rest" by simp
  moreover have "print_entry e @ rest = l @ newline # rest" by (simp add: print_entry_def e l_def)
  ultimately show ?thesis by (simp add: eat_line_def)
qed

lemma scan_table_print:
  assumes "\<forall>name. dup name"
  shows "list_all entry_ok es \<Longrightarrow> length ps = 32 \<Longrightarrow>
    scan_table dup ps count (concat (map print_entry es)) =
      Some (True, foldl (\<lambda>ps e. ps[fst e := partition_of e]) ps es, count + int (length es))"
proof (induction es arbitrary: ps count)
  case Nil
  show ?case by (simp add: scan_table.simps)
next
  case (Cons e es)
  obtain k sz er name where e: "e = (k, sz, er, name)" by (cases e)
  have ok: "entry_ok (k, sz, er, name)" using Cons.prems(1) by (simp add: e)
  have "print_entry e \<noteq> []" by (simp add: print_entry_def e)
  moreover have "k < 32" using ok by (simp add: entry_ok_def)
  ultimately have "scan_table dup ps count (concat (map print_entry (e # es))) =
      scan_table dup (ps[k := partition_of e]) (count + 1) (concat (map print_entry es))"
    using scan_entry_print [OF ok] eat_line_print [OF ok] assms Cons.prems(2)
    by (subst scan_table.simps) (simp add: e partition_of_def)
  then show ?case using Cons.IH [of "ps[k := partition_of e]" "count + 1"] Cons.prems by (simp add: e)
qed

lemma scan_header: "scan_table dup ps count (proc_mtd es) = scan_table dup ps count (concat (map print_entry es))"
proof -
  have "scan_entry (proc_mtd es) = None"
    by (simp add: scan_entry_def proc_mtd_def lit_def)
  moreover have "eat_line (proc_mtd es) = concat (map print_entry es)"
    by (simp add: eat_line_def proc_mtd_def newline_def)
  moreover have "proc_mtd es \<noteq> []" by (simp add: proc_mtd_def)
  ultimately show ?thesis by (subst scan_table.simps) simp
qed

lemma length_place: "length (foldl (\<lambda>ps e. ps[fst e := partition_of e]) ps es) = length ps"
  by (induction es arbitrary: ps) auto

lemma nth_place:
  "distinct (map fst es) \<Longrightarrow> i < length ps \<Longrightarrow>
    foldl (\<lambda>ps e. ps[fst e := partition_of e]) ps es ! i =
      (case find (\<lambda>e. fst e = i) es of None \<Rightarrow> ps ! i | Some e \<Rightarrow> partition_of e)"
proof (induction es arbitrary: ps)
  case (Cons e es)
  have "find (\<lambda>e. fst e = i) es = None" if "fst e = i"
  proof -
    have "fst e \<notin> fst ` set es" using Cons.prems(1) by simp
    then show ?thesis using that unfolding find_None_iff by (metis image_eqI)
  qed
  then show ?case using Cons by (cases "fst e = i") (auto split: option.splits)
qed simp

lemma find_name_unique:
  assumes "i < length ps" and "P (ps ! i)" and "\<And>j. j < length ps \<Longrightarrow> P (ps ! j) \<Longrightarrow> j = i"
  shows "find P ps = Some (ps ! i)"
proof (cases "find P ps")
  case None
  then show ?thesis using assms(1,2) by (auto simp: find_None_iff)
next
  case (Some x)
  then obtain j where "j < length ps" "P (ps ! j)" "x = ps ! j" by (auto simp: find_Some_iff)
  then show ?thesis using assms(3) Some by auto
qed

lemma scan_find:
  assumes es: "list_all entry_ok es" "distinct (map fst es)" "distinct (map (\<lambda>e. snd (snd (snd e))) es)"
    and len: "length ps = 32" "\<And>p. p \<in> set ps \<Longrightarrow> device_index p < 0"
    and e: "e \<in> set es"
  shows "find (\<lambda>p. 0 \<le> device_index p \<and> part_name p = Some (snd (snd (snd e))))
      (foldl (\<lambda>ps e. ps[fst e := partition_of e]) ps es) = Some (partition_of e)"
proof -
  let ?ps = "foldl (\<lambda>ps e. ps[fst e := partition_of e]) ps es"
  let ?P = "\<lambda>p. 0 \<le> device_index p \<and> part_name p = Some (snd (snd (snd e)))"
  have k: "fst e < 32" using es(1) e by (auto simp: list_all_iff entry_ok_def)
  have inj: "e' = e" if "e' \<in> set es" "fst e' = fst e \<or> snd (snd (snd e')) = snd (snd (snd e))" for e'
    using es(2,3) e that by (auto simp: distinct_map inj_on_def)
  have "find (\<lambda>x. fst x = fst e) es = Some e"
  proof (cases "find (\<lambda>x. fst x = fst e) es")
    case None
    then show ?thesis using e unfolding find_None_iff by blast
  next
    case (Some x)
    then have "x \<in> set es" "fst x = fst e" by (auto simp: find_Some_iff)
    then show ?thesis using inj Some by auto
  qed
  then have at: "?ps ! fst e = partition_of e" using nth_place [OF es(2), of "fst e" ps] k len by simp
  have P: "?P (partition_of e)" by (auto simp: partition_of_def)
  have uniq: "j = fst e" if "j < length ?ps" "?P (?ps ! j)" for j
  proof (cases "find (\<lambda>x. fst x = j) es")
    case None
    then have "?ps ! j = ps ! j" using nth_place [OF es(2)] that(1) by (simp add: length_place)
    then show ?thesis using len(2) [of "ps ! j"] that by (auto simp: length_place)
  next
    case (Some x)
    then have x: "x \<in> set es" "fst x = j" by (auto simp: find_Some_iff)
    have "?ps ! j = partition_of x" using nth_place [OF es(2)] that(1) Some by (simp add: length_place)
    then show ?thesis using that(2) inj [OF x(1)] x(2) by (auto simp: partition_of_def)
  qed
  have "find ?P ?ps = Some (?ps ! fst e)"
  proof (rule find_name_unique)
    show "fst e < length ?ps" using k len by (simp add: length_place)
    show "?P (?ps ! fst e)" unfolding at by (rule P)
  qed (rule uniq)
  then show ?thesis by (simp add: at)
qed

lemma scan_find_none:
  assumes es: "distinct (map fst es)" and neg: "\<And>p. p \<in> set ps \<Longrightarrow> device_index p < 0"
    and "name \<notin> (\<lambda>e. snd (snd (snd e))) ` set es"
  shows "find (\<lambda>p. 0 \<le> device_index p \<and> part_name p = Some name)
      (foldl (\<lambda>ps e. ps[fst e := partition_of e]) ps es) = None"
proof -
  let ?ps = "foldl (\<lambda>ps e. ps[fst e := partition_of e]) ps es"
  have "\<not> (0 \<le> device_index (?ps ! j) \<and> part_name (?ps ! j) = Some name)" if j: "j < length ps" for j
  proof (cases "find (\<lambda>x. fst x = j) es")
    case None
    then show ?thesis using nth_place [OF es j] neg [of "ps ! j"] j by auto
  next
    case (Some x)
    then have "x \<in> set es" by (auto simp: find_Some_iff)
    then have "snd (snd (snd x)) \<noteq> name" using assms(3) by blast
    moreover have "part_name (partition_of x) = Some (snd (snd (snd x)))"
      by (simp add: partition_of_def)
    ultimately show ?thesis using nth_place [OF es j] Some by simp
  qed
  then have "\<forall>p \<in> set ?ps. \<not> (0 \<le> device_index p \<and> part_name p = Some name)"
    by (simp add: all_set_conv_all_nth length_place)
  then show ?thesis unfolding find_None_iff by blast
qed

lemma scan_format:
  assumes "list_all entry_ok es" and "distinct (map fst es)" and "distinct (map (\<lambda>e. snd (snd (snd e))) es)"
    and "length (proc_mtd es) \<le> 2047" and "\<forall>name. dup name"
    and "partitions st = None \<and> table \<or> (\<exists>ps. partitions st = Some ps \<and> length ps = 32)"
  shows "\<exists>st'. mtd_scan_partitions dup table (Some (proc_mtd es)) st = Some (int (length es), st') \<and>
    (\<forall>e \<in> set es. mtd_find_partition_by_name st' (snd (snd (snd e))) = Some (partition_of e)) \<and>
    (\<forall>name. name \<notin> (\<lambda>e. snd (snd (snd e))) ` set es \<longrightarrow> mtd_find_partition_by_name st' name = None)"
proof -
  obtain ps where ps: "length ps = 32" "mtd_scan_partitions dup table (Some (proc_mtd es)) st = do {
      (ok, ps, count) \<leftarrow> scan_table dup (map blank ps) 0 (proc_mtd es);
      if ok then Some (count, \<lparr>partitions = Some ps, partition_count = count\<rparr>)
      else Some (- 1, \<lparr>partitions = Some ps, partition_count = - 1\<rparr>)}"
    using assms(4,6) that [of new_table] length_new_table by (auto simp: mtd_scan_partitions_def)
  have neg: "device_index p < 0" if "p \<in> set (map blank ps)" for p
    using that by (auto simp: blank_def)
  let ?ps = "foldl (\<lambda>ps e. ps[fst e := partition_of e]) (map blank ps) es"
  have "mtd_scan_partitions dup table (Some (proc_mtd es)) st =
      Some (int (length es), \<lparr>partitions = Some ?ps, partition_count = int (length es)\<rparr>)"
    using ps scan_table_print [OF assms(5,1), of "map blank ps" 0] by (simp add: scan_header)
  moreover have "find (\<lambda>p. 0 \<le> device_index p \<and> part_name p = Some (snd (snd (snd e)))) ?ps = Some (partition_of e)"
    if "e \<in> set es" for e
    using ps(1) by (intro scan_find [OF assms(1-3) _ neg that]) auto
  moreover have "find (\<lambda>p. 0 \<le> device_index p \<and> part_name p = Some name) ?ps = None"
    if "name \<notin> (\<lambda>e. snd (snd (snd e))) ` set es" for name
    using that by (intro scan_find_none [OF assms(2) neg])
  ultimately show ?thesis by (intro exI conjI) (assumption, simp_all add: mtd_find_partition_by_name_def)
qed

section \<open>Properties\<close>

text \<open>
  C29.  Scanning a partition file in the kernel's format registers every line, within the limits of the code: at most 2047
  bytes, distinct numbers below 32, distinct names of 1 to 63 characters, and names that can be copied.  The count is
  returned, and each partition is found by its name with its number, size and erase size.  Earlier
  contents of the table are forgotten.
\<close>

theorem mtd_scan_then_find:
  assumes "list_all entry_ok es" and "distinct (map fst es)" and "distinct (map (\<lambda>e. snd (snd (snd e))) es)"
    and "length (proc_mtd es) \<le> 2047" and "\<forall>name. dup name"
    and "partitions st = None \<and> table \<or> (\<exists>ps. partitions st = Some ps \<and> length ps = 32)"
  shows "\<exists>st'. mtd_scan_partitions dup table (Some (proc_mtd es)) st = Some (int (length es), st') \<and>
    (\<forall>e \<in> set es. mtd_find_partition_by_name st' (snd (snd (snd e))) = Some (partition_of e)) \<and>
    (\<forall>name. name \<notin> (\<lambda>e. snd (snd (snd e))) ` set es \<longrightarrow> mtd_find_partition_by_name st' name = None)"
  using assms by (rule scan_format)

definition sample_entries :: "mtd_entry list" where
  "sample_entries = [(0, 0x80000, 0x20000, ''bootloader''), (4, 0x4000000, 0x20000, ''system'')]"

theorem mtd_scan_then_find_witness:
  "\<exists>st'. mtd_scan_partitions (\<lambda>_. True) True (Some (proc_mtd sample_entries)) g_mtd_state = Some (2, st') \<and>
    mtd_find_partition_by_name st' ''system'' =
      Some \<lparr>device_index = 4, part_size = 0x4000000, erase_size = 0x20000, part_name = Some ''system''\<rparr> \<and>
    mtd_find_partition_by_name st' ''data'' = None"
proof -
  have len: "length (proc_mtd sample_entries) \<le> 2047"
    by (simp add: proc_mtd_def print_entry_def sample_entries_def show_nat.simps)
  have ok: "list_all entry_ok sample_entries"
    by (simp add: sample_entries_def entry_ok_def quote_def newline_def)
  have "\<exists>st'. mtd_scan_partitions (\<lambda>_. True) True (Some (proc_mtd sample_entries)) g_mtd_state =
      Some (int (length sample_entries), st') \<and>
    (\<forall>e \<in> set sample_entries. mtd_find_partition_by_name st' (snd (snd (snd e))) = Some (partition_of e)) \<and>
    (\<forall>name. name \<notin> (\<lambda>e. snd (snd (snd e))) ` set sample_entries \<longrightarrow> mtd_find_partition_by_name st' name = None)"
    by (rule mtd_scan_then_find [OF ok _ _ len]) (simp_all add: sample_entries_def g_mtd_state_def)
  then obtain st' where "mtd_scan_partitions (\<lambda>_. True) True (Some (proc_mtd sample_entries)) g_mtd_state =
      Some (2, st')" "\<forall>e \<in> set sample_entries. mtd_find_partition_by_name st' (snd (snd (snd e))) = Some (partition_of e)"
      "\<forall>name. name \<notin> (\<lambda>e. snd (snd (snd e))) ` set sample_entries \<longrightarrow> mtd_find_partition_by_name st' name = None"
    by (auto simp: sample_entries_def)
  then show ?thesis
    by (intro exI [of _ st']) (simp add: sample_entries_def partition_of_def)
qed

end
