(* ===== verification/Mtd.thy ===== *)
theory Mtd
  imports MtdTable
begin

text \<open>
  Reading and writing raw flash partitions (\<^verbatim>\<open>mtdutils/mtdutils.c\<close>, the functions from
  \<open>mtd_partition_info\<close> to \<open>mtd_find_write_start\<close>).

  \<^item> The flash driver is a parameter: the system calls as functions on a state of the device, in which
    the offset of the open descriptor is part of the state.
  \<^item> A write buffer is the list of its stored bytes.
  \<^item> The result \<open>None\<close> is undefined behaviour or a call that does not return.
\<close>

section \<open>System calls and contexts\<close>

text \<open>
  \<open>bad_block d pos\<close> is the result of \<open>MEMGETBADBLOCK\<close> and whether \<open>errno\<close> is \<open>EOPNOTSUPP\<close>; \<open>ecc_failed\<close> is
  the counter of uncorrectable errors of \<open>ECCGETSTATS\<close>; \<open>get_info\<close> is \<open>MEMGETINFO\<close>.
\<close>

record 'd flash =
  fl_open :: "'d \<Rightarrow> int \<Rightarrow> 'd option"
  fl_close :: "'d \<Rightarrow> int \<times> 'd"
  seek_cur :: "'d \<Rightarrow> int"
  seek_set :: "'d \<Rightarrow> int \<Rightarrow> int \<times> 'd"
  fl_read :: "'d \<Rightarrow> nat \<Rightarrow> int \<times> byte list \<times> 'd"
  fl_write :: "'d \<Rightarrow> byte list \<Rightarrow> int \<times> 'd"
  erase :: "'d \<Rightarrow> int \<Rightarrow> nat \<Rightarrow> int \<times> 'd"
  bad_block :: "'d \<Rightarrow> int \<Rightarrow> int \<times> bool \<times> 'd"
  ecc_failed :: "'d \<Rightarrow> u32 option \<times> 'd"
  get_info :: "'d \<Rightarrow> (nat \<times> nat \<times> nat) option"
  alloc :: "nat \<Rightarrow> bool"

record 'd MtdReadContext =
  rpart :: MtdPartition
  rbuffer :: "byte list"
  consumed :: nat
  rfd :: 'd

record 'd MtdWriteContext =
  wpart :: MtdPartition
  stored :: "byte list"
  wfd :: 'd
  bad_block_offsets :: "int list"
  bad_block_alloc :: nat

text \<open>Total size, erase size and write size, or \<open>None\<close> for an error.\<close>

definition mtd_partition_info :: "'d flash \<Rightarrow> MtdPartition \<Rightarrow> 'd \<Rightarrow> (nat \<times> nat \<times> nat) option" where
  "mtd_partition_info D p d = Option.bind (fl_open D d (device_index p)) (get_info D)"

section \<open>Reading\<close>

definition mtd_read_partition :: "'d flash \<Rightarrow> MtdPartition \<Rightarrow> 'd \<Rightarrow> 'd MtdReadContext option" where
  "mtd_read_partition D p d =
     (if \<not> alloc D 16 \<or> \<not> alloc D (unat (erase_size p)) then None
      else map_option (\<lambda>fd. \<lparr>rpart = p, rbuffer = [], consumed = unat (erase_size p), rfd = fd\<rparr>)
        (fl_open D d (device_index p)))"

definition mtd_read_skip_to :: "'d flash \<Rightarrow> 'd MtdReadContext \<Rightarrow> nat \<Rightarrow> 'd MtdReadContext" where
  "mtd_read_skip_to D ctx offset = ctx\<lparr>rfd := snd (seek_set D (rfd ctx) (int offset))\<rparr>"

text \<open>The data of the next block that reads without an error, or \<open>None\<close> for the error code.\<close>

partial_function (option) read_block_loop ::
  "'d flash \<Rightarrow> MtdPartition \<Rightarrow> int \<Rightarrow> u32 \<Rightarrow> 'd \<Rightarrow> (byte list option \<times> 'd) option" where
  "read_block_loop D p pos before fd =
     (if \<not> pos + sint (erase_size p) \<le> sint (part_size p) then Some (None, fd)
      else case seek_set D fd pos of
        (at, fd) \<Rightarrow>
          if at \<noteq> pos then read_block_loop D p (pos + uint (erase_size p)) before fd
          else case fl_read D fd (unat (erase_size p)) of
            (n, data, fd) \<Rightarrow>
              if n \<noteq> sint (erase_size p) then read_block_loop D p (pos + uint (erase_size p)) before fd
              else case ecc_failed D fd of
                (stats, fd) \<Rightarrow>
                  (case stats of
                     None \<Rightarrow> Some (None, fd)
                   | Some after \<Rightarrow>
                       if after \<noteq> before then read_block_loop D p (pos + uint (erase_size p)) after fd
                       else case bad_block D fd pos of
                         (mgbb, _, fd) \<Rightarrow>
                           if mgbb \<noteq> 0 then read_block_loop D p (pos + uint (erase_size p)) before fd
                           else Some (Some data, fd)))"

definition read_block :: "'d flash \<Rightarrow> MtdPartition \<Rightarrow> 'd \<Rightarrow> (byte list option \<times> 'd) option" where
  "read_block D p fd =
     (case ecc_failed D fd of
        (None, fd) \<Rightarrow> Some (None, fd)
      | (Some before, fd) \<Rightarrow> read_block_loop D p (seek_cur D fd) before fd)"

text \<open>Complete blocks go directly into the buffer of the caller, \<open>acc\<close>; the flag is false at an error.\<close>

partial_function (option) read_direct ::
  "'d flash \<Rightarrow> nat \<Rightarrow> 'd MtdReadContext \<Rightarrow> byte list \<Rightarrow> (bool \<times> 'd MtdReadContext \<times> byte list) option" where
  "read_direct D n ctx acc =
     (if consumed ctx = unat (erase_size (rpart ctx)) \<and> unat (erase_size (rpart ctx)) \<le> n - length acc then
        Option.bind (read_block D (rpart ctx) (rfd ctx)) (\<lambda>(r, fd).
          case r of
            None \<Rightarrow> Some (False, ctx\<lparr>rfd := fd\<rparr>, acc)
          | Some data \<Rightarrow> read_direct D n (ctx\<lparr>rfd := fd\<rparr>) (acc @ data))
      else Some (True, ctx, acc))"

definition read_buffered :: "nat \<Rightarrow> 'd MtdReadContext \<Rightarrow> byte list \<Rightarrow> 'd MtdReadContext \<times> byte list" where
  "read_buffered n ctx acc =
     (if consumed ctx < unat (erase_size (rpart ctx)) then
        let avail = unat (erase_size (rpart ctx)) - consumed ctx;
            copy = (if n - length acc < avail then n - length acc else avail)
        in (ctx\<lparr>consumed := consumed ctx + copy\<rparr>, acc @ segment (rbuffer ctx) (consumed ctx) copy)
      else (ctx, acc))"

partial_function (option) read_data_loop ::
  "'d flash \<Rightarrow> nat \<Rightarrow> 'd MtdReadContext \<Rightarrow> byte list \<Rightarrow> (byte list option \<times> 'd MtdReadContext) option" where
  "read_data_loop D n ctx acc =
     (if \<not> length acc < n then Some (Some acc, ctx)
      else case read_buffered n ctx acc of
        (ctx, acc) \<Rightarrow> Option.bind (read_direct D n ctx acc) (\<lambda>(ok, ctx, acc).
          if \<not> ok then Some (None, ctx)
          else if n \<le> length acc then Some (Some acc, ctx)
          else if consumed ctx = unat (erase_size (rpart ctx)) then
            Option.bind (read_block D (rpart ctx) (rfd ctx)) (\<lambda>(r, fd).
              case r of
                None \<Rightarrow> Some (None, ctx\<lparr>rfd := fd\<rparr>)
              | Some data \<Rightarrow> read_data_loop D n (ctx\<lparr>rfd := fd, rbuffer := data, consumed := 0\<rparr>) acc)
          else read_data_loop D n ctx acc))"

text \<open>The bytes read, or \<open>None\<close> for the result \<open>-1\<close>.\<close>

definition mtd_read_data :: "'d flash \<Rightarrow> 'd MtdReadContext \<Rightarrow> nat \<Rightarrow> (byte list option \<times> 'd MtdReadContext) option" where
  "mtd_read_data D ctx n = read_data_loop D n ctx []"

definition mtd_read_close :: "'d flash \<Rightarrow> 'd MtdReadContext \<Rightarrow> 'd" where
  "mtd_read_close D ctx = snd (fl_close D (rfd ctx))"

section \<open>Writing\<close>

definition mtd_write_partition :: "'d flash \<Rightarrow> MtdPartition \<Rightarrow> 'd \<Rightarrow> 'd MtdWriteContext option" where
  "mtd_write_partition D p d =
     (if \<not> alloc D 28 \<or> \<not> alloc D (unat (erase_size p)) then None
      else map_option (\<lambda>fd. \<lparr>wpart = p, stored = [], wfd = fd, bad_block_offsets = [], bad_block_alloc = 0\<rparr>)
        (fl_open D d (device_index p)))"

definition add_bad_block_offset :: "'d flash \<Rightarrow> 'd MtdWriteContext \<Rightarrow> int \<Rightarrow> 'd MtdWriteContext ub" where
  "add_bad_block_offset D ctx pos =
     (let grow = (bad_block_alloc ctx < length (bad_block_offsets ctx) + 1);
          n = (if grow then bad_block_alloc ctx * 2 + 1 else bad_block_alloc ctx)
      in if grow \<and> \<not> alloc D (n * 4) then None
         else if n \<le> length (bad_block_offsets ctx) then None
         else Some (ctx\<lparr>bad_block_alloc := n, bad_block_offsets := bad_block_offsets ctx @ [pos]\<rparr>))"

text \<open>The attempts to write a block at \<open>pos\<close> and to read it back; \<open>k\<close> attempts are left.\<close>

fun write_retry :: "'d flash \<Rightarrow> u32 \<Rightarrow> int \<Rightarrow> byte list \<Rightarrow> nat \<Rightarrow> 'd \<Rightarrow> bool \<times> 'd" where
  "write_retry D es pos data 0 fd = (False, fd)"
| "write_retry D es pos data (Suc k) fd =
     (case erase D fd pos (unat es) of
        (r, fd) \<Rightarrow>
          if r < 0 then write_retry D es pos data k fd
          else case seek_set D fd pos of
            (at, fd) \<Rightarrow>
              let fd = (if at \<noteq> pos then fd else snd (fl_write D fd data)) in
              case seek_set D fd pos of
                (at, fd) \<Rightarrow>
                  if at \<noteq> pos then write_retry D es pos data k fd
                  else case fl_read D fd (unat es) of
                    (n, verify, fd) \<Rightarrow>
                      if n \<noteq> sint es \<or> data \<noteq> verify then write_retry D es pos data k fd
                      else (True, fd))"

text \<open>\<open>pos += erase_size\<close> on an \<open>off_t\<close>, through unsigned arithmetic.\<close>

definition next_pos :: "MtdPartition \<Rightarrow> int \<Rightarrow> int" where
  "next_pos p pos = sint (of_int pos + erase_size p)"

partial_function (option) write_block_loop ::
  "'d flash \<Rightarrow> 'd MtdWriteContext \<Rightarrow> byte list \<Rightarrow> int \<Rightarrow> (int \<times> 'd MtdWriteContext) option" where
  "write_block_loop D ctx data pos =
     Option.bind (i32 (pos + sint (erase_size (wpart ctx)))) (\<lambda>e.
       if \<not> e \<le> sint (part_size (wpart ctx)) then Some (- 1, ctx)
       else case bad_block D (wfd ctx) pos of
         (ret, unsupported, fd) \<Rightarrow>
           if ret \<noteq> 0 \<and> \<not> (ret = - 1 \<and> unsupported) then
             Option.bind (add_bad_block_offset D (ctx\<lparr>wfd := fd\<rparr>) pos) (\<lambda>ctx.
               write_block_loop D ctx data (next_pos (wpart ctx) pos))
           else case write_retry D (erase_size (wpart ctx)) pos data 2 fd of
             (ok, fd) \<Rightarrow>
               if ok then Some (0, ctx\<lparr>wfd := fd\<rparr>)
               else Option.bind (add_bad_block_offset D (ctx\<lparr>wfd := fd\<rparr>) pos) (\<lambda>ctx.
                 write_block_loop D (ctx\<lparr>wfd := snd (erase D (wfd ctx) pos (unat (erase_size (wpart ctx))))\<rparr>)
                   data (next_pos (wpart ctx) pos)))"

definition write_block :: "'d flash \<Rightarrow> 'd MtdWriteContext \<Rightarrow> byte list \<Rightarrow> (int \<times> 'd MtdWriteContext) option" where
  "write_block D ctx data =
     (let pos = seek_cur D (wfd ctx) in
      if pos = - 1 then Some (1, ctx)
      else if \<not> alloc D (unat (erase_size (wpart ctx))) then Some (1, ctx)
      else write_block_loop D ctx data pos)"

partial_function (option) write_direct ::
  "'d flash \<Rightarrow> 'd MtdWriteContext \<Rightarrow> byte list \<Rightarrow> (bool \<times> 'd MtdWriteContext \<times> byte list) option" where
  "write_direct D ctx rest =
     (if stored ctx = [] \<and> unat (erase_size (wpart ctx)) \<le> length rest then
        Option.bind (write_block D ctx (take (unat (erase_size (wpart ctx))) rest)) (\<lambda>(r, ctx).
          if r \<noteq> 0 then Some (False, ctx, rest)
          else write_direct D ctx (drop (unat (erase_size (wpart ctx))) rest))
      else Some (True, ctx, rest))"

definition write_buffered :: "'d MtdWriteContext \<Rightarrow> byte list \<Rightarrow> 'd MtdWriteContext \<times> byte list" where
  "write_buffered ctx rest =
     (if stored ctx \<noteq> [] \<or> length rest < unat (erase_size (wpart ctx)) then
        let avail = unat (erase_size (wpart ctx)) - length (stored ctx);
            copy = (if length rest < avail then length rest else avail)
        in (ctx\<lparr>stored := stored ctx @ take copy rest\<rparr>, drop copy rest)
      else (ctx, rest))"

text \<open>A write of the accumulated block; the flag is false at an error.\<close>

definition write_stored :: "'d flash \<Rightarrow> 'd MtdWriteContext \<Rightarrow> byte list \<Rightarrow> (bool \<times> 'd MtdWriteContext) option" where
  "write_stored D ctx block =
     Option.bind (write_block D ctx block) (\<lambda>(r, ctx).
       if r \<noteq> 0 then Some (False, ctx) else Some (True, ctx\<lparr>stored := []\<rparr>))"

text \<open>\<open>rest\<close> is the data from \<open>wrote\<close> on.\<close>

partial_function (option) write_data_loop ::
  "'d flash \<Rightarrow> 'd MtdWriteContext \<Rightarrow> byte list \<Rightarrow> (bool \<times> 'd MtdWriteContext) option" where
  "write_data_loop D ctx rest =
     (if rest = [] then Some (True, ctx)
      else case write_buffered ctx rest of
        (ctx, rest) \<Rightarrow>
          Option.bind (if length (stored ctx) = unat (erase_size (wpart ctx))
                       then write_stored D ctx (stored ctx) else Some (True, ctx)) (\<lambda>(ok, ctx).
            if \<not> ok then Some (False, ctx)
            else Option.bind (write_direct D ctx rest) (\<lambda>(ok, ctx, rest).
              if \<not> ok then Some (False, ctx) else write_data_loop D ctx rest)))"

definition mtd_write_data :: "'d flash \<Rightarrow> 'd MtdWriteContext \<Rightarrow> byte list \<Rightarrow> (int \<times> 'd MtdWriteContext) option" where
  "mtd_write_data D ctx data =
     map_option (\<lambda>(ok, ctx). (if ok then int (length data) else - 1, ctx)) (write_data_loop D ctx data)"

fun erase_loop :: "'d flash \<Rightarrow> MtdPartition \<Rightarrow> nat \<Rightarrow> int \<Rightarrow> 'd \<Rightarrow> int \<times> 'd" where
  "erase_loop D p 0 pos fd = (pos, fd)"
| "erase_loop D p (Suc blocks) pos fd =
     (case bad_block D fd pos of
        (ret, _, fd) \<Rightarrow>
          if ret > 0 then erase_loop D p blocks (next_pos p pos) fd
          else erase_loop D p blocks (next_pos p pos) (snd (erase D fd pos (unat (erase_size p)))))"

definition mtd_erase_blocks :: "'d flash \<Rightarrow> 'd MtdWriteContext \<Rightarrow> int \<Rightarrow> (int \<times> 'd MtdWriteContext) option" where
  "mtd_erase_blocks D ctx blocks =
     Option.bind (if stored ctx \<noteq> []
                  then write_stored D ctx (stored ctx @ replicate (unat (erase_size (wpart ctx)) - length (stored ctx)) 0)
                  else Some (True, ctx)) (\<lambda>(ok, ctx).
       if \<not> ok then Some (- 1, ctx)
       else let pos = seek_cur D (wfd ctx) in
         if pos = - 1 then Some (pos, ctx)
         else if erase_size (wpart ctx) = 0 then None
         else let total = sint ((part_size (wpart ctx) - of_int pos) div erase_size (wpart ctx));
                  blocks = (if blocks < 0 then total else blocks)
              in if blocks > total then Some (- 1, ctx)
                 else case erase_loop D (wpart ctx) (nat blocks) pos (wfd ctx) of
                   (pos, fd) \<Rightarrow> Some (pos, ctx\<lparr>wfd := fd\<rparr>))"

text \<open>The context is released; it is returned for what it recorded.\<close>

definition mtd_write_close :: "'d flash \<Rightarrow> 'd MtdWriteContext \<Rightarrow> (int \<times> 'd MtdWriteContext) option" where
  "mtd_write_close D ctx =
     Option.bind (mtd_erase_blocks D ctx 0) (\<lambda>(pos, ctx).
       case fl_close D (wfd ctx) of
         (c, fd) \<Rightarrow> Some (if pos = - 1 \<or> c \<noteq> 0 then - 1 else 0, ctx\<lparr>wfd := fd\<rparr>))"

fun find_start :: "int \<Rightarrow> int list \<Rightarrow> int \<Rightarrow> int" where
  "find_start es [] pos = pos"
| "find_start es (b # bs) pos =
     (if b = pos then find_start es bs (pos + es)
      else if b > pos then pos else find_start es bs pos)"

definition mtd_find_write_start :: "'d MtdWriteContext \<Rightarrow> int \<Rightarrow> int" where
  "mtd_find_write_start ctx pos = find_start (uint (erase_size (wpart ctx))) (bad_block_offsets ctx) pos"

section \<open>What the driver promises\<close>

text \<open>
  What the code can observe of a device: the offset, the contents of the erase blocks, which blocks
  read without an uncorrectable error, which are marked bad, and the error counter.
\<close>

record nand =
  npos :: int
  ncell :: "nat \<Rightarrow> byte list"
  nclean :: "nat \<Rightarrow> bool"
  nbad :: "nat \<Rightarrow> bool"
  nfail :: u32

definition same_blocks :: "nand \<Rightarrow> nand \<Rightarrow> bool" where
  "same_blocks v w \<longleftrightarrow> ncell w = ncell v \<and> nclean w = nclean v \<and> nbad w = nbad v"

text \<open>At most the given blocks differ.\<close>

definition touches :: "nat set \<Rightarrow> nand \<Rightarrow> nand \<Rightarrow> bool" where
  "touches B v w \<longleftrightarrow> nbad w = nbad v \<and> (\<forall>i. i \<notin> B \<longrightarrow> ncell w i = ncell v i \<and> nclean w i = nclean v i)"

text \<open>The offset of a block.\<close>

definition bpos :: "nat \<Rightarrow> nat \<Rightarrow> int" where
  "bpos es b = int (b * es)"

text \<open>
  The documented behaviour of the driver, for \<open>n\<close> blocks of \<open>es\<close> bytes: positioning and the queries work,
  a read of a block either succeeds with the contents, or fails, or counts an uncorrectable error.
  Erasing and writing may fail and may leave anything behind, but only in their block; nothing is
  said about erasing or writing a block that is marked bad.
\<close>

definition positions :: "'d flash \<Rightarrow> ('d \<Rightarrow> nand) \<Rightarrow> nat \<Rightarrow> nat \<Rightarrow> bool" where
  "positions D V es n \<longleftrightarrow>
     (\<forall>d. seek_cur D d = npos (V d)) \<and>
     (\<forall>d b. b \<le> n \<longrightarrow> (\<exists>d'. seek_set D d (bpos es b) = (bpos es b, d') \<and> V d' = (V d)\<lparr>npos := bpos es b\<rparr>)) \<and>
     (\<forall>d i d'. fl_open D d i = Some d' \<longrightarrow> V d' = (V d)\<lparr>npos := 0\<rparr>) \<and>
     (\<forall>d. V (snd (fl_close D d)) = V d)"

definition queries :: "'d flash \<Rightarrow> ('d \<Rightarrow> nand) \<Rightarrow> nat \<Rightarrow> nat \<Rightarrow> bool" where
  "queries D V es n \<longleftrightarrow>
     (\<forall>d. \<exists>d'. ecc_failed D d = (Some (nfail (V d)), d') \<and> V d' = V d) \<and>
     (\<forall>d b. b < n \<longrightarrow> (\<exists>r u d'. bad_block D d (bpos es b) = (r, u, d') \<and> V d' = V d \<and>
        (r = 0 \<longleftrightarrow> \<not> nbad (V d) b) \<and> \<not> (r = - 1 \<and> u)))"

definition reads :: "'d flash \<Rightarrow> ('d \<Rightarrow> nand) \<Rightarrow> nat \<Rightarrow> nat \<Rightarrow> bool" where
  "reads D V es n \<longleftrightarrow>
     (\<forall>d b. length (ncell (V d) b) = es) \<and>
     (\<forall>d b. b < n \<and> npos (V d) = bpos es b \<longrightarrow>
        (\<exists>c data d' p k. fl_read D d es = (c, data, d') \<and> V d' = (V d)\<lparr>npos := p, nfail := k\<rparr> \<and>
           (c = int es \<longrightarrow> p = bpos es (Suc b)) \<and> (c \<noteq> int es \<longrightarrow> k = nfail (V d)) \<and>
           (if nclean (V d) b then c = int es \<and> k = nfail (V d) \<and> data = ncell (V d) b
            else c \<noteq> int es \<or> k \<noteq> nfail (V d))))"

definition changes :: "'d flash \<Rightarrow> ('d \<Rightarrow> nand) \<Rightarrow> nat \<Rightarrow> nat \<Rightarrow> bool" where
  "changes D V es n \<longleftrightarrow>
     (\<forall>d b. b < n \<and> \<not> nbad (V d) b \<longrightarrow>
        (\<exists>r d'. erase D d (bpos es b) es = (r, d') \<and> touches {b} (V d) (V d'))) \<and>
     (\<forall>d b data. b < n \<and> \<not> nbad (V d) b \<and> npos (V d) = bpos es b \<and> length data = es \<longrightarrow>
        touches {b} (V d) (V (snd (fl_write D d data))))"

definition driver :: "'d flash \<Rightarrow> ('d \<Rightarrow> nand) \<Rightarrow> nat \<Rightarrow> nat \<Rightarrow> bool" where
  "driver D V es n \<longleftrightarrow> positions D V es n \<and> queries D V es n \<and> reads D V es n \<and> changes D V es n \<and> (\<forall>k. alloc D k)"

definition geometry :: "MtdPartition \<Rightarrow> nat \<Rightarrow> nat \<Rightarrow> bool" where
  "geometry p es n \<longleftrightarrow> 0 < es \<and> Suc n * es < 2 ^ 31 \<and> erase_size p = of_nat es \<and> part_size p = of_nat (n * es)"

lemma sint_of_nat: "k < 2 ^ 31 \<Longrightarrow> sint (of_nat k :: u32) = int k"
  by (simp add: signed_of_nat signed_take_bit_int_eq_self)

lemma geometryD:
  assumes "geometry p es n"
  shows "unat (erase_size p) = es" "sint (erase_size p) = int es" "uint (erase_size p) = int es"
    "sint (part_size p) = bpos es n" "0 < es" "b \<le> n \<Longrightarrow> i32 (bpos es b + int es) = Some (bpos es (Suc b))"
    "b \<le> n \<Longrightarrow> next_pos p (bpos es b) = bpos es (Suc b)"
proof -
  have bound: "es + b * es < 2 ^ 31" if "b \<le> n" for b
    using assms mult_le_mono1 [OF that, of es] unfolding geometry_def mult_Suc by linarith
  from bound [of 0] bound [of n] have small: "es < 2 ^ 31" "n * es < 2 ^ 31" by auto
  then show "unat (erase_size p) = es" "sint (erase_size p) = int es" "sint (part_size p) = bpos es n" "0 < es"
    using assms by (auto simp: geometry_def unat_of_nat_u32 sint_of_nat bpos_def simp del: of_nat_mult)
  from small show "uint (erase_size p) = int es"
    using assms by (simp add: geometry_def unsigned_of_nat take_bit_nat_eq_self)
  show "i32 (bpos es b + int es) = Some (bpos es (Suc b))" if "b \<le> n"
    using bound [OF that] by (simp add: i32_ok_def bpos_def add.commute flip: of_nat_add of_nat_mult)
  show "next_pos p (bpos es b) = bpos es (Suc b)" if "b \<le> n"
    using bound [OF that] sint_of_nat [of "es + b * es"] assms
    by (simp add: next_pos_def geometry_def bpos_def add.commute)
qed

lemma bpos_le: "0 < es \<Longrightarrow> bpos es a \<le> bpos es b \<longleftrightarrow> a \<le> b"
  by (simp add: bpos_def)

lemma bpos_inj: "0 < es \<Longrightarrow> bpos es a = bpos es b \<longleftrightarrow> a = b"
  by (simp add: bpos_def)

lemma bpos_Suc: "bpos es b + int es = bpos es (Suc b)"
  by (simp add: bpos_def)

lemma bpos_nonneg [simp]: "0 \<le> bpos es b" "bpos es b \<noteq> - 1"
proof -
  show "0 \<le> bpos es b" by (simp add: bpos_def)
  then show "bpos es b \<noteq> - 1" by linarith
qed

lemma driver_seek:
  assumes "driver D V es n"
  shows "seek_cur D d = npos (V d)"
    and "b \<le> n \<Longrightarrow> \<exists>d'. seek_set D d (bpos es b) = (bpos es b, d') \<and> V d' = (V d)\<lparr>npos := bpos es b\<rparr>"
    and "fl_open D d i = Some d' \<Longrightarrow> V d' = (V d)\<lparr>npos := 0\<rparr>"
    and "V (snd (fl_close D d)) = V d"
  using assms unfolding driver_def positions_def by blast+

lemma driver_query:
  assumes "driver D V es n"
  shows "\<exists>d'. ecc_failed D d = (Some (nfail (V d)), d') \<and> V d' = V d"
    and "b < n \<Longrightarrow> \<exists>r u d'. bad_block D d (bpos es b) = (r, u, d') \<and> V d' = V d \<and>
      (r = 0 \<longleftrightarrow> \<not> nbad (V d) b) \<and> \<not> (r = - 1 \<and> u)"
    and "alloc D k"
  using assms unfolding driver_def queries_def by blast+

lemma driver_cell: "driver D V es n \<Longrightarrow> length (ncell (V d) b) = es"
  unfolding driver_def reads_def by blast

lemma driver_readE:
  assumes "driver D V es n" and "b < n" and "npos (V d) = bpos es b"
  obtains c data d' q k where "fl_read D d es = (c, data, d')" and "V d' = (V d)\<lparr>npos := q, nfail := k\<rparr>"
    and "c = int es \<longrightarrow> q = bpos es (Suc b)" and "c \<noteq> int es \<longrightarrow> k = nfail (V d)"
    and "nclean (V d) b \<longrightarrow> c = int es \<and> k = nfail (V d) \<and> data = ncell (V d) b"
    and "\<not> nclean (V d) b \<longrightarrow> c \<noteq> int es \<or> k \<noteq> nfail (V d)"
  using assms unfolding driver_def reads_def by meson

lemma driver_change:
  assumes "driver D V es n" and "b < n" and "\<not> nbad (V d) b"
  shows "\<exists>r d'. erase D d (bpos es b) es = (r, d') \<and> touches {b} (V d) (V d')"
    and "npos (V d) = bpos es b \<Longrightarrow> length data = es \<Longrightarrow> touches {b} (V d) (V (snd (fl_write D d data)))"
  using assms unfolding driver_def changes_def by blast+

end
