(* ===== verification/MtdRead.thy ===== *)
theory MtdRead
  imports Mtd
begin

text \<open>
  Reading a flash partition delivers the blocks that read cleanly, in order, whatever the sizes of the
  single reads.
\<close>

section \<open>Finding the next block\<close>

definition good :: "nand \<Rightarrow> nat \<Rightarrow> bool" where
  "good v b \<longleftrightarrow> nclean v b \<and> \<not> nbad v b"

definition good_from :: "nand \<Rightarrow> nat \<Rightarrow> nat \<Rightarrow> nat list" where
  "good_from v n b = filter (good v) [b..<n]"

lemma good_from_step:
  "b < n \<Longrightarrow> good_from v n b = (if good v b then b # good_from v n (Suc b) else good_from v n (Suc b))"
  by (simp add: good_from_def upt_conv_Cons)

lemma good_from_same: "same_blocks v w \<Longrightarrow> good_from w n b = good_from v n b"
  unfolding good_from_def same_blocks_def by (simp add: good_def [abs_def])

lemma same_blocks_trans: "same_blocks u v \<Longrightarrow> same_blocks v w \<Longrightarrow> same_blocks u w"
  by (simp add: same_blocks_def)

text \<open>One attempt at block \<open>b\<close>: it is returned when good, and passed over otherwise.\<close>

lemma read_block_step:
  assumes D: "driver D V es n" and p: "geometry p es n" and "b < n" and "before = nfail (V d)"
  shows "\<exists>d'. same_blocks (V d) (V d') \<and>
    (if good (V d) b then read_block_loop D p (bpos es b) before d = Some (Some (ncell (V d) b), d') \<and>
       npos (V d') = bpos es (Suc b)
     else read_block_loop D p (bpos es b) before d = read_block_loop D p (bpos es (Suc b)) (nfail (V d')) d')"
proof -
  obtain d1 where d1: "seek_set D d (bpos es b) = (bpos es b, d1)" "V d1 = (V d)\<lparr>npos := bpos es b\<rparr>"
    using driver_seek(2) [OF D, of b] assms(3) by (meson less_imp_le)
  have "npos (V d1) = bpos es b" by (simp add: d1(2))
  then obtain c data d2 q k where r0: "fl_read D d1 es = (c, data, d2)"
      "V d2 = (V d1)\<lparr>npos := q, nfail := k\<rparr>" "c = int es \<longrightarrow> q = bpos es (Suc b)" "c \<noteq> int es \<longrightarrow> k = nfail (V d1)"
      "nclean (V d1) b \<longrightarrow> c = int es \<and> k = nfail (V d1) \<and> data = ncell (V d1) b"
      "\<not> nclean (V d1) b \<longrightarrow> c \<noteq> int es \<or> k \<noteq> nfail (V d1)"
    by (rule driver_readE [OF D assms(3)]) (rule that)
  note r = r0 [unfolded d1(2), simplified]
  obtain d3 where d3: "ecc_failed D d2 = (Some k, d3)" "V d3 = V d2"
    using driver_query(1) [OF D, of d2] r(2) by auto
  obtain m u d4 where d4: "bad_block D d3 (bpos es b) = (m, u, d4)" "V d4 = V d3" "m = 0 \<longleftrightarrow> \<not> nbad (V d) b"
    using driver_query(2) [OF D assms(3), of d3] d3(2) r(2) by auto
  have "bpos es b + int es \<le> bpos es n"
    using assms(3) by (simp add: bpos_Suc bpos_le geometryD(5) [OF p])
  then have unfold: "read_block_loop D p (bpos es b) before d =
      (if c \<noteq> int es then read_block_loop D p (bpos es (Suc b)) before d2
       else if k \<noteq> before then read_block_loop D p (bpos es (Suc b)) k d3
       else if m \<noteq> 0 then read_block_loop D p (bpos es (Suc b)) before d4 else Some (Some data, d4))"
    by (subst read_block_loop.simps) (simp add: geometryD [OF p] d1(1) r(1) d3(1) d4(1) bpos_Suc)
  have sm: "same_blocks (V d) (V d2)" "same_blocks (V d) (V d3)" "same_blocks (V d) (V d4)"
    using r(2) d3(2) d4(2) by (auto simp: same_blocks_def)
  consider "c \<noteq> int es" | "c = int es" "k \<noteq> before" | "c = int es" "k = before" by blast
  then show ?thesis
  proof cases
    case 1
    then show ?thesis using unfold sm(1) r assms(4) by (intro exI [of _ d2]) (auto simp: good_def split: if_splits)
  next
    case 2
    then show ?thesis using unfold sm(2) r d3(2) assms(4) by (intro exI [of _ d3]) (auto simp: good_def split: if_splits)
  next
    case 3
    then show ?thesis
      using unfold sm(3) r d3(2) d4(2,3) assms(4) by (intro exI [of _ d4]) (auto simp: good_def split: if_splits)
  qed
qed

lemma read_block_loop_spec:
  assumes D: "driver D V es n" and p: "geometry p es n"
  shows "b \<le> n \<Longrightarrow> \<exists>r d'. read_block_loop D p (bpos es b) (nfail (V d)) d = Some (r, d') \<and>
    same_blocks (V d) (V d') \<and>
    (if good_from (V d) n b = [] then r = None
     else r = Some (ncell (V d) (hd (good_from (V d) n b))) \<and> npos (V d') = bpos es (Suc (hd (good_from (V d) n b))))"
proof (induction "n - b" arbitrary: b d)
  case 0
  then have "\<not> bpos es b + int es \<le> bpos es n"
    using geometryD(5) [OF p] by (simp add: bpos_Suc bpos_le)
  then have "read_block_loop D p (bpos es b) (nfail (V d)) d = Some (None, d)"
    by (subst read_block_loop.simps) (simp add: geometryD [OF p])
  then show ?case using 0 by (simp add: good_from_def same_blocks_def)
next
  case (Suc m)
  then have b: "b < n" by simp
  obtain d1 where d1: "same_blocks (V d) (V d1)"
    "if good (V d) b then read_block_loop D p (bpos es b) (nfail (V d)) d = Some (Some (ncell (V d) b), d1) \<and>
       npos (V d1) = bpos es (Suc b)
     else read_block_loop D p (bpos es b) (nfail (V d)) d = read_block_loop D p (bpos es (Suc b)) (nfail (V d1)) d1"
    using read_block_step [OF D p b refl, where d = d] by (elim exE conjE) (rule that)
  show ?case
  proof (cases "good (V d) b")
    case True
    then show ?thesis using d1 b by (simp add: good_from_step)
  next
    case False
    have "m = n - Suc b" "Suc b \<le> n" using Suc.hyps(2) b by auto
    from Suc.hyps(1) [OF this, of d1] obtain r d2 where IH:
      "read_block_loop D p (bpos es (Suc b)) (nfail (V d1)) d1 = Some (r, d2)" "same_blocks (V d1) (V d2)"
      "if good_from (V d1) n (Suc b) = [] then r = None
       else r = Some (ncell (V d1) (hd (good_from (V d1) n (Suc b)))) \<and>
         npos (V d2) = bpos es (Suc (hd (good_from (V d1) n (Suc b))))"
      by (elim exE conjE) (rule that)
    have eq: "good_from (V d) n b = good_from (V d1) n (Suc b)" "ncell (V d1) = ncell (V d)"
      using False b good_from_same [OF d1(1)] d1(1) by (auto simp: good_from_step same_blocks_def)
    have step: "read_block_loop D p (bpos es b) (nfail (V d)) d = read_block_loop D p (bpos es (Suc b)) (nfail (V d1)) d1"
      using d1(2) False by simp
    show ?thesis
      unfolding step eq(1) by (intro exI conjI, rule IH(1), rule same_blocks_trans [OF d1(1) IH(2)]) (use IH(3) eq(2) in simp)
  qed
qed

text \<open>The bytes that a read context has still to deliver.\<close>

definition at_block :: "('d \<Rightarrow> nand) \<Rightarrow> nat \<Rightarrow> nat \<Rightarrow> 'd \<Rightarrow> nat \<Rightarrow> bool" where
  "at_block V es n d b \<longleftrightarrow> b \<le> n \<and> npos (V d) = bpos es b"

definition cells_from :: "nand \<Rightarrow> nat \<Rightarrow> nat \<Rightarrow> byte list" where
  "cells_from v n b = concat (map (ncell v) (good_from v n b))"

lemma good_from_hd: "good_from v n b = k # ks \<Longrightarrow> k < n \<and> good_from v n (Suc k) = ks"
proof (induction "n - b" arbitrary: b)
  case 0
  then show ?case by (simp add: good_from_def)
next
  case (Suc m)
  then have b: "b < n" "m = n - Suc b" by auto
  show ?case
    using Suc.prems Suc.hyps(1) [OF b(2)] b(1) by (cases "good v b") (auto simp: good_from_step)
qed

lemma read_block_spec:
  assumes D: "driver D V es n" and p: "geometry p es n" and b: "at_block V es n d b"
  shows "\<exists>r d'. read_block D p d = Some (r, d') \<and> same_blocks (V d) (V d') \<and>
    (case r of
       None \<Rightarrow> cells_from (V d) n b = []
     | Some data \<Rightarrow> length data = es \<and>
         (\<exists>b'. at_block V es n d' b' \<and> cells_from (V d) n b = data @ cells_from (V d') n b'))"
proof -
  obtain d1 where d1: "ecc_failed D d = (Some (nfail (V d)), d1)" "V d1 = V d"
    using driver_query(1) [OF D, of d] by blast
  have start: "read_block D p d = read_block_loop D p (bpos es b) (nfail (V d)) d1"
    using b by (simp add: read_block_def d1 driver_seek(1) [OF D] at_block_def)
  have "b \<le> n" using b by (simp add: at_block_def)
  from read_block_loop_spec [OF D p this, of d1] obtain r d2 where
    d2: "read_block_loop D p (bpos es b) (nfail (V d)) d1 = Some (r, d2)" "same_blocks (V d) (V d2)"
      "if good_from (V d) n b = [] then r = None
       else r = Some (ncell (V d) (hd (good_from (V d) n b))) \<and> npos (V d2) = bpos es (Suc (hd (good_from (V d) n b)))"
    unfolding d1(2) by (elim exE conjE) (rule that)
  show ?thesis
  proof (cases "good_from (V d) n b")
    case Nil
    then show ?thesis using d2 start by (simp add: cells_from_def)
  next
    case (Cons k ks)
    have "cells_from (V d) n b = ncell (V d) k @ cells_from (V d2) n (Suc k)"
      using good_from_hd [OF Cons] good_from_same [OF d2(2)] d2(2)
      by (simp add: cells_from_def Cons same_blocks_def)
    moreover have "at_block V es n d2 (Suc k)"
      using good_from_hd [OF Cons] d2(3) by (simp add: at_block_def Cons)
    ultimately have "\<exists>b'. at_block V es n d2 b' \<and> cells_from (V d) n b = ncell (V d) k @ cells_from (V d2) n b'"
      by blast
    moreover have "read_block D p d = Some (Some (ncell (V d) k), d2)"
      using d2(1,3) start by (simp add: Cons)
    ultimately show ?thesis
      using d2(2) by (simp add: driver_cell [OF D])
  qed
qed

definition read_inv :: "('d \<Rightarrow> nand) \<Rightarrow> MtdPartition \<Rightarrow> nat \<Rightarrow> nat \<Rightarrow> 'd MtdReadContext \<Rightarrow> nat \<Rightarrow> bool" where
  "read_inv V p es n ctx b \<longleftrightarrow> rpart ctx = p \<and> at_block V es n (rfd ctx) b \<and> consumed ctx \<le> es \<and>
     length (rbuffer ctx) \<le> es \<and> (consumed ctx < es \<longrightarrow> length (rbuffer ctx) = es)"

definition pending :: "('d \<Rightarrow> nand) \<Rightarrow> nat \<Rightarrow> 'd MtdReadContext \<Rightarrow> nat \<Rightarrow> byte list" where
  "pending V n ctx b = drop (consumed ctx) (rbuffer ctx) @ cells_from (V (rfd ctx)) n b"

lemma read_buffered_spec:
  assumes "geometry p es n" and "read_inv V p es n ctx b" and "length acc < m" and "read_buffered m ctx acc = (ctx', acc')"
  shows "read_inv V p es n ctx' b" and "acc' @ pending V n ctx' b = acc @ pending V n ctx b" and "length acc' \<le> m"
    and "consumed ctx < es \<Longrightarrow> length acc < length acc'" and "consumed ctx = es \<Longrightarrow> ctx' = ctx \<and> acc' = acc"
proof -
  define c where "c = (if m - length acc < es - consumed ctx then m - length acc else es - consumed ctx)"
  have p: "unat (erase_size (rpart ctx)) = es" using assms(1,2) by (simp add: geometryD(1) read_inv_def)
  have split: "segment (rbuffer ctx) (consumed ctx) c @ drop (consumed ctx + c) (rbuffer ctx) = drop (consumed ctx) (rbuffer ctx)"
    by (simp add: segment_def add.commute flip: drop_drop)
  have cases: "if consumed ctx < es then ctx' = ctx\<lparr>consumed := consumed ctx + c\<rparr> \<and>
      acc' = acc @ segment (rbuffer ctx) (consumed ctx) c else ctx' = ctx \<and> acc' = acc"
    using assms(4) by (auto simp: read_buffered_def p c_def Let_def)
  have len: "length (segment (rbuffer ctx) (consumed ctx) c) = c" if "consumed ctx < es"
    using assms(2) that by (auto simp: read_inv_def c_def)
  have c: "c \<le> es - consumed ctx" "c \<le> m - length acc" "consumed ctx < es \<Longrightarrow> 0 < c"
    using assms(3) by (auto simp: c_def)
  show "read_inv V p es n ctx' b" using assms(2) cases c(1) by (auto simp: read_inv_def split: if_splits)
  show "acc' @ pending V n ctx' b = acc @ pending V n ctx b"
    using cases split by (auto simp: pending_def split: if_splits)
  show "length acc' \<le> m" using cases c(2) len assms(3) by (auto split: if_splits)
  show "length acc < length acc'" if "consumed ctx < es" using cases c(3) len that by simp
  show "ctx' = ctx \<and> acc' = acc" if "consumed ctx = es" using cases that by simp
qed

lemma read_direct_spec:
  assumes D: "driver D V es n" and p: "geometry p es n"
  shows "read_inv V p es n ctx b \<Longrightarrow> length acc \<le> m \<Longrightarrow> \<exists>ok ctx' acc'. read_direct D m ctx acc = Some (ok, ctx', acc') \<and>
    (if ok then \<exists>b'. read_inv V p es n ctx' b' \<and> acc' @ pending V n ctx' b' = acc @ pending V n ctx b \<and>
       length acc \<le> length acc' \<and> length acc' \<le> m \<and> consumed ctx' = consumed ctx
     else length (acc @ pending V n ctx b) < m)"
proof (induction "m - length acc" arbitrary: ctx acc b rule: less_induct)
  case less
  have part: "rpart ctx = p" and at: "at_block V es n (rfd ctx) b" using less.prems(1) by (auto simp: read_inv_def)
  show ?case
  proof (cases "consumed ctx = es \<and> es \<le> m - length acc")
    case False
    then have "read_direct D m ctx acc = Some (True, ctx, acc)"
      by (subst read_direct.simps) (auto simp: part geometryD(1) [OF p])
    then show ?thesis using less.prems by auto
  next
    case True
    obtain r d1 where d1: "read_block D p (rfd ctx) = Some (r, d1)"
      "case r of None \<Rightarrow> cells_from (V (rfd ctx)) n b = []
       | Some data \<Rightarrow> length data = es \<and>
           (\<exists>b'. at_block V es n d1 b' \<and> cells_from (V (rfd ctx)) n b = data @ cells_from (V d1) n b')"
      using read_block_spec [OF D p at] by (elim exE conjE) (rule that)
    have step: "read_direct D m ctx acc = (case r of None \<Rightarrow> Some (False, ctx\<lparr>rfd := d1\<rparr>, acc)
        | Some data \<Rightarrow> read_direct D m (ctx\<lparr>rfd := d1\<rparr>) (acc @ data))"
      using True by (subst read_direct.simps) (simp add: part geometryD(1) [OF p] d1(1))
    have empty: "pending V n ctx b = cells_from (V (rfd ctx)) n b"
      using True less.prems(1) by (simp add: pending_def read_inv_def)
    show ?thesis
    proof (cases r)
      case None
      then have "read_direct D m ctx acc = Some (False, ctx\<lparr>rfd := d1\<rparr>, acc)" using step by simp
      moreover have "length (acc @ pending V n ctx b) < m"
        using None d1(2) empty True geometryD(5) [OF p] by auto
      ultimately show ?thesis by (intro exI [of _ False] exI [of _ "ctx\<lparr>rfd := d1\<rparr>"] exI [of _ acc]) simp
    next
      case (Some data)
      then obtain b' where b': "length data = es" "at_block V es n d1 b'" "cells_from (V (rfd ctx)) n b = data @ cells_from (V d1) n b'"
        using d1(2) by auto
      have inv: "read_inv V p es n (ctx\<lparr>rfd := d1\<rparr>) b'" using less.prems(1) b'(2) by (simp add: read_inv_def)
      have pend: "acc @ pending V n ctx b = (acc @ data) @ pending V n (ctx\<lparr>rfd := d1\<rparr>) b'"
        using empty b'(3) True less.prems(1) by (simp add: pending_def read_inv_def)
      have less': "m - length (acc @ data) < m - length acc" "length (acc @ data) \<le> m"
        unfolding length_append b'(1) using True geometryD(5) [OF p] by linarith+
      from less.hyps [OF less'(1) inv less'(2)] show ?thesis
        unfolding step Some pend option.case by (elim exE conjE) (intro exI conjI, assumption, auto split: if_splits)
    qed
  qed
qed

text \<open>
  One round of the loop either ends it, with a result that is right, or goes on with the same bytes
  still to come and less to do.
\<close>

definition read_work :: "nat \<Rightarrow> nat \<Rightarrow> 'd MtdReadContext \<Rightarrow> byte list \<Rightarrow> nat" where
  "read_work es m ctx acc = 2 * (m - length acc) + (if consumed ctx = es then 1 else 0)"

definition read_right :: "('d \<Rightarrow> nand) \<Rightarrow> MtdPartition \<Rightarrow> nat \<Rightarrow> nat \<Rightarrow> nat \<Rightarrow> byte list \<Rightarrow> (byte list option \<times> 'd MtdReadContext) \<Rightarrow> bool" where
  "read_right V p es n m bytes res \<longleftrightarrow>
     (if m \<le> length bytes
      then fst res = Some (take m bytes) \<and> (\<exists>b. read_inv V p es n (snd res) b \<and> pending V n (snd res) b = drop m bytes)
      else fst res = None)"

definition read_goes_on ::
  "('d \<Rightarrow> nand) \<Rightarrow> MtdPartition \<Rightarrow> nat \<Rightarrow> nat \<Rightarrow> nat \<Rightarrow> byte list \<Rightarrow> 'd MtdReadContext \<Rightarrow> byte list \<Rightarrow> bool" where
  "read_goes_on V p es n m bytes ctx acc \<longleftrightarrow>
     length acc \<le> m \<and> (\<exists>b. read_inv V p es n ctx b \<and> acc @ pending V n ctx b = bytes)"

lemma read_refill:
  assumes D: "driver D V es n" and p: "geometry p es n" and inv: "read_inv V p es n ctx b"
    and "length acc < m" and "consumed ctx = es"
    and "read_block D p (rfd ctx) = Some (r, d)" "same_blocks (V (rfd ctx)) (V d)"
      "case r of None \<Rightarrow> cells_from (V (rfd ctx)) n b = []
       | Some data \<Rightarrow> length data = es \<and>
           (\<exists>b'. at_block V es n d b' \<and> cells_from (V (rfd ctx)) n b = data @ cells_from (V d) n b')"
  shows "case r of
      None \<Rightarrow> read_right V p es n m (acc @ pending V n ctx b) (None, ctx\<lparr>rfd := d\<rparr>)
    | Some data \<Rightarrow> read_goes_on V p es n m (acc @ pending V n ctx b) (ctx\<lparr>rfd := d, rbuffer := data, consumed := 0\<rparr>) acc"
proof -
  have empty: "pending V n ctx b = cells_from (V (rfd ctx)) n b"
    using assms(5) inv by (simp add: pending_def read_inv_def)
  show ?thesis
  proof (cases r)
    case None
    then show ?thesis using assms(4,8) empty by (simp add: read_right_def)
  next
    case (Some data)
    then obtain b' where b': "length data = es" "at_block V es n d b'"
        "cells_from (V (rfd ctx)) n b = data @ cells_from (V d) n b'"
      using assms(8) by auto
    let ?ctx = "ctx\<lparr>rfd := d, rbuffer := data, consumed := 0\<rparr>"
    have "read_inv V p es n ?ctx b'" using inv b'(1,2) by (simp add: read_inv_def)
    moreover have "acc @ pending V n ?ctx b' = acc @ pending V n ctx b"
      using empty b'(3) by (simp add: pending_def)
    ultimately have "read_goes_on V p es n m (acc @ pending V n ctx b) ?ctx acc"
      unfolding read_goes_on_def using assms(4) by (intro conjI exI, simp)
    then show ?thesis by (simp add: Some)
  qed
qed

lemma read_round_rest:
  assumes D: "driver D V es n" and p: "geometry p es n" and on: "read_goes_on V p es n m bytes ctx acc"
    and step: "L = (if m \<le> length acc then Some (Some acc, ctx)
         else if consumed ctx = es then
           Option.bind (read_block D p (rfd ctx)) (\<lambda>(r, fd). case r of None \<Rightarrow> Some (None, ctx\<lparr>rfd := fd\<rparr>)
             | Some data \<Rightarrow> read_data_loop D m (ctx\<lparr>rfd := fd, rbuffer := data, consumed := 0\<rparr>) acc)
         else read_data_loop D m ctx acc)"
    and work: "read_work es m ctx acc \<le> w" "consumed ctx \<noteq> es \<Longrightarrow> read_work es m ctx acc < w"
  shows "(\<exists>res. L = Some res \<and> read_right V p es n m bytes res) \<or>
    (\<exists>ctx' acc'. L = read_data_loop D m ctx' acc' \<and> read_goes_on V p es n m bytes ctx' acc' \<and> read_work es m ctx' acc' < w)"
proof -
  obtain b where b: "read_inv V p es n ctx b" "acc @ pending V n ctx b = bytes" "length acc \<le> m"
    using on by (auto simp: read_goes_on_def)
  have part: "rpart ctx = p" "at_block V es n (rfd ctx) b" using b(1) by (auto simp: read_inv_def)
  consider "length acc = m" | "length acc < m" "consumed ctx = es" | "length acc < m" "consumed ctx \<noteq> es"
    using b(3) by linarith
  then show ?thesis
  proof cases
    case 1
    then have "L = Some (Some acc, ctx)" using step by simp
    moreover have "read_right V p es n m bytes (Some acc, ctx)"
      using 1 b(1,2) by (auto simp: read_right_def)
    ultimately show ?thesis by blast
  next
    case 2
    obtain r d where d: "read_block D p (rfd ctx) = Some (r, d)" "same_blocks (V (rfd ctx)) (V d)"
      "case r of None \<Rightarrow> cells_from (V (rfd ctx)) n b = []
       | Some data \<Rightarrow> length data = es \<and>
           (\<exists>b'. at_block V es n d b' \<and> cells_from (V (rfd ctx)) n b = data @ cells_from (V d) n b')"
      using read_block_spec [OF D p part(2)] by (elim exE conjE) (rule that)
    note fill = read_refill [OF D p b(1) 2 d, unfolded b(2)]
    show ?thesis
    proof (cases r)
      case None
      then show ?thesis using fill step 2 d(1) by simp
    next
      case (Some data)
      let ?ctx = "ctx\<lparr>rfd := d, rbuffer := data, consumed := 0\<rparr>"
      have "read_work es m ?ctx acc < w"
        using work(1) 2 geometryD(5) [OF p] by (simp add: read_work_def)
      moreover have "L = read_data_loop D m ?ctx acc" using step 2 d(1) Some by simp
      ultimately show ?thesis using fill Some by (intro disjI2 exI conjI) simp_all
    qed
  next
    case 3
    then show ?thesis using step work(2) on by (intro disjI2 exI [of _ ctx] exI [of _ acc]) simp
  qed
qed

lemma read_round:
  assumes D: "driver D V es n" and p: "geometry p es n" and on: "read_goes_on V p es n m bytes ctx acc"
  shows "(\<exists>res. read_data_loop D m ctx acc = Some res \<and> read_right V p es n m bytes res) \<or>
    (\<exists>ctx' acc'. read_data_loop D m ctx acc = read_data_loop D m ctx' acc' \<and> read_goes_on V p es n m bytes ctx' acc' \<and>
      read_work es m ctx' acc' < read_work es m ctx acc)"
proof (cases "length acc < m")
  case False
  then have "read_data_loop D m ctx acc = Some (Some acc, ctx)" "m \<le> length bytes" "take m bytes = acc"
      "\<exists>b. read_inv V p es n ctx b \<and> pending V n ctx b = drop m bytes"
    using on by (auto simp: read_data_loop.simps read_goes_on_def)
  then show ?thesis by (simp add: read_right_def)
next
  case m: True
  obtain b where inv: "read_inv V p es n ctx b" and bytes: "acc @ pending V n ctx b = bytes"
    using on by (auto simp: read_goes_on_def)
  obtain ctx1 acc1 where b1: "read_buffered m ctx acc = (ctx1, acc1)" by (cases "read_buffered m ctx acc")
  note buf = read_buffered_spec [OF p inv m b1]
  obtain ok ctx2 acc2 where d2: "read_direct D m ctx1 acc1 = Some (ok, ctx2, acc2)"
    "if ok then \<exists>b'. read_inv V p es n ctx2 b' \<and> acc2 @ pending V n ctx2 b' = bytes \<and>
       length acc1 \<le> length acc2 \<and> length acc2 \<le> m \<and> consumed ctx2 = consumed ctx1
     else length bytes < m"
    using read_direct_spec [OF D p buf(1,3)] unfolding buf(2) bytes by (elim exE conjE) (rule that)
  show ?thesis
  proof (cases ok)
    case False
    then have "read_data_loop D m ctx acc = Some (None, ctx2)"
      using m b1 d2(1) by (subst read_data_loop.simps) simp
    then show ?thesis using False d2(2) by (simp add: read_right_def)
  next
    case True
    then obtain b2 where b2: "read_inv V p es n ctx2 b2" "acc2 @ pending V n ctx2 b2 = bytes"
        "length acc1 \<le> length acc2" "length acc2 \<le> m" "consumed ctx2 = consumed ctx1"
      using d2(2) by auto
    have part: "rpart ctx2 = p" using b2(1) by (simp add: read_inv_def)
    have step: "read_data_loop D m ctx acc =
        (if m \<le> length acc2 then Some (Some acc2, ctx2)
         else if consumed ctx2 = es then
           Option.bind (read_block D p (rfd ctx2)) (\<lambda>(r, fd). case r of None \<Rightarrow> Some (None, ctx2\<lparr>rfd := fd\<rparr>)
             | Some data \<Rightarrow> read_data_loop D m (ctx2\<lparr>rfd := fd, rbuffer := data, consumed := 0\<rparr>) acc2)
         else read_data_loop D m ctx2 acc2)"
      using m b1 d2(1) True by (subst read_data_loop.simps) (simp add: part geometryD(1) [OF p])
    have "consumed ctx < es \<and> length acc < length acc2 \<or> consumed ctx = es \<and> consumed ctx2 = es \<and> length acc \<le> length acc2"
    proof (cases "consumed ctx < es")
      case True
      then show ?thesis using buf(4) b2(3) by simp
    next
      case False
      then have "consumed ctx = es" using inv by (simp add: read_inv_def)
      then show ?thesis using buf(5) b2(3,5) by simp
    qed
    then have "read_work es m ctx2 acc2 \<le> read_work es m ctx acc"
        "consumed ctx2 \<noteq> es \<Longrightarrow> read_work es m ctx2 acc2 < read_work es m ctx acc"
      using m b2(4) by (auto simp: read_work_def)
    moreover have "read_goes_on V p es n m bytes ctx2 acc2" unfolding read_goes_on_def using b2 by blast
    ultimately show ?thesis using read_round_rest [OF D p _ step] by blast
  qed
qed

lemma read_data_loop_spec:
  assumes D: "driver D V es n" and p: "geometry p es n"
  shows "read_goes_on V p es n m bytes ctx acc \<Longrightarrow>
    \<exists>res. read_data_loop D m ctx acc = Some res \<and> read_right V p es n m bytes res"
proof (induction "read_work es m ctx acc" arbitrary: ctx acc rule: less_induct)
  case less
  from read_round [OF D p less.prems] show ?case
  proof (elim disjE exE conjE)
    fix ctx' acc'
    assume "read_data_loop D m ctx acc = read_data_loop D m ctx' acc'" and "read_goes_on V p es n m bytes ctx' acc'"
      and "read_work es m ctx' acc' < read_work es m ctx acc"
    with less.hyps show ?case by metis
  qed blast
qed

end
