(* ===== verification/MtdWrite.thy ===== *)
theory MtdWrite
  imports MtdRead
begin

text \<open>
  Writing a flash partition: the invariant of a writer, and what a closed partition holds.
\<close>

section \<open>Writing a block\<close>

lemma touches_refl [simp]: "touches B v v"
  by (simp add: touches_def)

lemma touches_pos [simp]: "touches B v (w\<lparr>npos := q\<rparr>) \<longleftrightarrow> touches B v w" "touches B v (w\<lparr>nfail := k\<rparr>) \<longleftrightarrow> touches B v w"
  by (auto simp: touches_def)

lemma touches_trans: "touches A u v \<Longrightarrow> touches B v w \<Longrightarrow> touches (A \<union> B) u w"
  by (simp add: touches_def)

lemma touches_mono: "touches A v w \<Longrightarrow> A \<subseteq> B \<Longrightarrow> touches B v w"
  by (auto simp: touches_def)

lemma touches_bad: "touches B v w \<Longrightarrow> nbad w = nbad v"
  by (simp add: touches_def)

text \<open>An attempt to write touches only its block; a verified block holds the data if it reads cleanly.\<close>

lemma write_retry_spec:
  assumes D: "driver D V es n" and p: "geometry p es n" and b: "b < n" and len: "length data = es"
  shows "\<not> nbad (V d) b \<Longrightarrow> write_retry D (erase_size p) (bpos es b) data k d = (ok, d') \<Longrightarrow>
    touches {b} (V d) (V d') \<and>
    (ok \<longrightarrow> npos (V d') = bpos es (Suc b) \<and> (nclean (V d') b \<longrightarrow> ncell (V d') b = data))"
proof (induction k arbitrary: d)
  case (Suc k)
  obtain r d1 where d1: "erase D d (bpos es b) es = (r, d1)" "touches {b} (V d) (V d1)"
    using driver_change(1) [OF D b Suc.prems(1)] by blast
  obtain d2 where d2: "seek_set D d1 (bpos es b) = (bpos es b, d2)" "V d2 = (V d1)\<lparr>npos := bpos es b\<rparr>"
    using driver_seek(2) [OF D, of b d1] b by auto
  have bad: "\<not> nbad (V d1) b" "\<not> nbad (V d2) b" using touches_bad [OF d1(2)] Suc.prems(1) d2(2) by auto
  define d3 where "d3 = snd (fl_write D d2 data)"
  have d3: "touches {b} (V d2) (V d3)"
    unfolding d3_def using driver_change(2) [OF D b bad(2) _ len] d2(2) by simp
  obtain d4 where d4: "seek_set D d3 (bpos es b) = (bpos es b, d4)" "V d4 = (V d3)\<lparr>npos := bpos es b\<rparr>"
    using driver_seek(2) [OF D, of b d3] b by auto
  then have "npos (V d4) = bpos es b" by simp
  then obtain c verify d5 q f where d5: "fl_read D d4 es = (c, verify, d5)" "V d5 = (V d4)\<lparr>npos := q, nfail := f\<rparr>"
      "c = int es \<longrightarrow> q = bpos es (Suc b)" "nclean (V d4) b \<longrightarrow> c = int es \<and> f = nfail (V d4) \<and> verify = ncell (V d4) b"
    by (rule driver_readE [OF D b]) (rule that)
  have "touches {b} (V d1) (V d3)" using d3 d2(2) by (auto simp: touches_def)
  then have t: "touches {b} (V d) (V d3)" using touches_trans [OF d1(2)] by fastforce
  then have t5: "touches {b} (V d) (V d5)" using d4(2) d5(2) by simp
  have step: "write_retry D (erase_size p) (bpos es b) data (Suc k) d =
      (if r < 0 then write_retry D (erase_size p) (bpos es b) data k d1
       else if c \<noteq> int es \<or> data \<noteq> verify then write_retry D (erase_size p) (bpos es b) data k d5 else (True, d5))"
    by (simp add: geometryD [OF p] d1(1) d2(1) d4(1) d5(1) flip: d3_def)
  have again: "touches {b} (V d) (V d') \<and> (ok \<longrightarrow> npos (V d') = bpos es (Suc b) \<and> (nclean (V d') b \<longrightarrow> ncell (V d') b = data))"
    if "write_retry D (erase_size p) (bpos es b) data k x = (ok, d')" and "touches {b} (V d) (V x)" for x
  proof -
    have "\<not> nbad (V x) b" using touches_bad [OF that(2)] Suc.prems(1) by simp
    then show ?thesis using Suc.IH [OF _ that(1)] touches_trans [OF that(2), of "{b}"] by fastforce
  qed
  consider "r < 0" | "\<not> r < 0" "c \<noteq> int es \<or> data \<noteq> verify" | "\<not> r < 0" "c = int es" "data = verify" by blast
  then show ?case
  proof cases
    case 1
    then show ?thesis using again [OF _ d1(2)] Suc.prems(2) step by simp
  next
    case 2
    then show ?thesis using again [OF _ t5] Suc.prems(2) step by simp
  next
    case 3
    then have "ok" "d' = d5" using Suc.prems(2) step by simp_all
    then show ?thesis using t5 3 d4(2) d5(2-4) by auto
  qed
qed simp

lemma add_bad_ok:
  assumes "driver D V es n" and "length (bad_block_offsets ctx) \<le> bad_block_alloc ctx"
  obtains a where "\<And>d. add_bad_block_offset D (ctx\<lparr>wfd := d\<rparr>) pos =
      Some (ctx\<lparr>wfd := d, bad_block_alloc := a, bad_block_offsets := bad_block_offsets ctx @ [pos]\<rparr>)"
    and "Suc (length (bad_block_offsets ctx)) \<le> a"
proof -
  let ?a = "if bad_block_alloc ctx < length (bad_block_offsets ctx) + 1 then bad_block_alloc ctx * 2 + 1 else bad_block_alloc ctx"
  have "Suc (length (bad_block_offsets ctx)) \<le> ?a" using assms(2) by simp
  then show thesis
    using driver_query(3) [OF assms(1)] by (intro that [of ?a]) (auto simp: add_bad_block_offset_def Let_def)
qed

text \<open>
  Looking for a block that takes the data: blocks \<open>b\<close> to \<open>b'\<close> are recorded as bad, and block \<open>b'\<close> takes
  it, unless the space ran out.  Blocks that are marked bad are not touched.
\<close>

definition usable :: "nand \<Rightarrow> nat \<Rightarrow> nat set" where
  "usable v b = {i. b \<le> i \<and> \<not> nbad v i}"

definition took :: "('d \<Rightarrow> nand) \<Rightarrow> nat \<Rightarrow> nat \<Rightarrow> byte list \<Rightarrow> 'd \<Rightarrow> nat \<Rightarrow> bool" where
  "took V es n data d b \<longleftrightarrow> b < n \<and> npos (V d) = bpos es (Suc b) \<and> \<not> nbad (V d) b \<and>
     (nclean (V d) b \<longrightarrow> ncell (V d) b = data)"

definition passed_over :: "nat \<Rightarrow> 'd MtdWriteContext \<Rightarrow> nat \<Rightarrow> 'd MtdWriteContext \<Rightarrow> nat \<Rightarrow> bool" where
  "passed_over es ctx b ctx' b' \<longleftrightarrow> b \<le> b' \<and> wpart ctx' = wpart ctx \<and> stored ctx' = stored ctx \<and>
     length (bad_block_offsets ctx') \<le> bad_block_alloc ctx' \<and>
     bad_block_offsets ctx' = bad_block_offsets ctx @ map (bpos es) [b..<b']"

definition wrote_at ::
  "('d \<Rightarrow> nand) \<Rightarrow> nat \<Rightarrow> nat \<Rightarrow> byte list \<Rightarrow> 'd MtdWriteContext \<Rightarrow> nat \<Rightarrow> int \<times> 'd MtdWriteContext \<Rightarrow> bool" where
  "wrote_at V es n data ctx b res \<longleftrightarrow> touches (usable (V (wfd ctx)) b) (V (wfd ctx)) (V (wfd (snd res))) \<and>
     (fst res = 0 \<longrightarrow> (\<exists>b'. passed_over es ctx b (snd res) b' \<and> took V es n data (wfd (snd res)) b' \<and>
        touches (usable (V (wfd ctx)) b \<inter> {..b'}) (V (wfd ctx)) (V (wfd (snd res)))))"

text \<open>Passing over one block and going on.\<close>

lemma wrote_at_step:
  assumes "touches {b} (V (wfd ctx)) (V d)" and "nbad (V (wfd ctx)) b \<longrightarrow> V d = V (wfd ctx)"
    and ctx1: "ctx1 = ctx\<lparr>wfd := d, bad_block_alloc := a, bad_block_offsets := bad_block_offsets ctx @ [bpos es b]\<rparr>"
    and "wrote_at V es n data ctx1 (Suc b) res"
  shows "wrote_at V es n data ctx b res"
proof -
  let ?v = "V (wfd ctx)"
  have b1: "touches (usable ?v b \<inter> {..b}) ?v (V d)" using assms(1,2) by (auto simp: touches_def usable_def)
  have u: "usable (V d) (Suc b) \<subseteq> usable ?v b" using touches_bad [OF assms(1)] by (auto simp: usable_def)
  have t: "touches (usable (V d) (Suc b)) (V d) (V (wfd (snd res)))"
    using assms(4) by (simp add: wrote_at_def ctx1)
  have "touches (usable ?v b) ?v (V (wfd (snd res)))"
    using touches_mono [OF touches_trans [OF b1 t]] u by blast
  moreover have "\<exists>b'. passed_over es ctx b (snd res) b' \<and> took V es n data (wfd (snd res)) b' \<and>
      touches (usable ?v b \<inter> {..b'}) ?v (V (wfd (snd res)))" if zero: "fst res = 0"
  proof -
    obtain b' where b': "passed_over es ctx1 (Suc b) (snd res) b'" "took V es n data (wfd (snd res)) b'"
        "touches (usable (V d) (Suc b) \<inter> {..b'}) (V d) (V (wfd (snd res)))"
      using assms(4) zero by (auto simp: wrote_at_def ctx1)
    have "passed_over es ctx b (snd res) b'"
      using b'(1) by (auto simp: passed_over_def ctx1 upt_conv_Cons)
    moreover have "touches (usable ?v b \<inter> {..b'}) ?v (V (wfd (snd res)))"
      using b'(1) u by (intro touches_mono [OF touches_trans [OF b1 b'(3)]]) (auto simp: passed_over_def)
    ultimately show ?thesis using b'(2) by blast
  qed
  ultimately show ?thesis by (simp add: wrote_at_def)
qed

lemma write_block_loop_spec:
  assumes D: "driver D V es n" and p: "geometry p es n" and len: "length data = es"
  shows "b \<le> n \<Longrightarrow> wpart ctx = p \<Longrightarrow> length (bad_block_offsets ctx) \<le> bad_block_alloc ctx \<Longrightarrow>
    \<exists>res. write_block_loop D ctx data (bpos es b) = Some res \<and> wrote_at V es n data ctx b res"
proof (induction "n - b" arbitrary: b ctx)
  case 0
  then have "write_block_loop D ctx data (bpos es b) = Some (- 1, ctx)"
    using geometryD(5) [OF p] by (subst write_block_loop.simps) (simp add: geometryD [OF p] bpos_le)
  then show ?case by (simp add: wrote_at_def)
next
  case (Suc m)
  then have b: "b < n" "m = n - Suc b" "Suc b \<le> n" by auto
  obtain r u d1 where d1: "bad_block D (wfd ctx) (bpos es b) = (r, u, d1)" "V d1 = V (wfd ctx)"
      "r = 0 \<longleftrightarrow> \<not> nbad (V (wfd ctx)) b" "\<not> (r = - 1 \<and> u)"
    using driver_query(2) [OF D b(1), of "wfd ctx"] by blast
  obtain ok d2 where d2: "write_retry D (erase_size p) (bpos es b) data 2 d1 = (ok, d2)" by (cases "write_retry D (erase_size p) (bpos es b) data 2 d1")
  obtain a where a: "\<And>d. add_bad_block_offset D (ctx\<lparr>wfd := d\<rparr>) (bpos es b) =
      Some (ctx\<lparr>wfd := d, bad_block_alloc := a, bad_block_offsets := bad_block_offsets ctx @ [bpos es b]\<rparr>)"
      "Suc (length (bad_block_offsets ctx)) \<le> a"
    using add_bad_ok [OF D Suc.prems(3), of "bpos es b"] by blast
  let ?on = "\<lambda>d. ctx\<lparr>wfd := d, bad_block_alloc := a, bad_block_offsets := bad_block_offsets ctx @ [bpos es b]\<rparr>"
  have on: "\<exists>res. write_block_loop D (?on d) data (bpos es (Suc b)) = Some res \<and> wrote_at V es n data ctx b res"
    if "touches {b} (V (wfd ctx)) (V d)" "nbad (V (wfd ctx)) b \<longrightarrow> V d = V (wfd ctx)" for d
    using Suc.hyps(1) [OF b(2,3), of "?on d"] Suc.prems(2) a(2) wrote_at_step [OF that refl] by auto
  have swap: "ctx\<lparr>bad_block_alloc := a, bad_block_offsets := os, wfd := d\<rparr> = ctx\<lparr>wfd := d, bad_block_alloc := a, bad_block_offsets := os\<rparr>"
    for os d by (cases ctx) simp
  have unfold: "write_block_loop D ctx data (bpos es b) =
      (if r \<noteq> 0 then write_block_loop D (?on d1) data (bpos es (Suc b))
       else if ok then Some (0, ctx\<lparr>wfd := d2\<rparr>)
       else write_block_loop D (?on (snd (erase D d2 (bpos es b) es))) data (bpos es (Suc b)))"
    using d1(4) b(1,3) geometryD(5) [OF p]
    by (subst write_block_loop.simps) (auto simp: Suc.prems(2) geometryD [OF p] bpos_le d1(1) d2 a(1) swap)
  show ?case
  proof (cases "r = 0")
    case False
    then show ?thesis using on [of d1] d1(2) unfold by simp
  next
    case True
    then have nb: "\<not> nbad (V d1) b" "\<not> nbad (V (wfd ctx)) b" using d1(2,3) by auto
    note w = write_retry_spec [OF D p b(1) len nb(1) d2, unfolded d1(2)]
    show ?thesis
    proof (cases ok)
      case ok: True
      have "passed_over es ctx b (ctx\<lparr>wfd := d2\<rparr>) b" using Suc.prems(3) by (simp add: passed_over_def)
      moreover have "took V es n data d2 b" using w ok b(1) nb(2) by (simp add: took_def touches_def)
      moreover have "touches (usable (V (wfd ctx)) b \<inter> {..b}) (V (wfd ctx)) (V d2)"
        "touches (usable (V (wfd ctx)) b) (V (wfd ctx)) (V d2)"
        using w nb(2) by (auto simp: usable_def intro: touches_mono)
      ultimately have "wrote_at V es n data ctx b (0, ctx\<lparr>wfd := d2\<rparr>)" by (auto simp: wrote_at_def)
      then show ?thesis using True ok unfold by simp
    next
      case False
      have "\<not> nbad (V d2) b" using w nb(2) touches_bad by metis
      then have "touches {b} (V d2) (V (snd (erase D d2 (bpos es b) es)))"
        using driver_change(1) [OF D b(1), of d2] by auto
      then have "touches {b} (V (wfd ctx)) (V (snd (erase D d2 (bpos es b) es)))"
        using touches_trans [of "{b}" "V (wfd ctx)" "V d2" "{b}"] w by simp
      then show ?thesis using on True False nb(2) unfold by simp
    qed
  qed
qed

text \<open>
  The state of a writer: the blocks before the offset that are not recorded as bad hold the pieces
  \<open>bs\<close> in order, as far as they read cleanly.
\<close>

definition holds :: "nat \<Rightarrow> nand \<Rightarrow> int list \<Rightarrow> nat \<Rightarrow> byte list list \<Rightarrow> bool" where
  "holds es v offs b bs \<longleftrightarrow>
     list_all2 (\<lambda>i d. \<not> nbad v i \<and> (nclean v i \<longrightarrow> ncell v i = d)) (filter (\<lambda>i. bpos es i \<notin> set offs) [0..<b]) bs"

definition write_inv ::
  "('d \<Rightarrow> nand) \<Rightarrow> MtdPartition \<Rightarrow> nat \<Rightarrow> nat \<Rightarrow> nand \<Rightarrow> 'd MtdWriteContext \<Rightarrow> nat \<Rightarrow> byte list list \<Rightarrow> bool" where
  "write_inv V p es n v0 ctx b bs \<longleftrightarrow> wpart ctx = p \<and> at_block V es n (wfd ctx) b \<and>
     length (bad_block_offsets ctx) \<le> bad_block_alloc ctx \<and> set (bad_block_offsets ctx) \<subseteq> bpos es ` {..<b} \<and>
     touches (usable v0 0) v0 (V (wfd ctx)) \<and>
     holds es (V (wfd ctx)) (bad_block_offsets ctx) b bs \<and> (\<forall>d \<in> set bs. length d = es)"

lemma holds_touches:
  assumes "0 < es" and "holds es v offs b bs" and "touches B v w" and "B \<subseteq> {b..}" and "set offs' \<inter> bpos es ` {..<b} = set offs \<inter> bpos es ` {..<b}"
  shows "holds es w offs' b bs"
proof -
  have f: "filter (\<lambda>i. bpos es i \<notin> set offs') [0..<b] = filter (\<lambda>i. bpos es i \<notin> set offs) [0..<b]"
  proof (rule filter_cong [OF refl])
    fix i assume "i \<in> set [0..<b]"
    then have "bpos es i \<in> bpos es ` {..<b}" by simp
    then show "(bpos es i \<notin> set offs') = (bpos es i \<notin> set offs)" using assms(5) by blast
  qed
  have same: "ncell w i = ncell v i \<and> nclean w i = nclean v i \<and> nbad w i = nbad v i" if "i < b" for i
    using assms(3,4) that by (auto simp: touches_def)
  show ?thesis
    using assms(2) unfolding holds_def f by (rule list.rel_mono_strong) (auto simp: same)
qed

lemma holds_snoc:
  assumes "0 < es" and "holds es v offs b bs" and "b \<le> b'" and "set offs \<subseteq> bpos es ` {..<b}" and "took V es n d dev b'"
    and "touches (B \<inter> {b..}) v (V dev)"
  shows "holds es (V dev) (offs @ map (bpos es) [b..<b']) (Suc b') (bs @ [d])"
proof -
  let ?offs = "offs @ map (bpos es) [b..<b']"
  have "set ?offs \<inter> bpos es ` {..<b} = set offs \<inter> bpos es ` {..<b}"
    using assms(1) by (auto simp: bpos_inj)
  then have old: "holds es (V dev) ?offs b bs"
    by (intro holds_touches [OF assms(1,2,6)]) auto
  have "bpos es b' \<notin> set ?offs" using assms(1,3,4) by (auto simp: bpos_inj)
  moreover have "filter (\<lambda>i. bpos es i \<notin> set ?offs) [b..<b'] = []" by auto
  moreover have "[0..<Suc b'] = [0..<b] @ [b..<b'] @ [b']"
    using assms(3) by (metis append.assoc le_add_diff_inverse upt_Suc_append upt_add_eq_append zero_le)
  ultimately have "filter (\<lambda>i. bpos es i \<notin> set ?offs) [0..<Suc b'] = filter (\<lambda>i. bpos es i \<notin> set ?offs) [0..<b] @ [b']"
    by simp
  moreover have "\<not> nbad (V dev) b' \<and> (nclean (V dev) b' \<longrightarrow> ncell (V dev) b' = d)"
    using assms(5) by (simp add: took_def)
  ultimately show ?thesis
    using old unfolding holds_def by (simp add: list_all2_appendI)
qed

text \<open>What is promised of a writing operation: it touches only blocks that are not marked bad, and at success the invariant holds again.\<close>

lemma write_block_spec:
  assumes D: "driver D V es n" and p: "geometry p es n" and len: "length d = es" and inv: "write_inv V p es n v0 ctx b bs"
  obtains r ctx' where "write_block D ctx d = Some (r, ctx')" and "touches (usable v0 0) v0 (V (wfd ctx'))"
    and "r = 0 \<longrightarrow> stored ctx' = stored ctx \<and> (\<exists>b'. write_inv V p es n v0 ctx' b' (bs @ [d]))"
proof -
  have part: "wpart ctx = p" "b \<le> n" "npos (V (wfd ctx)) = bpos es b" "length (bad_block_offsets ctx) \<le> bad_block_alloc ctx"
    "set (bad_block_offsets ctx) \<subseteq> bpos es ` {..<b}" "touches (usable v0 0) v0 (V (wfd ctx))"
    "holds es (V (wfd ctx)) (bad_block_offsets ctx) b bs" "\<forall>d \<in> set bs. length d = es"
    using inv by (auto simp: write_inv_def at_block_def)
  have start: "write_block D ctx d = write_block_loop D ctx d (bpos es b)"
    by (simp add: write_block_def driver_seek(1) [OF D] driver_query(3) [OF D] part(1,3))
  obtain r ctx' where w: "write_block_loop D ctx d (bpos es b) = Some (r, ctx')" "wrote_at V es n d ctx b (r, ctx')"
    using write_block_loop_spec [OF D p len part(2,1,4)] by auto
  have us: "usable (V (wfd ctx)) b \<subseteq> usable v0 0" using touches_bad [OF part(6)] by (auto simp: usable_def)
  have t: "touches (usable v0 0) v0 (V (wfd ctx'))"
    using w(2) us by (intro touches_mono [OF touches_trans [OF part(6)]]) (auto simp: wrote_at_def)
  have "stored ctx' = stored ctx \<and> (\<exists>b'. write_inv V p es n v0 ctx' b' (bs @ [d]))" if zero: "r = 0"
  proof -
    obtain b' where b': "passed_over es ctx b ctx' b'" "took V es n d (wfd ctx') b'"
        "touches (usable (V (wfd ctx)) b \<inter> {..b'}) (V (wfd ctx)) (V (wfd ctx'))"
      using w(2) zero by (auto simp: wrote_at_def)
    have B: "touches (UNIV \<inter> {b..}) (V (wfd ctx)) (V (wfd ctx'))"
      by (rule touches_mono [OF b'(3)]) (auto simp: usable_def)
    have "holds es (V (wfd ctx')) (bad_block_offsets ctx @ map (bpos es) [b..<b']) (Suc b') (bs @ [d])"
      using b'(1) by (intro holds_snoc [OF geometryD(5) [OF p] part(7) _ part(5) b'(2) B]) (simp add: passed_over_def)
    moreover have "bpos es ` {..<b} \<subseteq> bpos es ` {..<Suc b'}" using b'(1) by (auto simp: passed_over_def)
    ultimately have "write_inv V p es n v0 ctx' (Suc b') (bs @ [d])"
      using b'(1,2) part t len by (auto simp: write_inv_def passed_over_def took_def at_block_def)
    then show ?thesis using b'(1) by (auto simp: passed_over_def)
  qed
  then show thesis using that [of r ctx'] w(1) start t by simp
qed

text \<open>\<open>bytes\<close> are the data accepted so far together with the \<open>rest\<close> of the current call.\<close>

definition writing ::
  "('d \<Rightarrow> nand) \<Rightarrow> MtdPartition \<Rightarrow> nat \<Rightarrow> nat \<Rightarrow> nand \<Rightarrow> byte list \<Rightarrow> 'd MtdWriteContext \<Rightarrow> byte list \<Rightarrow> bool" where
  "writing V p es n v0 bytes ctx rest \<longleftrightarrow>
     (\<exists>b bs. write_inv V p es n v0 ctx b bs \<and> concat bs @ stored ctx @ rest = bytes) \<and> length (stored ctx) \<le> es"

lemma writingD: "writing V p es n v0 bytes ctx rest \<Longrightarrow> wpart ctx = p \<and> touches (usable v0 0) v0 (V (wfd ctx))"
  by (auto simp: writing_def write_inv_def)

lemma write_stored_spec:
  assumes D: "driver D V es n" and p: "geometry p es n" and len: "length block = es" and inv: "write_inv V p es n v0 ctx b bs"
  obtains ok ctx' where "write_stored D ctx block = Some (ok, ctx')" and "touches (usable v0 0) v0 (V (wfd ctx'))"
    and "ok \<longrightarrow> stored ctx' = [] \<and> (\<exists>b'. write_inv V p es n v0 ctx' b' (bs @ [block]))"
proof -
  obtain r ctx1 where w: "write_block D ctx block = Some (r, ctx1)" "touches (usable v0 0) v0 (V (wfd ctx1))"
      "r = 0 \<longrightarrow> stored ctx1 = stored ctx \<and> (\<exists>b'. write_inv V p es n v0 ctx1 b' (bs @ [block]))"
    by (rule write_block_spec [OF D p len inv]) (rule that)
  show thesis
  proof (cases "r = 0")
    case True
    then show ?thesis
      using w that [of True "ctx1\<lparr>stored := []\<rparr>"] by (auto simp: write_stored_def write_inv_def)
  next
    case False
    then show ?thesis using w that [of False ctx1] by (simp add: write_stored_def)
  qed
qed

lemma write_direct_spec:
  assumes D: "driver D V es n" and p: "geometry p es n"
  shows "writing V p es n v0 bytes ctx rest \<Longrightarrow> \<exists>ok ctx' rest'. write_direct D ctx rest = Some (ok, ctx', rest') \<and>
    touches (usable v0 0) v0 (V (wfd ctx')) \<and>
    (ok \<longrightarrow> writing V p es n v0 bytes ctx' rest' \<and> stored ctx' = stored ctx \<and> length rest' \<le> length rest \<and>
      (stored ctx = [] \<longrightarrow> length rest' < es))"
proof (induction "length rest" arbitrary: ctx rest rule: less_induct)
  case less
  note part = writingD [OF less.prems, THEN conjunct1]
  show ?case
  proof (cases "stored ctx = [] \<and> es \<le> length rest")
    case False
    then have "write_direct D ctx rest = Some (True, ctx, rest)"
      by (subst write_direct.simps) (auto simp: part geometryD(1) [OF p])
    moreover have "stored ctx = [] \<longrightarrow> length rest < es" using False by auto
    ultimately show ?thesis
      using less.prems writingD [OF less.prems] by (intro exI [of _ True] exI [of _ ctx] exI [of _ rest]) simp
  next
    case True
    obtain b bs where inv: "write_inv V p es n v0 ctx b bs" and bytes: "concat bs @ stored ctx @ rest = bytes"
      using less.prems by (auto simp: writing_def)
    have len: "length (take es rest) = es" using True by simp
    obtain r ctx1 where w: "write_block D ctx (take es rest) = Some (r, ctx1)" "touches (usable v0 0) v0 (V (wfd ctx1))"
        "r = 0 \<longrightarrow> stored ctx1 = stored ctx \<and> (\<exists>b'. write_inv V p es n v0 ctx1 b' (bs @ [take es rest]))"
      by (rule write_block_spec [OF D p len inv]) (rule that)
    have step: "write_direct D ctx rest = (if r \<noteq> 0 then Some (False, ctx1, rest)
        else write_direct D ctx1 (drop (unat (erase_size (wpart ctx1))) rest))"
      using True by (subst write_direct.simps) (simp add: part geometryD(1) [OF p] w(1))
    show ?thesis
    proof (cases "r = 0")
      case False
      then show ?thesis using step w(2) by (intro exI [of _ False] exI [of _ ctx1] exI [of _ rest]) simp
    next
      case zero: True
      then obtain b' where b': "write_inv V p es n v0 ctx1 b' (bs @ [take es rest])" "stored ctx1 = []"
        using w(3) True by auto
      have "concat (bs @ [take es rest]) @ stored ctx1 @ drop es rest = bytes" using b'(2) bytes True by simp
      then have w1: "writing V p es n v0 bytes ctx1 (drop es rest)"
        unfolding writing_def using b' by (metis list.size(3) zero_le)
      have shorter: "length (drop es rest) < length rest" using True geometryD(5) [OF p] by (cases rest) auto
      have eq: "write_direct D ctx rest = write_direct D ctx1 (drop es rest)"
        using step zero b'(1) by (simp add: write_inv_def geometryD(1) [OF p])
      obtain ok ctx' rest' where "write_direct D ctx1 (drop es rest) = Some (ok, ctx', rest')" "touches (usable v0 0) v0 (V (wfd ctx'))"
          "ok \<longrightarrow> writing V p es n v0 bytes ctx' rest' \<and> stored ctx' = stored ctx1 \<and> length rest' \<le> length (drop es rest) \<and>
             (stored ctx1 = [] \<longrightarrow> length rest' < es)"
        using less.hyps [OF shorter w1] by (elim exE conjE) (rule that)
      then show ?thesis using b'(2) True eq by (intro exI conjI) auto
    qed
  qed
qed

lemma write_buffered_spec:
  assumes p: "geometry p es n" and w: "writing V p es n v0 bytes ctx rest" and "length (stored ctx) < es" and "rest \<noteq> []"
    and eq: "write_buffered ctx rest = (ctx', rest')"
  shows "writing V p es n v0 bytes ctx' rest'"
    and "length rest' < length rest \<or> stored ctx' = [] \<and> rest' = rest \<and> es \<le> length rest"
proof -
  define c where "c = (if length rest < es - length (stored ctx) then length rest else es - length (stored ctx))"
  have part: "unat (erase_size (wpart ctx)) = es" using writingD [OF w] geometryD(1) [OF p] by simp
  have cases: "if stored ctx \<noteq> [] \<or> length rest < es then ctx' = ctx\<lparr>stored := stored ctx @ take c rest\<rparr> \<and> rest' = drop c rest
      else ctx' = ctx \<and> rest' = rest"
    using eq by (auto simp: write_buffered_def part Let_def c_def)
  have c: "0 < c" "c \<le> length rest" "c \<le> es - length (stored ctx)" using assms(3,4) by (auto simp: c_def)
  obtain b bs where inv: "write_inv V p es n v0 ctx b bs" and bytes: "concat bs @ stored ctx @ rest = bytes"
    using w by (auto simp: writing_def)
  show "writing V p es n v0 bytes ctx' rest'"
  proof (cases "stored ctx \<noteq> [] \<or> length rest < es")
    case True
    then have ctx': "ctx' = ctx\<lparr>stored := stored ctx @ take c rest\<rparr>" "rest' = drop c rest" using cases by auto
    have "write_inv V p es n v0 ctx' b bs" using inv by (simp add: write_inv_def ctx')
    moreover have "concat bs @ stored ctx' @ rest' = bytes" using bytes by (simp add: ctx')
    moreover have "length (stored ctx') \<le> es" using c assms(3) by (simp add: ctx')
    ultimately show ?thesis unfolding writing_def by blast
  next
    case False
    then show ?thesis using cases w by simp
  qed
  show "length rest' < length rest \<or> stored ctx' = [] \<and> rest' = rest \<and> es \<le> length rest"
    using cases c(1,2) assms(4) by (cases "stored ctx \<noteq> [] \<or> length rest < es") auto
qed

text \<open>Between the calls the buffer is not full.\<close>

definition accepted ::
  "('d \<Rightarrow> nand) \<Rightarrow> MtdPartition \<Rightarrow> nat \<Rightarrow> nat \<Rightarrow> nand \<Rightarrow> byte list \<Rightarrow> 'd MtdWriteContext \<Rightarrow> bool" where
  "accepted V p es n v0 bytes ctx \<longleftrightarrow> writing V p es n v0 bytes ctx [] \<and> length (stored ctx) < es"

lemma write_full_spec:
  assumes D: "driver D V es n" and p: "geometry p es n" and w: "writing V p es n v0 bytes ctx rest"
  obtains ok ctx' where "(if length (stored ctx) = unat (erase_size (wpart ctx))
       then write_stored D ctx (stored ctx) else Some (True, ctx)) = Some (ok, ctx')"
    and "touches (usable v0 0) v0 (V (wfd ctx'))"
    and "ok \<longrightarrow> writing V p es n v0 bytes ctx' rest \<and> length (stored ctx') < es \<and> (stored ctx = [] \<longrightarrow> stored ctx' = [])"
proof (cases "length (stored ctx) = es")
  case False
  then show ?thesis
    using that [of True ctx] w writingD [OF w] geometryD(1) [OF p] by (auto simp: writing_def)
next
  case True
  obtain b bs where inv: "write_inv V p es n v0 ctx b bs" and bytes: "concat bs @ stored ctx @ rest = bytes"
    using w by (auto simp: writing_def)
  obtain ok ctx' where s: "write_stored D ctx (stored ctx) = Some (ok, ctx')" "touches (usable v0 0) v0 (V (wfd ctx'))"
      "ok \<longrightarrow> stored ctx' = [] \<and> (\<exists>b'. write_inv V p es n v0 ctx' b' (bs @ [stored ctx]))"
    by (rule write_stored_spec [OF D p True inv]) (rule that)
  have "writing V p es n v0 bytes ctx' rest" if ok: "ok"
  proof -
    obtain b' where "write_inv V p es n v0 ctx' b' (bs @ [stored ctx])" "stored ctx' = []" using s(3) ok by blast
    moreover have "concat (bs @ [stored ctx]) @ [] @ rest = bytes" using bytes by simp
    ultimately show ?thesis unfolding writing_def by (metis list.size(3) zero_le)
  qed
  then show ?thesis
    using that [of ok ctx'] s True writingD [OF w] geometryD(1,5) [OF p] by simp
qed

lemma write_data_loop_spec:
  assumes D: "driver D V es n" and p: "geometry p es n"
  shows "writing V p es n v0 bytes ctx rest \<Longrightarrow> length (stored ctx) < es \<Longrightarrow>
    \<exists>ok ctx'. write_data_loop D ctx rest = Some (ok, ctx') \<and> touches (usable v0 0) v0 (V (wfd ctx')) \<and>
      (ok \<longrightarrow> accepted V p es n v0 bytes ctx')"
proof (induction "length rest" arbitrary: ctx rest rule: less_induct)
  case less
  show ?case
  proof (cases "rest = []")
    case True
    then have "write_data_loop D ctx rest = Some (True, ctx)" by (subst write_data_loop.simps) simp
    then show ?thesis
      using less.prems writingD [OF less.prems(1)] True by (intro exI [of _ True] exI [of _ ctx]) (simp add: accepted_def)
  next
    case False
    obtain ctx1 rest1 where b1: "write_buffered ctx rest = (ctx1, rest1)" by (cases "write_buffered ctx rest")
    note buf = write_buffered_spec [OF p less.prems(1,2) False b1]
    obtain ok2 ctx2 where f2: "(if length (stored ctx1) = unat (erase_size (wpart ctx1))
           then write_stored D ctx1 (stored ctx1) else Some (True, ctx1)) = Some (ok2, ctx2)"
        "touches (usable v0 0) v0 (V (wfd ctx2))"
        "ok2 \<longrightarrow> writing V p es n v0 bytes ctx2 rest1 \<and> length (stored ctx2) < es \<and> (stored ctx1 = [] \<longrightarrow> stored ctx2 = [])"
      by (rule write_full_spec [OF D p buf(1)]) (rule that)
    have step: "write_data_loop D ctx rest = (if \<not> ok2 then Some (False, ctx2)
        else Option.bind (write_direct D ctx2 rest1) (\<lambda>(ok, ctx, rest). if \<not> ok then Some (False, ctx) else write_data_loop D ctx rest))"
      using False b1 f2(1) by (subst write_data_loop.simps) simp
    show ?thesis
    proof (cases ok2)
      case False
      then show ?thesis using step f2(2) by (intro exI [of _ False] exI [of _ ctx2]) simp
    next
      case True
      then have w2: "writing V p es n v0 bytes ctx2 rest1" "length (stored ctx2) < es" "stored ctx1 = [] \<longrightarrow> stored ctx2 = []"
        using f2(3) by auto
      obtain ok3 ctx3 rest3 where d3: "write_direct D ctx2 rest1 = Some (ok3, ctx3, rest3)" "touches (usable v0 0) v0 (V (wfd ctx3))"
          "ok3 \<longrightarrow> writing V p es n v0 bytes ctx3 rest3 \<and> stored ctx3 = stored ctx2 \<and> length rest3 \<le> length rest1 \<and>
            (stored ctx2 = [] \<longrightarrow> length rest3 < es)"
        using write_direct_spec [OF D p w2(1)] by (elim exE conjE) (rule that)
      show ?thesis
      proof (cases ok3)
        case False
        then show ?thesis using step True d3(1,2) by (intro exI [of _ False] exI [of _ ctx3]) simp
      next
        case ok3: True
        then have "length rest3 < length rest" using buf(2) d3(3) w2(3) by auto
        moreover have "writing V p es n v0 bytes ctx3 rest3" "length (stored ctx3) < es" using d3(3) ok3 w2(2) by auto
        moreover have "write_data_loop D ctx rest = write_data_loop D ctx3 rest3" using step True ok3 d3(1) by simp
        ultimately show ?thesis using less.hyps by simp
      qed
    qed
  qed
qed

text \<open>Padding the last block.\<close>

lemma blocks_left:
  assumes "geometry p es n" and "b \<le> n"
  shows "sint ((part_size p - of_int (bpos es b)) div erase_size p) = int (n - b)"
proof -
  have "int (n * es) = int ((n - b) * es) + bpos es b"
    using assms(2) by (simp add: bpos_def algebra_simps of_nat_diff)
  then have "(of_int (int (n * es)) :: u32) = of_int (int ((n - b) * es) + bpos es b)" by (rule arg_cong)
  then have w: "part_size p - of_int (bpos es b) = of_nat ((n - b) * es)"
    using assms(1) by (simp add: geometry_def)
  have small: "(n - b) * es < 2 ^ 31" "es < 2 ^ 31" "n - b < 2 ^ 31"
  proof -
    have "(n - b) * es \<le> n * es" by simp
    moreover have "n * es + es < 2 ^ 31" "0 < es" using assms(1) by (auto simp: geometry_def)
    ultimately show "(n - b) * es < 2 ^ 31" "es < 2 ^ 31" by linarith+
    then show "n - b < 2 ^ 31" using \<open>0 < es\<close> by (metis le_trans leD leI mult.commute n_less_m_mult_n nat_mult_1_right less_or_eq_imp_le mult_le_mono2 One_nat_def Suc_leI)
  qed
  have "unat ((of_nat ((n - b) * es) :: u32) div of_nat es) = n - b"
    using small geometryD(5) [OF assms(1)] by (simp add: unat_div unat_of_nat_u32 del: of_nat_mult)
  then have "(of_nat ((n - b) * es) :: u32) div of_nat es = of_nat (n - b)"
    using small(3) by (simp add: word_unat_eq_iff unat_of_nat_u32 del: of_nat_mult)
  then show ?thesis
    using w small(3) assms(1) by (simp add: sint_of_nat geometry_def del: of_nat_mult)
qed

lemma mtd_erase_blocks_0:
  assumes D: "driver D V es n" and p: "geometry p es n" and acc: "accepted V p es n v0 bytes ctx"
  obtains r ctx' where "mtd_erase_blocks D ctx 0 = Some (r, ctx')" and "touches (usable v0 0) v0 (V (wfd ctx'))"
    and "r \<noteq> - 1 \<longrightarrow> (\<exists>b bs z. write_inv V p es n v0 ctx' b bs \<and> concat bs = bytes @ replicate z 0)"
proof -
  obtain b bs where inv: "write_inv V p es n v0 ctx b bs" and bytes: "concat bs @ stored ctx = bytes" and len: "length (stored ctx) < es"
    using acc by (auto simp: accepted_def writing_def)
  have part: "wpart ctx = p" using inv by (simp add: write_inv_def)
  note result = that
  have fin: "thesis" if ok: "(if stored ctx \<noteq> []
        then write_stored D ctx (stored ctx @ replicate (unat (erase_size (wpart ctx)) - length (stored ctx)) 0)
        else Some (True, ctx)) = Some (True, ctx1)" and inv1: "write_inv V p es n v0 ctx1 b1 bs1"
      and pad: "concat bs1 = bytes @ replicate z 0" for ctx1 b1 bs1 z
  proof -
    have "wpart ctx1 = p" "npos (V (wfd ctx1)) = bpos es b1" "b1 \<le> n" "touches (usable v0 0) v0 (V (wfd ctx1))"
      using inv1 by (auto simp: write_inv_def at_block_def)
    moreover from this have "mtd_erase_blocks D ctx 0 = Some (bpos es b1, ctx1)"
      using ok blocks_left [OF p] geometryD(1,5) [OF p] by (auto simp: mtd_erase_blocks_def driver_seek(1) [OF D] Let_def)
    ultimately show thesis by (intro result [of "bpos es b1" ctx1]) (use inv1 pad in auto)
  qed
  show thesis
  proof (cases "stored ctx = []")
    case True
    then show ?thesis using fin [of ctx b bs 0] inv bytes by simp
  next
    case False
    let ?blk = "stored ctx @ replicate (es - length (stored ctx)) 0"
    have "length ?blk = es" using len by simp
    then obtain ok ctx1 where s: "write_stored D ctx ?blk = Some (ok, ctx1)" "touches (usable v0 0) v0 (V (wfd ctx1))"
        "ok \<longrightarrow> stored ctx1 = [] \<and> (\<exists>b'. write_inv V p es n v0 ctx1 b' (bs @ [?blk]))"
      by (rule write_stored_spec [OF D p _ inv]) (rule that)
    show ?thesis
    proof (cases ok)
      case True
      then obtain b' where "write_inv V p es n v0 ctx1 b' (bs @ [?blk])" using s(3) by blast
      then show ?thesis
        using fin [of ctx1 b' "bs @ [?blk]" "es - length (stored ctx)"] False True s(1) part geometryD(1) [OF p] bytes by simp
    next
      case False
      then have "mtd_erase_blocks D ctx 0 = Some (- 1, ctx1)"
        using \<open>stored ctx \<noteq> []\<close> s(1) part geometryD(1) [OF p] by (simp add: mtd_erase_blocks_def)
      then show ?thesis using result s(2) by simp
    qed
  qed
qed

section \<open>Storing and fetching\<close>

text \<open>
  Clients write a partition in any number of pieces and close it, or read it in pieces.  \<open>store\<close> and
  \<open>fetch\<close> are such sequences of calls; \<open>None\<close> is any error.
\<close>

fun write_pieces :: "'d flash \<Rightarrow> 'd MtdWriteContext \<Rightarrow> byte list list \<Rightarrow> (bool \<times> 'd MtdWriteContext) option" where
  "write_pieces D ctx [] = Some (True, ctx)"
| "write_pieces D ctx (d # ds) = do {
     (r, ctx) \<leftarrow> mtd_write_data D ctx d;
     if r \<noteq> int (length d) then Some (False, ctx) else write_pieces D ctx ds}"

definition store :: "'d flash \<Rightarrow> MtdPartition \<Rightarrow> 'd \<Rightarrow> byte list list \<Rightarrow> 'd MtdWriteContext option" where
  "store D p d ds = do {
     ctx \<leftarrow> mtd_write_partition D p d;
     (ok, ctx) \<leftarrow> write_pieces D ctx ds;
     if \<not> ok then None
     else do {
       (r, ctx) \<leftarrow> mtd_write_close D ctx;
       if r \<noteq> 0 then None else Some ctx}}"

fun read_pieces :: "'d flash \<Rightarrow> 'd MtdReadContext \<Rightarrow> nat list \<Rightarrow> byte list list option" where
  "read_pieces D ctx [] = Some []"
| "read_pieces D ctx (k # ks) = do {
     (r, ctx) \<leftarrow> mtd_read_data D ctx k;
     data \<leftarrow> r;
     rest \<leftarrow> read_pieces D ctx ks;
     Some (data # rest)}"

definition fetch :: "'d flash \<Rightarrow> MtdPartition \<Rightarrow> 'd \<Rightarrow> nat list \<Rightarrow> byte list list option" where
  "fetch D p d ks = do { ctx \<leftarrow> mtd_read_partition D p d; read_pieces D ctx ks }"

lemma accepted_extend:
  assumes "accepted V p es n v0 bytes ctx"
  shows "writing V p es n v0 (bytes @ d) ctx d" "length (stored ctx) < es"
  using assms by (auto simp: accepted_def writing_def)

lemma write_pieces_spec:
  assumes D: "driver D V es n" and p: "geometry p es n"
  shows "accepted V p es n v0 bytes ctx \<Longrightarrow>
    \<exists>ok ctx'. write_pieces D ctx ds = Some (ok, ctx') \<and> touches (usable v0 0) v0 (V (wfd ctx')) \<and>
      (ok \<longrightarrow> accepted V p es n v0 (bytes @ concat ds) ctx')"
proof (induction ds arbitrary: ctx bytes)
  case Nil
  then have "touches (usable v0 0) v0 (V (wfd ctx))" by (auto simp: accepted_def dest: writingD)
  then show ?case using Nil by (intro exI [of _ True] exI [of _ ctx]) simp
next
  case (Cons d ds)
  obtain ok ctx1 where w: "write_data_loop D ctx d = Some (ok, ctx1)" "touches (usable v0 0) v0 (V (wfd ctx1))"
      "ok \<longrightarrow> accepted V p es n v0 (bytes @ d) ctx1"
    using write_data_loop_spec [OF D p accepted_extend(1) [OF Cons.prems, of d] accepted_extend(2) [OF Cons.prems]] by (elim exE conjE) (rule that)
  show ?case
  proof (cases ok)
    case True
    then show ?thesis
      using Cons.IH [of "bytes @ d" ctx1] w by (simp add: mtd_write_data_def)
  next
    case False
    then show ?thesis using w by (intro exI [of _ False] exI [of _ ctx1]) (simp add: mtd_write_data_def)
  qed
qed

lemma mtd_write_partition_accepted:
  assumes D: "driver D V es n" and p: "geometry p es n" and "mtd_write_partition D p d = Some ctx"
  shows "accepted V p es n (V d) [] ctx"
proof -
  obtain fd where fd: "fl_open D d (device_index p) = Some fd" "ctx = \<lparr>wpart = p, stored = [], wfd = fd, bad_block_offsets = [], bad_block_alloc = 0\<rparr>"
    using assms(3) by (auto simp: mtd_write_partition_def split: if_splits)
  have "write_inv V p es n (V d) ctx 0 []"
    using driver_seek(3) [OF D fd(1)] by (simp add: write_inv_def fd(2) at_block_def bpos_def holds_def)
  then have "\<exists>b bs. write_inv V p es n (V d) ctx b bs \<and> concat bs @ stored ctx @ [] = []"
    by (intro exI [of _ 0] exI [of _ "[]"]) (simp add: fd(2))
  then show ?thesis
    using geometryD(5) [OF p] by (simp add: accepted_def writing_def fd(2))
qed

text \<open>The final state of a stored partition.\<close>

lemma store_spec:
  assumes D: "driver D V es n" and p: "geometry p es n" and st: "store D p d ds = Some ctx"
  obtains b bs z where "write_inv V p es n (V d) ctx b bs" and "concat bs = concat ds @ replicate z 0"
proof -
  obtain c0 c1 r c2 where c: "mtd_write_partition D p d = Some c0" "write_pieces D c0 ds = Some (True, c1)"
      "mtd_erase_blocks D c1 0 = Some (r, c2)" "r \<noteq> - 1" "ctx = c2\<lparr>wfd := snd (fl_close D (wfd c2))\<rparr>"
    using st unfolding store_def mtd_write_close_def by (auto elim!: bind_eq_SomeE split: if_splits prod.splits)
  have "accepted V p es n (V d) (concat ds) c1"
    using write_pieces_spec [OF D p mtd_write_partition_accepted [OF D p c(1)], of ds] c(2) by auto
  then obtain b bs z where w: "write_inv V p es n (V d) c2 b bs" "concat bs = concat ds @ replicate z 0"
    using mtd_erase_blocks_0 [OF D p] c(3,4) by (metis option.inject prod.inject)
  have "write_inv V p es n (V d) ctx b bs"
    using w(1) driver_seek(4) [OF D, of "wfd c2"] by (simp add: write_inv_def c(5) at_block_def)
  then show thesis using that w(2) by blast
qed

lemma read_pieces_spec:
  assumes D: "driver D V es n" and p: "geometry p es n"
  shows "read_inv V p es n ctx b \<Longrightarrow> sum_list ks \<le> length (pending V n ctx b) \<Longrightarrow>
    \<exists>xs. read_pieces D ctx ks = Some xs \<and> concat xs = take (sum_list ks) (pending V n ctx b) \<and> map length xs = ks"
proof (induction ks arbitrary: ctx b)
  case (Cons k ks)
  let ?P = "pending V n ctx b"
  have "read_goes_on V p es n k ?P ctx []" using Cons.prems(1) by (auto simp: read_goes_on_def)
  from read_data_loop_spec [OF D p this] obtain r ctx1 where r: "read_data_loop D k ctx [] = Some (r, ctx1)" "read_right V p es n k ?P (r, ctx1)"
    by auto
  then obtain b1 where b1: "r = Some (take k ?P)" "read_inv V p es n ctx1 b1" "pending V n ctx1 b1 = drop k ?P"
    using Cons.prems(2) by (auto simp: read_right_def)
  have "sum_list ks \<le> length (pending V n ctx1 b1)" using Cons.prems(2) b1(3) by simp
  from Cons.IH [OF b1(2) this] obtain xs where xs: "read_pieces D ctx1 ks = Some xs"
      "concat xs = take (sum_list ks) (drop k ?P)" "map length xs = ks"
    unfolding b1(3) by blast
  have "read_pieces D ctx (k # ks) = Some (take k ?P # xs)" using r(1) b1(1) xs(1) by (simp add: mtd_read_data_def)
  moreover have "concat (take k ?P # xs) = take (sum_list (k # ks)) ?P" using xs(2) by (simp add: take_add)
  moreover have "map length (take k ?P # xs) = k # ks" using xs(3) Cons.prems(2) by simp
  ultimately show ?case by (intro exI [of _ "take k ?P # xs"] conjI)
qed simp

text \<open>The blocks that the writer did not record as bad are the blocks that the reader delivers.\<close>

definition recorded :: "nat \<Rightarrow> nand \<Rightarrow> int list \<Rightarrow> bool" where
  "recorded es v offs \<longleftrightarrow> (\<forall>i. bpos es i < npos v \<longrightarrow> (bpos es i \<in> set offs \<longleftrightarrow> \<not> good v i))"

lemma stored_cells:
  assumes p: "geometry p es n" and inv: "write_inv V p es n v0 ctx b bs" and rec: "recorded es (V (wfd ctx)) (bad_block_offsets ctx)"
  shows "cells_from (V (wfd ctx)) n 0 = concat bs @ cells_from (V (wfd ctx)) n b"
proof -
  let ?v = "V (wfd ctx)"
  have b: "b \<le> n" "npos ?v = bpos es b"
    and h: "list_all2 (\<lambda>i d. \<not> nbad ?v i \<and> (nclean ?v i \<longrightarrow> ncell ?v i = d)) (filter (\<lambda>i. bpos es i \<notin> set (bad_block_offsets ctx)) [0..<b]) bs"
    using inv by (auto simp: write_inv_def at_block_def holds_def)
  have f: "filter (\<lambda>i. bpos es i \<notin> set (bad_block_offsets ctx)) [0..<b] = filter (good ?v) [0..<b]"
  proof (rule filter_cong [OF refl])
    fix i assume "i \<in> set [0..<b]"
    then have "bpos es i < npos ?v" using geometryD(5) [OF p] b(2) by (simp add: bpos_def)
    then show "(bpos es i \<notin> set (bad_block_offsets ctx)) = good ?v i" using rec by (simp add: recorded_def)
  qed
  have "list_all2 (\<lambda>i d. ncell ?v i = d) (filter (good ?v) [0..<b]) bs"
    using h unfolding f by (rule list.rel_mono_strong) (auto simp: good_def)
  then have "map (ncell ?v) (filter (good ?v) [0..<b]) = bs"
    by (simp add: list_all2_conv_all_nth list_eq_iff_nth_eq)
  moreover have "[0..<n] = [0..<b] @ [b..<n]" using b(1) by (metis le_add_diff_inverse upt_add_eq_append zero_le)
  ultimately show ?thesis by (simp add: cells_from_def good_from_def)
qed

lemma read_partition_pending:
  assumes D: "driver D V es n" and p: "geometry p es n" and fd: "fl_open D d (device_index p) = Some fd"
  obtains r where "mtd_read_partition D p d = Some r" and "read_inv V p es n r 0" and "pending V n r 0 = cells_from (V d) n 0"
proof
  let ?r = "\<lparr>rpart = p, rbuffer = [], consumed = es, rfd = fd\<rparr>"
  show "mtd_read_partition D p d = Some ?r"
    by (simp add: mtd_read_partition_def driver_query(3) [OF D] fd geometryD(1) [OF p])
  have same: "same_blocks (V d) (V fd)" using driver_seek(3) [OF D fd] by (simp add: same_blocks_def)
  show "read_inv V p es n ?r 0"
    using driver_seek(3) [OF D fd] by (simp add: read_inv_def at_block_def bpos_def)
  show "pending V n ?r 0 = cells_from (V d) n 0"
    using good_from_same [OF same] same by (simp add: pending_def cells_from_def same_blocks_def)
qed

lemma fetch_cells:
  assumes D: "driver D V es n" and p: "geometry p es n" and "fl_open D d (device_index p) \<noteq> None"
    and "sum_list ks \<le> length (cells_from (V d) n 0)"
  shows "\<exists>xs. fetch D p d ks = Some xs \<and> concat xs = take (sum_list ks) (cells_from (V d) n 0) \<and> map length xs = ks"
proof -
  obtain fd where fd: "fl_open D d (device_index p) = Some fd" using assms(3) by auto
  obtain r where r: "mtd_read_partition D p d = Some r" "read_inv V p es n r 0" "pending V n r 0 = cells_from (V d) n 0"
    by (rule read_partition_pending [OF D p fd])
  from read_pieces_spec [OF D p r(2)] show ?thesis using assms(4) by (simp add: fetch_def r)
qed

lemma stored_contents:
  assumes D: "driver D V es n" and p: "geometry p es n" and st: "store D p d ds = Some ctx"
    and rec: "recorded es (V (wfd ctx)) (bad_block_offsets ctx)"
  shows "length (concat ds) \<le> length (cells_from (V (wfd ctx)) n 0)"
    "take (length (concat ds)) (cells_from (V (wfd ctx)) n 0) = concat ds"
proof -
  obtain b bs z where w: "write_inv V p es n (V d) ctx b bs" "concat bs = concat ds @ replicate z 0"
    by (rule store_spec [OF D p st])
  have cells: "cells_from (V (wfd ctx)) n 0 = concat ds @ replicate z 0 @ cells_from (V (wfd ctx)) n b"
    using stored_cells [OF p w(1) rec] w(2) by simp
  show "length (concat ds) \<le> length (cells_from (V (wfd ctx)) n 0)"
    "take (length (concat ds)) (cells_from (V (wfd ctx)) n 0) = concat ds"
    by (simp_all add: cells)
qed

lemma store_fetch:
  assumes D: "driver D V es n" and p: "geometry p es n" and st: "store D p d ds = Some ctx"
    and rec: "recorded es (V (wfd ctx)) (bad_block_offsets ctx)" and op: "fl_open D (wfd ctx) (device_index p) \<noteq> None"
    and le: "sum_list ks \<le> length (concat ds)"
  shows "\<exists>xs. fetch D p (wfd ctx) ks = Some xs \<and> concat xs = take (sum_list ks) (concat ds) \<and> map length xs = ks"
proof -
  note cells = stored_contents [OF D p st rec]
  have "take (sum_list ks) (concat ds) = take (sum_list ks) (cells_from (V (wfd ctx)) n 0)"
    using cells(2) le by (metis min.absorb1 take_take)
  then show ?thesis using fetch_cells [OF D p op, of ks] cells(1) le by simp
qed

end
