(* ===== verification/MtdStore.thy ===== *)
theory MtdStore
  imports MtdWrite
begin

text \<open>
  The properties of flash partitions that span reading and writing, and a simulated device on which
  the assumptions about the driver hold.
\<close>

section \<open>A simulated device\<close>

text \<open>Blocks of \<open>es\<close> bytes; erasing and writing a \<open>stuck\<close> block fails.\<close>

definition fit :: "nat \<Rightarrow> byte list \<Rightarrow> byte list" where
  "fit es x = take es (x @ replicate es 0)"

definition view :: "nat \<Rightarrow> nand \<Rightarrow> nand" where
  "view es v = v\<lparr>ncell := \<lambda>b. fit es (ncell v b)\<rparr>"

definition sim :: "nat \<Rightarrow> (nat \<Rightarrow> bool) \<Rightarrow> nand flash" where
  "sim es stuck = \<lparr>
     fl_open = \<lambda>v i. Some (v\<lparr>npos := 0\<rparr>),
     fl_close = \<lambda>v. (0, v),
     seek_cur = npos,
     seek_set = \<lambda>v q. (q, v\<lparr>npos := q\<rparr>),
     fl_read = \<lambda>v k. (int k, fit es (ncell v (nat (npos v) div es)),
       v\<lparr>npos := npos v + int k, nfail := nfail v + (if nclean v (nat (npos v) div es) then 0 else 1)\<rparr>),
     fl_write = \<lambda>v data. (if stuck (nat (npos v) div es) then (- 1, v)
       else (int (length data), v\<lparr>npos := npos v + int (length data), ncell := (ncell v)(nat (npos v) div es := data)\<rparr>)),
     erase = \<lambda>v q k. (if stuck (nat q div es) then (- 1, v)
       else (0, v\<lparr>ncell := (ncell v)(nat q div es := replicate es 255), nclean := (nclean v)(nat q div es := True)\<rparr>)),
     bad_block = \<lambda>v q. (if nbad v (nat q div es) then 1 else 0, False, v),
     ecc_failed = \<lambda>v. (Some (nfail v), v),
     get_info = \<lambda>v. Some (es, es, es),
     alloc = \<lambda>_. True\<rparr>"

lemma sim_driver:
  assumes "0 < es"
  shows "driver (sim es stuck) (view es) es n"
proof -
  have b: "nat (bpos es b) div es = b" for b using assms by (simp add: bpos_def flip: of_nat_mult)
  have "positions (sim es stuck) (view es) es n" by (auto simp: positions_def sim_def view_def)
  moreover have "queries (sim es stuck) (view es) es n" by (auto simp: queries_def sim_def view_def b)
  moreover have "reads (sim es stuck) (view es) es n"
    unfolding reads_def
  proof (intro conjI allI impI)
    fix v c assume "c < n \<and> npos (view es v) = bpos es c"
    then have "fl_read (sim es stuck) v es = (int es, fit es (ncell v c),
        v\<lparr>npos := bpos es (Suc c), nfail := nfail v + (if nclean v c then 0 else 1)\<rparr>)"
      by (simp add: sim_def view_def b bpos_Suc)
    then show "\<exists>k data d' p f. fl_read (sim es stuck) v es = (k, data, d') \<and> view es d' = (view es v)\<lparr>npos := p, nfail := f\<rparr> \<and>
        (k = int es \<longrightarrow> p = bpos es (Suc c)) \<and> (k \<noteq> int es \<longrightarrow> f = nfail (view es v)) \<and>
        (if nclean (view es v) c then k = int es \<and> f = nfail (view es v) \<and> data = ncell (view es v) c
         else k \<noteq> int es \<or> f \<noteq> nfail (view es v))"
      by (intro exI [of _ "int es"] exI [of _ "fit es (ncell v c)"] exI [of _ "bpos es (Suc c)"]
            exI [of _ "nfail v + (if nclean v c then 0 else 1)"] exI conjI, assumption) (simp_all add: view_def)
  qed (simp add: view_def fit_def)
  moreover have "changes (sim es stuck) (view es) es n"
    by (auto simp: changes_def sim_def view_def b touches_def)
  ultimately show ?thesis by (simp add: driver_def) (simp add: sim_def)
qed

text \<open>A block that takes the data, and one that does not.\<close>

definition sim_put :: "nat \<Rightarrow> nat \<Rightarrow> byte list \<Rightarrow> nand \<Rightarrow> nand" where
  "sim_put es b data v = v\<lparr>npos := bpos es (Suc b), ncell := (ncell v)(b := data), nclean := (nclean v)(b := True)\<rparr>"

lemma nat_bpos: "0 < es \<Longrightarrow> nat (bpos es b) div es = b"
  by (simp add: bpos_def flip: of_nat_mult)

lemma sim_calls:
  assumes "0 < es"
  shows "bad_block (sim es stuck) v (bpos es b) = (if nbad v b then 1 else 0, False, v)"
    and "stuck b \<Longrightarrow> erase (sim es stuck) v (bpos es b) k = (- 1, v)"
  using assms by (simp_all add: sim_def nat_bpos)

lemma sim_write_loop:
  assumes p: "geometry (wpart ctx) es n" and "b < n" and "\<not> nbad (wfd ctx) b" and "\<not> stuck b" and "length data = es"
  shows "write_block_loop (sim es stuck) ctx data (bpos es b) = Some (0, ctx\<lparr>wfd := sim_put es b data (wfd ctx)\<rparr>)"
proof -
  have es: "0 < es" using geometryD(5) [OF p] .
  have "write_retry (sim es stuck) (erase_size (wpart ctx)) (bpos es b) data 2 (wfd ctx) = (True, sim_put es b data (wfd ctx))"
    using assms(3-5) es unfolding numeral_2_eq_2
    by (cases "wfd ctx") (simp add: sim_def geometryD [OF p] nat_bpos fit_def sim_put_def bpos_Suc)
  then show ?thesis
    using assms(2,3) es by (subst write_block_loop.simps) (simp add: geometryD [OF p] bpos_le Suc_le_eq sim_calls)
qed

lemma sim_skip_loop:
  assumes p: "geometry (wpart ctx) es n" and "b < n" and "nbad (wfd ctx) b \<or> stuck b"
    and "length (bad_block_offsets ctx) \<le> bad_block_alloc ctx"
  obtains a where "write_block_loop (sim es stuck) ctx data (bpos es b) = write_block_loop (sim es stuck)
      (ctx\<lparr>bad_block_alloc := a, bad_block_offsets := bad_block_offsets ctx @ [bpos es b]\<rparr>) data (bpos es (Suc b))"
    and "Suc (length (bad_block_offsets ctx)) \<le> a"
proof -
  have es: "0 < es" using geometryD(5) [OF p] .
  obtain a where a: "\<And>d. add_bad_block_offset (sim es stuck) (ctx\<lparr>wfd := d\<rparr>) (bpos es b) =
      Some (ctx\<lparr>wfd := d, bad_block_alloc := a, bad_block_offsets := bad_block_offsets ctx @ [bpos es b]\<rparr>)"
      "Suc (length (bad_block_offsets ctx)) \<le> a"
    using add_bad_ok [OF sim_driver [OF es] assms(4)] by blast
  have swap: "ctx\<lparr>wfd := wfd ctx, bad_block_alloc := a, bad_block_offsets := os\<rparr> = ctx\<lparr>bad_block_alloc := a, bad_block_offsets := os\<rparr>"
    for os by (cases ctx) simp
  have retry: "write_retry (sim es stuck) (erase_size (wpart ctx)) (bpos es b) data 2 (wfd ctx) = (False, wfd ctx)" if "stuck b"
    using that es unfolding numeral_2_eq_2 by (simp add: sim_calls)
  have "write_block_loop (sim es stuck) ctx data (bpos es b) = write_block_loop (sim es stuck)
      (ctx\<lparr>bad_block_alloc := a, bad_block_offsets := bad_block_offsets ctx @ [bpos es b]\<rparr>) data (bpos es (Suc b))"
  proof (cases "nbad (wfd ctx) b")
    case True
    then show ?thesis
      using assms(2) es a(1) [of "wfd ctx"]
      by (subst write_block_loop.simps) (simp add: geometryD [OF p] bpos_le Suc_le_eq sim_calls swap)
  next
    case False
    then have st: "stuck b" using assms(3) by simp
    then show ?thesis
      using False assms(2) es a(1) [of "wfd ctx"] retry [OF st]
      by (subst write_block_loop.simps) (simp add: geometryD [OF p] bpos_le Suc_le_eq sim_calls swap)
  qed
  then show thesis using that a(2) by blast
qed

lemma sim_write_block:
  "geometry (wpart ctx) es n \<Longrightarrow> npos (wfd ctx) = bpos es b \<Longrightarrow> write_block (sim es stuck) ctx data = write_block_loop (sim es stuck) ctx data (bpos es b)"
  by (simp add: write_block_def sim_def)

text \<open>Storing two blocks of data when block 1 is passed over.\<close>

lemma sim_store:
  assumes p: "geometry p es n" and n: "3 \<le> n" and blocks: "\<not> nbad v 0" "\<not> stuck 0" "nbad v 1 \<or> stuck 1" "\<not> nbad v 2" "\<not> stuck 2"
    and len: "length d1 = es" "length d2 = es"
  obtains ctx where "store (sim es stuck) p v [d1 @ d2] = Some ctx" and "bad_block_offsets ctx = [bpos es 1]"
    and "wfd ctx = sim_put es 2 d2 (sim_put es 0 d1 (v\<lparr>npos := 0\<rparr>))"
proof -
  define c0 where "c0 = \<lparr>wpart = p, stored = [], wfd = v\<lparr>npos := 0\<rparr>, bad_block_offsets = [], bad_block_alloc = 0\<rparr>"
  have es: "0 < es" "unat (erase_size p) = es" using geometryD(1,5) [OF p] by auto
  have open0: "mtd_write_partition (sim es stuck) p v = Some c0"
    by (simp add: mtd_write_partition_def sim_def c0_def)
  define c1 where "c1 = c0\<lparr>wfd := sim_put es 0 d1 (wfd c0)\<rparr>"
  have w1: "write_block (sim es stuck) c0 d1 = Some (0, c1)"
    using sim_write_block [of c0 es n 0 stuck d1] sim_write_loop [of c0 es n 0 stuck d1] p n blocks len
    by (simp add: c0_def c1_def bpos_def)
  have g1: "geometry (wpart c1) es n" "length (bad_block_offsets c1) \<le> bad_block_alloc c1" "nbad (wfd c1) = nbad v" "npos (wfd c1) = bpos es 1"
    using p by (simp_all add: c1_def c0_def sim_put_def)
  obtain a where a: "write_block_loop (sim es stuck) c1 d2 (bpos es 1) = write_block_loop (sim es stuck)
      (c1\<lparr>bad_block_alloc := a, bad_block_offsets := bad_block_offsets c1 @ [bpos es 1]\<rparr>) d2 (bpos es (Suc 1))"
    using sim_skip_loop [of c1 es n 1 stuck d2] g1 n blocks(3) by auto
  define c2 where "c2 = c1\<lparr>bad_block_alloc := a, bad_block_offsets := bad_block_offsets c1 @ [bpos es 1], wfd := sim_put es 2 d2 (wfd c1)\<rparr>"
  have sel: "stored c0 = []" "stored c1 = []" "stored c2 = []" "wpart c0 = p" "wpart c1 = p" "wpart c2 = p"
    by (simp_all add: c0_def c1_def c2_def)
  have "write_block (sim es stuck) c1 d2 = Some (0, c2)"
    using sim_write_block [OF g1(1,4)] a sim_write_loop [of "c1\<lparr>bad_block_alloc := a, bad_block_offsets := bad_block_offsets c1 @ [bpos es 1]\<rparr>" es n 2 stuck d2]
      g1 n blocks(4,5) len(2) by (simp add: c2_def numeral_2_eq_2)
  then have direct: "write_direct (sim es stuck) c0 (d1 @ d2) = Some (True, c2, [])"
    using w1 len es sel by (simp add: write_direct.simps [of _ c0] write_direct.simps [of _ c1] write_direct.simps [of _ c2])
  have pos2: "seek_cur (sim es stuck) (wfd c2) = bpos es 3" "erase_size p \<noteq> 0"
    using es by (auto simp: sim_def c2_def sim_put_def)
  have "d1 \<noteq> []" using len(1) es(1) by auto
  then have "write_data_loop (sim es stuck) c0 (d1 @ d2) = Some (True, c2)"
    using direct es len sel by (simp add: write_data_loop.simps [of _ c0] write_data_loop.simps [of _ c2] write_buffered_def)
  moreover have "mtd_erase_blocks (sim es stuck) c2 0 = Some (bpos es 3, c2)"
    using blocks_left [OF p n] sel pos2 by (simp add: mtd_erase_blocks_def Let_def)
  ultimately have "store (sim es stuck) p v [d1 @ d2] = Some (c2\<lparr>wfd := wfd c2\<rparr>)"
    by (simp add: store_def open0 mtd_write_data_def mtd_write_close_def) (simp add: sim_def)
  moreover have "bad_block_offsets c2 = [bpos es 1]" "wfd c2 = sim_put es 2 d2 (sim_put es 0 d1 (v\<lparr>npos := 0\<rparr>))"
    by (simp_all add: c2_def c1_def c0_def)
  ultimately show thesis using that by auto
qed

text \<open>A device without faults delivers its blocks, and takes any number of blocks.\<close>

lemma sim_read_block:
  assumes p: "geometry p es n" and "b < n" and "npos v = bpos es b" and "nbad v = (\<lambda>_. False)" and "nclean v = (\<lambda>_. True)"
  shows "read_block (sim es stuck) p v = Some (Some (fit es (ncell v b)), v\<lparr>npos := bpos es (Suc b)\<rparr>)"
proof -
  have es: "0 < es" using geometryD(5) [OF p] .
  have "bpos es (Suc b) \<le> bpos es n" using assms(2) es by (simp add: bpos_le)
  then show ?thesis
    using assms(3-5) es
    by (cases v) (simp add: read_block_def, subst read_block_loop.simps, simp add: sim_def geometryD [OF p] nat_bpos bpos_Suc)
qed

lemma sim_read_direct:
  assumes p: "geometry p es n"
  shows "rpart c = p \<Longrightarrow> consumed c = es \<Longrightarrow> npos (rfd c) = bpos es b \<Longrightarrow> b + k \<le> n \<Longrightarrow> nbad (rfd c) = (\<lambda>_. False) \<Longrightarrow>
    nclean (rfd c) = (\<lambda>_. True) \<Longrightarrow> m = length acc + k * es \<Longrightarrow>
    read_direct (sim es stuck) m c acc = Some (True, c\<lparr>rfd := (rfd c)\<lparr>npos := bpos es (b + k)\<rparr>\<rparr>,
      acc @ concat (map (\<lambda>i. fit es (ncell (rfd c) i)) [b..<b + k]))"
proof (induction k arbitrary: c b acc)
  case 0
  then show ?case using geometryD(1,5) [OF p] by (subst read_direct.simps) (cases c; cases "rfd c"; simp)
next
  case (Suc k)
  let ?c = "c\<lparr>rfd := (rfd c)\<lparr>npos := bpos es (Suc b)\<rparr>\<rparr>" and ?x = "fit es (ncell (rfd c) b)"
  have "read_block (sim es stuck) p (rfd c) = Some (Some ?x, (rfd c)\<lparr>npos := bpos es (Suc b)\<rparr>)"
    by (rule sim_read_block [OF p]) (use Suc.prems in auto)
  then have "read_direct (sim es stuck) m c acc = read_direct (sim es stuck) m ?c (acc @ ?x)"
    using Suc.prems geometryD(1) [OF p] by (subst read_direct.simps) simp
  also have "\<dots> = Some (True, ?c\<lparr>rfd := (rfd ?c)\<lparr>npos := bpos es (Suc b + k)\<rparr>\<rparr>,
      (acc @ ?x) @ concat (map (\<lambda>i. fit es (ncell (rfd ?c) i)) [Suc b..<Suc b + k]))"
    by (rule Suc.IH) (use Suc.prems in \<open>auto simp: fit_def\<close>)
  finally show ?case by (simp add: upt_conv_Cons del: upt_Suc)
qed

lemma sim_fetch_blocks:
  assumes p: "geometry p es n" and "k \<le> n" and "0 < k" and "nbad v = (\<lambda>_. False)" and "nclean v = (\<lambda>_. True)"
  obtains r r' where "mtd_read_partition (sim es stuck) p v = Some r"
    and "mtd_read_data (sim es stuck) r (k * es) = Some (Some (concat (map (\<lambda>i. fit es (ncell v i)) [0..<k])), r')"
    and "rfd r' = v\<lparr>npos := bpos es k\<rparr>"
proof -
  define r where "r = \<lparr>rpart = p, rbuffer = [], consumed = es, rfd = v\<lparr>npos := 0\<rparr>\<rparr>"
  have es: "0 < es" "unat (erase_size p) = es" using geometryD(1,5) [OF p] by auto
  have "mtd_read_partition (sim es stuck) p v = Some r" using es by (simp add: mtd_read_partition_def sim_def r_def)
  moreover have "read_direct (sim es stuck) (k * es) r [] = Some (True, r\<lparr>rfd := (rfd r)\<lparr>npos := bpos es (0 + k)\<rparr>\<rparr>,
      [] @ concat (map (\<lambda>i. fit es (ncell (rfd r) i)) [0..<0 + k]))"
    by (rule sim_read_direct [OF p]) (use assms in \<open>auto simp: r_def bpos_def\<close>)
  moreover have "length (concat (map (\<lambda>i. fit es (ncell v i)) [0..<j])) = j * es" for j
    by (induction j) (auto simp: fit_def)
  moreover have "rpart r = p" "consumed r = es" "rfd r = v\<lparr>npos := 0\<rparr>" by (simp_all add: r_def)
  ultimately have "mtd_read_data (sim es stuck) r (k * es) =
      Some (Some (concat (map (\<lambda>i. fit es (ncell v i)) [0..<k])), r\<lparr>rfd := v\<lparr>npos := bpos es k\<rparr>\<rparr>)"
    using assms(3) es by (simp add: mtd_read_data_def read_data_loop.simps [of _ _ r] read_buffered_def)
  then show thesis using that \<open>mtd_read_partition (sim es stuck) p v = Some r\<close> by simp
qed

lemma sim_write_direct:
  assumes p: "geometry p es n"
  shows "wpart c = p \<Longrightarrow> stored c = [] \<Longrightarrow> npos (wfd c) = bpos es b \<Longrightarrow> b + length bs \<le> n \<Longrightarrow> nbad (wfd c) = (\<lambda>_. False) \<Longrightarrow>
    nclean (wfd c) = (\<lambda>_. True) \<Longrightarrow> \<forall>x \<in> set bs. length x = es \<Longrightarrow>
    \<exists>v. write_direct (sim es (\<lambda>_. False)) c (concat bs) = Some (True, c\<lparr>wfd := v\<rparr>, []) \<and> npos v = bpos es (b + length bs) \<and>
      nbad v = (\<lambda>_. False) \<and> nclean v = (\<lambda>_. True)"
proof (induction bs arbitrary: c b)
  case Nil
  have "write_direct (sim es (\<lambda>_. False)) c [] = Some (True, c\<lparr>wfd := wfd c\<rparr>, [])"
    using Nil geometryD(1,5) [OF p] by (simp add: write_direct.simps [of _ c])
  then show ?case using Nil by (intro exI [of _ "wfd c"]) simp
next
  case (Cons x xs)
  define c1 where "c1 = c\<lparr>wfd := sim_put es b x (wfd c)\<rparr>"
  have "write_block (sim es (\<lambda>_. False)) c x = Some (0, c1)"
    using sim_write_block [of c es n b "\<lambda>_. False" x] sim_write_loop [of c es n b "\<lambda>_. False" x] p Cons.prems by (simp add: c1_def)
  moreover have "wpart c1 = p" using Cons.prems(1) by (simp add: c1_def)
  ultimately have "write_direct (sim es (\<lambda>_. False)) c (concat (x # xs)) = write_direct (sim es (\<lambda>_. False)) c1 (concat xs)"
    using Cons.prems geometryD(1,5) [OF p] by (simp add: write_direct.simps [of _ c])
  moreover have "\<exists>v. write_direct (sim es (\<lambda>_. False)) c1 (concat xs) = Some (True, c1\<lparr>wfd := v\<rparr>, []) \<and> npos v = bpos es (Suc b + length xs) \<and>
      nbad v = (\<lambda>_. False) \<and> nclean v = (\<lambda>_. True)"
    by (rule Cons.IH) (use Cons.prems in \<open>auto simp: c1_def sim_put_def\<close>)
  ultimately show ?case by (simp add: c1_def)
qed

lemma sim_store_blocks:
  assumes p: "geometry p es n" and "length bs \<le> n" and "nbad v = (\<lambda>_. False)" and "nclean v = (\<lambda>_. True)"
    and len: "\<forall>x \<in> set bs. length x = es" and "bs \<noteq> []"
  obtains ctx where "store (sim es (\<lambda>_. False)) p v [concat bs] = Some ctx" and "bad_block_offsets ctx = []"
    and "nbad (wfd ctx) = (\<lambda>_. False)" and "nclean (wfd ctx) = (\<lambda>_. True)"
proof -
  define c0 where "c0 = \<lparr>wpart = p, stored = [], wfd = v\<lparr>npos := 0\<rparr>, bad_block_offsets = [], bad_block_alloc = 0\<rparr>"
  have es: "0 < es" "unat (erase_size p) = es" using geometryD(1,5) [OF p] by auto
  have open0: "mtd_write_partition (sim es (\<lambda>_. False)) p v = Some c0"
    by (simp add: mtd_write_partition_def sim_def c0_def)
  have "\<exists>u. write_direct (sim es (\<lambda>_. False)) c0 (concat bs) = Some (True, c0\<lparr>wfd := u\<rparr>, []) \<and> npos u = bpos es (0 + length bs) \<and>
      nbad u = (\<lambda>_. False) \<and> nclean u = (\<lambda>_. True)"
    by (rule sim_write_direct [OF p]) (use assms in \<open>auto simp: c0_def bpos_def\<close>)
  then obtain u where u: "write_direct (sim es (\<lambda>_. False)) c0 (concat bs) = Some (True, c0\<lparr>wfd := u\<rparr>, [])" "npos u = bpos es (length bs)"
      "nbad u = (\<lambda>_. False)" "nclean u = (\<lambda>_. True)" by auto
  define c1 where "c1 = c0\<lparr>wfd := u\<rparr>"
  have sel: "stored c0 = []" "stored c1 = []" "wpart c0 = p" "wpart c1 = p" "wfd c1 = u" "bad_block_offsets c1 = []"
    by (simp_all add: c0_def c1_def)
  define data where "data = concat bs"
  have "data \<noteq> []" "es \<le> length data" using assms(6) len es(1) by (cases bs; auto simp: data_def)+
  then have "write_data_loop (sim es (\<lambda>_. False)) c0 data = Some (True, c1)"
    using u(1) es sel
    by (simp add: write_data_loop.simps [of _ c0] write_data_loop.simps [of _ c1] write_buffered_def flip: c1_def data_def)
  moreover have "mtd_erase_blocks (sim es (\<lambda>_. False)) c1 0 = Some (bpos es (length bs), c1)"
    using blocks_left [OF p assms(2)] sel u(2) es by (simp add: mtd_erase_blocks_def Let_def) (auto simp: sim_def)
  moreover have "bpos es (length bs) \<noteq> - 1" using es(1) by (simp add: bpos_def flip: of_nat_mult)
  ultimately have "store (sim es (\<lambda>_. False)) p v [concat bs] = Some (c1\<lparr>wfd := wfd c1\<rparr>)"
    unfolding data_def by (simp add: store_def open0 mtd_write_data_def mtd_write_close_def) (simp add: sim_def)
  then show thesis using that sel u by auto
qed

section \<open>Blocks that are given up\<close>

text \<open>What the reader delivers when the first block on which it disagrees with the writer is one that the writer gave up.\<close>

lemma lost_cells:
  assumes D: "driver D V es n" and p: "geometry p es n" and st: "store D p d ds = Some ctx"
    and b: "bpos es b \<in> set (bad_block_offsets ctx)" "good (V (wfd ctx)) b"
    and rec: "\<forall>i<b. bpos es i \<in> set (bad_block_offsets ctx) \<longleftrightarrow> \<not> good (V (wfd ctx)) i"
    and k: "k = length (filter (good (V (wfd ctx))) [0..<b])" "k * es < length (concat ds)"
  shows "\<exists>ys. cells_from (V (wfd ctx)) n 0 = take (k * es) (concat ds) @ ncell (V (wfd ctx)) b @ ys"
proof -
  let ?v = "V (wfd ctx)" and ?rec = "\<lambda>i. bpos es i \<notin> set (bad_block_offsets ctx)"
  have es: "0 < es" using geometryD(5) [OF p] .
  obtain b0 bs z where w: "write_inv V p es n (V d) ctx b0 bs" "concat bs = concat ds @ replicate z 0"
    by (rule store_spec [OF D p st])
  have h: "list_all2 (\<lambda>i d. \<not> nbad ?v i \<and> (nclean ?v i \<longrightarrow> ncell ?v i = d)) (filter ?rec [0..<b0]) bs" "\<forall>x \<in> set bs. length x = es" "b0 \<le> n"
    "set (bad_block_offsets ctx) \<subseteq> bpos es ` {..<b0}"
    using w(1) by (auto simp: write_inv_def at_block_def holds_def)
  have "b < b0" using b(1) h(4) es by (auto simp: bpos_def)
  then have split: "[0..<b0] = [0..<b] @ [b..<b0]" "[0..<n] = [0..<b] @ b # [Suc b..<n]"
    using h(3) upt_add_eq_append [of 0 b "b0 - b"] upt_add_eq_append [of 0 b "n - b"] by (simp_all add: upt_conv_Cons)
  have f: "filter ?rec [0..<b] = filter (good ?v) [0..<b]" using rec by (intro filter_cong) auto
  obtain us vs where us: "bs = us @ vs" "list_all2 (\<lambda>i d. \<not> nbad ?v i \<and> (nclean ?v i \<longrightarrow> ncell ?v i = d)) (filter (good ?v) [0..<b]) us"
    using h(1) unfolding split(1) filter_append f by (auto simp: list_all2_append1)
  have "list_all2 (\<lambda>i d. ncell ?v i = d) (filter (good ?v) [0..<b]) us"
    using us(2) by (rule list.rel_mono_strong) (auto simp: good_def)
  then have cells: "map (ncell ?v) (filter (good ?v) [0..<b]) = us"
    by (simp add: list_all2_conv_all_nth list_eq_iff_nth_eq)
  have "length (concat us) = k * es"
    using k(1) us h(2) list_all2_lengthD [OF us(2)] by (simp add: length_concat map_replicate_const sum_list_replicate cong: map_cong)
  then have "concat us = take (k * es) (concat bs)" by (simp add: us(1))
  then have "concat us = take (k * es) (concat ds)" using w(2) k(2) by simp
  then show ?thesis
    using b(2) by (simp add: cells_from_def good_from_def split(2) cells)
qed

section \<open>Properties\<close>

text \<open>
  C14.  What is written to a flash partition is read back: if the driver behaves as documented, a partition is written in any
  pieces and closed without an error, and the blocks that the writer recorded as bad are those that
  do not read cleanly, then reading it in any pieces, up to the amount written, gives the data.
\<close>

theorem mtd_store_fetch_roundtrip:
  assumes "driver D V es n" and "geometry p es n" and "store D p d ds = Some ctx"
    and "recorded es (V (wfd ctx)) (bad_block_offsets ctx)" and "fl_open D (wfd ctx) (device_index p) \<noteq> None"
    and "sum_list ks \<le> length (concat ds)"
  shows "\<exists>xs. fetch D p (wfd ctx) ks = Some xs \<and> concat xs = take (sum_list ks) (concat ds) \<and> map length xs = ks"
  using assms by (rule store_fetch)

definition sample_part :: MtdPartition where
  "sample_part = \<lparr>device_index = 1, part_size = 8, erase_size = 2, part_name = Some ''misc''\<rparr>"

definition sample_nand :: "(nat \<Rightarrow> bool) \<Rightarrow> nand" where
  "sample_nand bad = \<lparr>npos = 0, ncell = \<lambda>_. [9, 9], nclean = \<lambda>_. True, nbad = bad, nfail = 0\<rparr>"

lemma sample_geometry: "geometry sample_part 2 4"
  by (simp add: geometry_def sample_part_def)

theorem mtd_store_fetch_roundtrip_witness:
  "\<exists>ctx. store (sim 2 (\<lambda>_. False)) sample_part (sample_nand (\<lambda>i. i = 1)) [[1, 2, 3, 4]] = Some ctx \<and>
    (\<exists>xs. fetch (sim 2 (\<lambda>_. False)) sample_part (wfd ctx) [3, 1] = Some xs \<and> concat xs = [1, 2, 3, 4] \<and> map length xs = [3, 1])"
proof -
  obtain ctx where ctx: "store (sim 2 (\<lambda>_. False)) sample_part (sample_nand (\<lambda>i. i = 1)) [[1, 2] @ [3, 4]] = Some ctx"
      "bad_block_offsets ctx = [bpos 2 1]" "wfd ctx = sim_put 2 2 [3, 4] (sim_put 2 0 [1, 2] ((sample_nand (\<lambda>i. i = 1))\<lparr>npos := 0\<rparr>))"
    by (rule sim_store [OF sample_geometry, of "sample_nand (\<lambda>i. i = 1)" "\<lambda>_. False" "[1, 2]" "[3, 4]"])
       (auto simp: sample_nand_def)
  have "recorded 2 (view 2 (wfd ctx)) (bad_block_offsets ctx)"
    by (auto simp: recorded_def ctx(2,3) view_def sim_put_def sample_nand_def good_def bpos_def)
  moreover have "fl_open (sim 2 (\<lambda>_. False)) (wfd ctx) (device_index sample_part) \<noteq> None" by (simp add: sim_def)
  ultimately have "\<exists>xs. fetch (sim 2 (\<lambda>_. False)) sample_part (wfd ctx) [3, 1] = Some xs \<and>
      concat xs = take (sum_list [3, 1]) (concat [[1, 2] @ [3, 4]]) \<and> map length xs = [3, 1]"
    by (intro mtd_store_fetch_roundtrip [OF sim_driver sample_geometry ctx(1)]) simp_all
  then show ?thesis using ctx(1) by simp
qed

text \<open>
  C21.  Writing ends on every device whose driver behaves as documented, however often erasing, writing
  and reading back fail, and it never changes the contents of a block that is marked bad.
\<close>

theorem mtd_write_ends:
  assumes "driver D V es n" and "geometry p es n" and "mtd_write_partition D p d = Some ctx"
  shows "\<exists>ok ctx'. write_pieces D ctx ds = Some (ok, ctx') \<and>
    (\<forall>i. nbad (V d) i \<longrightarrow> ncell (V (wfd ctx')) i = ncell (V d) i) \<and>
    (ok \<longrightarrow> (\<exists>r ctx''. mtd_write_close D ctx' = Some (r, ctx'') \<and>
      (\<forall>i. nbad (V d) i \<longrightarrow> ncell (V (wfd ctx'')) i = ncell (V d) i)))"
proof -
  note acc = mtd_write_partition_accepted [OF assms]
  obtain ok c1 where c1: "write_pieces D ctx ds = Some (ok, c1)" "touches (usable (V d) 0) (V d) (V (wfd c1))"
      "ok \<longrightarrow> accepted V p es n (V d) ([] @ concat ds) c1"
    using write_pieces_spec [OF assms(1,2) acc, of ds] by (elim exE conjE) (rule that)
  have keep: "\<forall>i. nbad (V d) i \<longrightarrow> ncell w i = ncell (V d) i" if "touches (usable (V d) 0) (V d) w" for w
    using that by (simp add: touches_def usable_def)
  have "\<exists>r c2. mtd_write_close D c1 = Some (r, c2) \<and> touches (usable (V d) 0) (V d) (V (wfd c2))" if ok: "ok"
  proof -
    have "accepted V p es n (V d) ([] @ concat ds) c1" using c1(3) ok by blast
    then obtain r c2 where "mtd_erase_blocks D c1 0 = Some (r, c2)" "touches (usable (V d) 0) (V d) (V (wfd c2))"
      by (rule mtd_erase_blocks_0 [OF assms(1,2)])
    then show ?thesis
      using driver_seek(4) [OF assms(1), of "wfd c2"] by (auto simp: mtd_write_close_def split: prod.splits)
  qed
  then show ?thesis using c1(1) keep [OF c1(2)] keep by (intro exI conjI) (assumption, blast+)
qed

theorem mtd_write_ends_witness:
  "\<exists>ctx ok ctx'. mtd_write_partition (sim 2 (\<lambda>i. i = 0)) sample_part (sample_nand (\<lambda>i. i = 1)) = Some ctx \<and>
    write_pieces (sim 2 (\<lambda>i. i = 0)) ctx [[1], [2, 3]] = Some (ok, ctx') \<and> ncell (view 2 (wfd ctx')) 1 = [9, 9]"
proof -
  obtain ctx where c: "mtd_write_partition (sim 2 (\<lambda>i. i = 0)) sample_part (sample_nand (\<lambda>i. i = 1)) = Some ctx"
    by (simp add: mtd_write_partition_def sim_def)
  have "(0 :: nat) < 2" by simp
  from mtd_write_ends [OF sim_driver [OF this] sample_geometry c, of "[[1], [2, 3]]"]
  obtain ok ctx' where w: "write_pieces (sim 2 (\<lambda>i. i = 0)) ctx [[1], [2, 3]] = Some (ok, ctx')"
      "\<forall>i. nbad (view 2 (sample_nand (\<lambda>i. i = 1))) i \<longrightarrow>
        ncell (view 2 (wfd ctx')) i = ncell (view 2 (sample_nand (\<lambda>i. i = 1))) i"
    by (elim exE conjE) (rule that)
  from w(2) have "ncell (view 2 (wfd ctx')) 1 = [9, 9]" by (simp add: view_def sample_nand_def fit_def)
  then show ?thesis using c w(1) by blast
qed

text \<open>
  C35.  A block that the writer gives up is not marked bad, and the reader does not know of it: when a partition has been written and
  closed without an error, and the first block on which writer and reader disagree is one that the writer gave up but
  that reads cleanly, the reader delivers the data up to there and then the contents of that block in place of
  the data that follow.
\<close>

theorem mtd_lost_block:
  assumes "driver D V es n" and "geometry p es n" and "store D p d ds = Some ctx" and "fl_open D (wfd ctx) (device_index p) \<noteq> None"
    and "bpos es b \<in> set (bad_block_offsets ctx)" and "good (V (wfd ctx)) b"
    and "\<forall>i<b. bpos es i \<in> set (bad_block_offsets ctx) \<longleftrightarrow> \<not> good (V (wfd ctx)) i"
    and "k = length (filter (good (V (wfd ctx))) [0..<b])" and "k * es < length (concat ds)"
  shows "fetch D p (wfd ctx) [k * es, es] = Some [take (k * es) (concat ds), ncell (V (wfd ctx)) b]"
proof -
  let ?x = "ncell (V (wfd ctx)) b"
  obtain ys where ys: "cells_from (V (wfd ctx)) n 0 = take (k * es) (concat ds) @ ?x @ ys"
    using lost_cells [OF assms(1-3,5-9)] by blast
  have len: "length ?x = es" "length (take (k * es) (concat ds)) = k * es" using driver_cell [OF assms(1)] assms(9) by auto
  then obtain xs where xs: "fetch D p (wfd ctx) [k * es, es] = Some xs"
      "concat xs = take (k * es) (concat ds) @ ?x" "map length xs = [k * es, es]"
    using fetch_cells [OF assms(1,2,4), of "[k * es, es]"] ys by auto
  then obtain x1 x2 where "xs = [x1, x2]" "length x1 = k * es" by (auto simp: map_eq_Cons_conv)
  then show ?thesis using xs(1,2) len by (auto simp: append_eq_append_conv)
qed

theorem mtd_lost_block_witness:
  "\<exists>ctx. store (sim 2 (\<lambda>i. i = 1)) sample_part (sample_nand (\<lambda>_. False)) [[1, 2] @ [3, 4]] = Some ctx \<and>
    fetch (sim 2 (\<lambda>i. i = 1)) sample_part (wfd ctx) [2, 2] = Some [[1, 2], [9, 9]]"
proof -
  obtain ctx where ctx: "store (sim 2 (\<lambda>i. i = 1)) sample_part (sample_nand (\<lambda>_. False)) [[1, 2] @ [3, 4]] = Some ctx"
      "bad_block_offsets ctx = [bpos 2 1]" "wfd ctx = sim_put 2 2 [3, 4] (sim_put 2 0 [1, 2] ((sample_nand (\<lambda>_. False))\<lparr>npos := 0\<rparr>))"
    by (rule sim_store [OF sample_geometry, of "sample_nand (\<lambda>_. False)" "\<lambda>i. i = 1" "[1, 2]" "[3, 4]"])
       (auto simp: sample_nand_def)
  have v: "good (view 2 (wfd ctx)) 0" "good (view 2 (wfd ctx)) 1" "ncell (view 2 (wfd ctx)) 1 = [9, 9]"
    by (simp_all add: ctx(3) good_def view_def sim_put_def sample_nand_def fit_def)
  have "fetch (sim 2 (\<lambda>i. i = 1)) sample_part (wfd ctx) [1 * 2, 2] =
      Some [take (1 * 2) (concat [[1, 2] @ [3, 4]]), ncell (view 2 (wfd ctx)) 1]"
    by (rule mtd_lost_block [OF sim_driver sample_geometry ctx(1)]) (simp_all add: ctx(2) v v(2) [unfolded One_nat_def], simp_all add: sim_def bpos_def)
  then show ?thesis using ctx(1) v(3) by auto
qed

end
