(* ===== verification/MtdCmd.thy ===== *)
theory MtdCmd
  imports MtdStore
begin

text \<open>
  The commands on whole flash partitions (\<^verbatim>\<open>mtdutils/mtdutils.c\<close>, the \<open>cmd_mtd\<close> functions): restoring a
  partition from a file, backing it up to a file, erasing it, mounting it.

  \<^item> Each command scans the partition table first; what the scan depends on is a record.
  \<^item> A file to read is its contents, \<open>None\<close> when it cannot be opened.  A file to write is a state with
    functions for \<open>write\<close>, \<open>close\<close> and \<open>unlink\<close>.
  \<^item> In the results, \<open>None\<close> is undefined behaviour or a call that does not return.
\<close>

record scan_env =
  sdup :: "string \<Rightarrow> bool"
  stable :: bool
  sproc :: "string option"

definition lookup :: "scan_env \<Rightarrow> MtdState \<Rightarrow> string \<Rightarrow> (int \<times> MtdPartition option \<times> MtdState) ub" where
  "lookup E st name = do {
     (count, st) \<leftarrow> mtd_scan_partitions (sdup E) (stable E) (sproc E) st;
     Some (count, mtd_find_partition_by_name st name, st)}"

section \<open>Restoring\<close>

text \<open>The successive results of \<open>fread\<close> with a buffer of \<open>k\<close> bytes.\<close>

function chunks :: "nat \<Rightarrow> byte list \<Rightarrow> byte list list" where
  "chunks k xs = (if xs = [] \<or> k = 0 then [] else take k xs # chunks k (drop k xs))"
  by pat_completeness auto
termination
  by (relation "measure (\<lambda>(k, xs). length xs)") auto

declare chunks.simps [simp del]

text \<open>\<open>bufsiz\<close> is the C library's \<open>BUFSIZ\<close>; \<open>openable\<close> says whether the second \<open>open\<close> of the file succeeds.\<close>

definition cmd_mtd_restore_raw_partition ::
  "nat \<Rightarrow> scan_env \<Rightarrow> 'd flash \<Rightarrow> string \<Rightarrow> byte list option \<Rightarrow> bool \<Rightarrow> MtdState \<Rightarrow> 'd \<Rightarrow> (int \<times> MtdState \<times> 'd) option" where
  "cmd_mtd_restore_raw_partition bufsiz E D partition_name file openable st d =
     (case file of
        None \<Rightarrow> Some (- 1, st, d)
      | Some contents \<Rightarrow> do {
          (count, mtd, st) \<leftarrow> lookup E st partition_name;
          if count \<le> 0 then Some (- 1, st, d)
          else case mtd of
              None \<Rightarrow> Some (- 1, st, d)
            | Some p \<Rightarrow>
                if \<not> openable then Some (- 1, st, d)
                else case mtd_write_partition D p d of
                    None \<Rightarrow> Some (- 1, st, d)
                  | Some ctx \<Rightarrow> do {
                      (success, ctx) \<leftarrow> write_pieces D ctx (chunks bufsiz contents);
                      if \<not> success then Some (- 1, st, wfd ctx)
                      else do {
                        (_, ctx) \<leftarrow> mtd_erase_blocks D ctx (- 1);
                        (_, ctx) \<leftarrow> mtd_write_close D ctx;
                        Some (0, st, wfd ctx)}}})"

section \<open>Backing up\<close>

definition BLOCK_SIZE :: nat where "BLOCK_SIZE = 2048"

record 'w out_file =
  out_open :: "'w \<Rightarrow> 'w option"
  out_write :: "'w \<Rightarrow> byte list \<Rightarrow> int \<times> 'w"
  out_close :: "'w \<Rightarrow> int \<times> 'w"
  out_unlink :: "'w \<Rightarrow> 'w"

partial_function (option) backup_loop ::
  "'d flash \<Rightarrow> 'w out_file \<Rightarrow> 'd MtdReadContext \<Rightarrow> 'w \<Rightarrow> (bool \<times> 'd MtdReadContext \<times> 'w) option" where
  "backup_loop D F ctx w =
     Option.bind (mtd_read_data D ctx BLOCK_SIZE) (\<lambda>(r, ctx).
       case r of
         None \<Rightarrow> Some (True, ctx, w)
       | Some buf \<Rightarrow>
           (case out_write F w buf of
              (wrote, w) \<Rightarrow>
                if wrote \<noteq> int (length buf) then Some (False, ctx, out_unlink F (snd (out_close F w)))
                else backup_loop D F ctx w))"

definition cmd_mtd_backup_raw_partition ::
  "scan_env \<Rightarrow> 'd flash \<Rightarrow> 'w out_file \<Rightarrow> string \<Rightarrow> MtdState \<Rightarrow> 'd \<Rightarrow> 'w \<Rightarrow> (int \<times> MtdState \<times> 'd \<times> 'w) option" where
  "cmd_mtd_backup_raw_partition E D F partition_name st d w = do {
     (count, part, st) \<leftarrow> lookup E st partition_name;
     if count \<le> 0 then Some (- 1, st, d, w)
     else case part of
         None \<Rightarrow> Some (- 1, st, d, w)
       | Some p \<Rightarrow>
           if mtd_partition_info D p d = None then Some (- 1, st, d, w)
           else case out_open F w of
               None \<Rightarrow> Some (- 1, st, d, w)
             | Some w \<Rightarrow>
                 (case mtd_read_partition D p d of
                    None \<Rightarrow> Some (- 1, st, d, out_unlink F (snd (out_close F w)))
                  | Some ctx \<Rightarrow> do {
                      (ok, ctx, w) \<leftarrow> backup_loop D F ctx w;
                      if \<not> ok then Some (- 1, st, rfd ctx, w)
                      else let d = mtd_read_close D ctx in
                        case out_close F w of
                          (c, w) \<Rightarrow> if c \<noteq> 0 then Some (- 1, st, d, out_unlink F w) else Some (0, st, d, w)})}"

section \<open>Erasing and mounting\<close>

text \<open>The result of \<open>mtd_erase_blocks\<close> goes into a \<open>size_t\<close>.\<close>

definition cmd_mtd_erase_raw_partition ::
  "scan_env \<Rightarrow> 'd flash \<Rightarrow> string \<Rightarrow> MtdState \<Rightarrow> 'd \<Rightarrow> (int \<times> MtdState \<times> 'd) option" where
  "cmd_mtd_erase_raw_partition E D partition_name st d = do {
     (count, part, st) \<leftarrow> lookup E st partition_name;
     if count \<le> 0 then Some (- 1, st, d)
     else case part of
         None \<Rightarrow> Some (- 1, st, d)
       | Some p \<Rightarrow>
           (case mtd_write_partition D p d of
              None \<Rightarrow> Some (- 1, st, d)
            | Some out \<Rightarrow> do {
                (pos, out) \<leftarrow> mtd_erase_blocks D out (- 1);
                let erased = (of_int pos :: u32);
                if erased = 0 then Some (- 1, st, wfd out) else Some (0, st, wfd out)})}"

definition cmd_mtd_erase_partition ::
  "scan_env \<Rightarrow> 'd flash \<Rightarrow> string \<Rightarrow> string \<Rightarrow> MtdState \<Rightarrow> 'd \<Rightarrow> (int \<times> MtdState \<times> 'd) option" where
  "cmd_mtd_erase_partition E D part filesystem st d = cmd_mtd_erase_raw_partition E D part st d"

definition cmd_mtd_mount_partition ::
  "scan_env \<Rightarrow> 'w mount_calls \<Rightarrow> string \<Rightarrow> string \<Rightarrow> string \<Rightarrow> bool \<Rightarrow> MtdState \<Rightarrow> 'w \<Rightarrow> (int \<times> MtdState \<times> 'w) ub" where
  "cmd_mtd_mount_partition E K part mount_point filesystem read_only st w = do {
     (_, p, st) \<leftarrow> lookup E st part;
     case p of
       None \<Rightarrow> Some (- 1, st, w)
     | Some p \<Rightarrow> (case mtd_mount_partition K p mount_point filesystem read_only w of (rv, w) \<Rightarrow> Some (rv, st, w))}"

definition cmd_mtd_get_partition_device :: "scan_env \<Rightarrow> string \<Rightarrow> MtdState \<Rightarrow> (string option \<times> MtdState) ub" where
  "cmd_mtd_get_partition_device E part st = do {
     (_, p, st) \<leftarrow> lookup E st part;
     Some (map_option (\<lambda>p. ''/dev/block/mtdblock'' @ show_int (device_index p)) p, st)}"

section \<open>What a backup contains\<close>

text \<open>An output file that takes everything it is given; its state is its contents.\<close>

definition plain_file :: "byte list out_file" where
  "plain_file = \<lparr>out_open = \<lambda>_. Some [], out_write = \<lambda>w bs. (int (length bs), w @ bs),
     out_close = \<lambda>w. (0, w), out_unlink = \<lambda>_. []\<rparr>"

lemma backup_loop_spec:
  assumes D: "driver D V es n" and p: "geometry p es n"
  shows "read_inv V p es n ctx b \<Longrightarrow> \<exists>ctx'. backup_loop D plain_file ctx w =
    Some (True, ctx', w @ take (BLOCK_SIZE * (length (pending V n ctx b) div BLOCK_SIZE)) (pending V n ctx b))"
proof (induction "length (pending V n ctx b)" arbitrary: ctx b w rule: less_induct)
  case less
  let ?P = "pending V n ctx b"
  have "read_goes_on V p es n BLOCK_SIZE ?P ctx []" using less.prems by (auto simp: read_goes_on_def)
  from read_data_loop_spec [OF D p this] obtain r ctx1 where r: "mtd_read_data D ctx BLOCK_SIZE = Some (r, ctx1)"
      "read_right V p es n BLOCK_SIZE ?P (r, ctx1)"
    by (auto simp: mtd_read_data_def)
  show ?case
  proof (cases "BLOCK_SIZE \<le> length ?P")
    case False
    then have "r = None" "length ?P div BLOCK_SIZE = 0" using r(2) by (auto simp: read_right_def)
    then show ?thesis using r(1) by (subst backup_loop.simps) simp
  next
    case True
    then obtain b1 where b1: "r = Some (take BLOCK_SIZE ?P)" "read_inv V p es n ctx1 b1" "pending V n ctx1 b1 = drop BLOCK_SIZE ?P"
      using r(2) by (auto simp: read_right_def)
    have step: "backup_loop D plain_file ctx w = backup_loop D plain_file ctx1 (w @ take BLOCK_SIZE ?P)"
      using r(1) b1(1) by (subst backup_loop.simps) (simp add: plain_file_def)
    have "length (pending V n ctx1 b1) < length ?P" using True b1(3) by (simp add: BLOCK_SIZE_def)
    from less.hyps [OF this b1(2), of "w @ take BLOCK_SIZE ?P"] obtain ctx' where
      "backup_loop D plain_file ctx w = Some (True, ctx', (w @ take BLOCK_SIZE ?P) @
        take (BLOCK_SIZE * (length (drop BLOCK_SIZE ?P) div BLOCK_SIZE)) (drop BLOCK_SIZE ?P))"
      unfolding step b1(3) by blast
    moreover have "BLOCK_SIZE * (length ?P div BLOCK_SIZE) = BLOCK_SIZE + BLOCK_SIZE * (length (drop BLOCK_SIZE ?P) div BLOCK_SIZE)"
      using True by (simp add: BLOCK_SIZE_def le_div_geq)
    ultimately show ?thesis by (simp add: take_add)
  qed
qed

section \<open>Properties\<close>

text \<open>
  C30.  Backing up a flash partition ends with success, and the file holds the contents of the blocks that read
  cleanly, in order, up to the last multiple of the block size of the copy.
\<close>

theorem cmd_mtd_backup_contents:
  assumes "driver D V es n" and "geometry p es n" and "lookup E st name = Some (count, Some p, st')" and "0 < count"
    and "mtd_partition_info D p d \<noteq> None"
  shows "\<exists>d'. cmd_mtd_backup_raw_partition E D plain_file name st d w =
    Some (0, st', d', take (BLOCK_SIZE * (length (cells_from (V d) n 0) div BLOCK_SIZE)) (cells_from (V d) n 0))"
proof -
  obtain fd where fd: "fl_open D d (device_index p) = Some fd"
    using assms(5) by (auto simp: mtd_partition_info_def bind_eq_None_conv)
  obtain r where r: "mtd_read_partition D p d = Some r" "read_inv V p es n r 0" "pending V n r 0 = cells_from (V d) n 0"
    by (rule read_partition_pending [OF assms(1,2) fd])
  from backup_loop_spec [OF assms(1,2) r(2), of "[]"] obtain ctx' where
    "backup_loop D plain_file r [] = Some (True, ctx', take (BLOCK_SIZE * (length (cells_from (V d) n 0) div BLOCK_SIZE)) (cells_from (V d) n 0))"
    unfolding r(3) by auto
  then show ?thesis
    using assms(3-5) r(1) by (simp add: cmd_mtd_backup_raw_partition_def Let_def) (simp add: plain_file_def)
qed

definition sample_env :: scan_env where
  "sample_env = \<lparr>sdup = \<lambda>_. True, stable = True, sproc = Some (proc_mtd [(1, 2048, 2048, ''misc'')])\<rparr>"

lemma sample_lookup:
  "\<exists>st'. lookup sample_env g_mtd_state ''misc'' = Some (1, Some (partition_of (1, 2048, 2048, ''misc'')), st')"
proof -
  have len: "length (proc_mtd [(1, 2048, 2048, ''misc'')]) \<le> 2047"
    by (simp add: proc_mtd_def print_entry_def show_nat.simps)
  have "\<exists>st'. mtd_scan_partitions (\<lambda>_. True) True (Some (proc_mtd [(1, 2048, 2048, ''misc'')])) g_mtd_state =
      Some (int (length [(1 :: nat, 2048 :: u32, 2048 :: u32, ''misc'')]), st') \<and>
    (\<forall>e \<in> set [(1, 2048, 2048, ''misc'')]. mtd_find_partition_by_name st' (snd (snd (snd e))) = Some (partition_of e)) \<and>
    (\<forall>name. name \<notin> (\<lambda>e. snd (snd (snd e))) ` set [(1 :: nat, 2048 :: u32, 2048 :: u32, ''misc'')] \<longrightarrow> mtd_find_partition_by_name st' name = None)"
    by (rule scan_format [OF _ _ _ len]) (simp_all add: g_mtd_state_def entry_ok_def quote_def newline_def)
  then show ?thesis by (auto simp: lookup_def sample_env_def)
qed

theorem cmd_mtd_backup_contents_witness:
  "\<exists>st' d'. cmd_mtd_backup_raw_partition sample_env (sim 2048 (\<lambda>_. False)) plain_file ''misc'' g_mtd_state
      \<lparr>npos = 0, ncell = \<lambda>_. replicate 2048 7, nclean = \<lambda>_. True, nbad = \<lambda>_. False, nfail = 0\<rparr> [] =
    Some (0, st', d', replicate 2048 7)"
proof -
  let ?d = "\<lparr>npos = 0, ncell = \<lambda>_. replicate 2048 7, nclean = \<lambda>_. True, nbad = \<lambda>_. False, nfail = 0\<rparr>"
  let ?p = "partition_of (1, 2048, 2048, ''misc'')"
  obtain st' where st': "lookup sample_env g_mtd_state ''misc'' = Some (1, Some ?p, st')"
    using sample_lookup by blast
  have p: "geometry ?p 2048 1" by (simp add: geometry_def partition_of_def)
  have cells: "cells_from (view 2048 ?d) 1 0 = replicate 2048 7"
    by (simp add: cells_from_def good_from_def good_def view_def fit_def)
  have "\<exists>d'. cmd_mtd_backup_raw_partition sample_env (sim 2048 (\<lambda>_. False)) plain_file ''misc'' g_mtd_state ?d [] =
      Some (0, st', d', take (BLOCK_SIZE * (length (cells_from (view 2048 ?d) 1 0) div BLOCK_SIZE)) (cells_from (view 2048 ?d) 1 0))"
    by (rule cmd_mtd_backup_contents [OF sim_driver p st']) (simp_all add: mtd_partition_info_def sim_def)
  then show ?thesis unfolding cells by (auto simp: BLOCK_SIZE_def)
qed

end
