(* ===== verification/Bootloader.thy ===== *)
theory Bootloader
  imports MtdCmd CString
begin

text \<open>
  The bootloader message in the misc partition (\<^verbatim>\<open>bootloader.c\<close>, \<^verbatim>\<open>bootloader.h\<close>).

  \<^item> A message is a record of five arrays of characters; in storage it is their 1088 bytes.
  \<^item> The volume record of \<^verbatim>\<open>/misc\<close> is an argument, \<open>None\<close> when the recovery has none.
  \<^item> For flash, the driver is the parameter of theory \<open>Mtd\<close>.  A block device is a state with functions for
    opening, reading, writing and closing it; the offset of the message is the build setting
    \<open>BOARD_RECOVERY_BLDRMSG_OFFSET\<close>, 0 without it.
  \<^item> In the results, the outer \<open>None\<close> is undefined behaviour or a call that does not return.
\<close>

record bootloader_message =
  command :: string
  status :: string
  recovery :: string
  stage :: string
  reserved :: string

definition message_ok :: "bootloader_message \<Rightarrow> bool" where
  "message_ok m \<longleftrightarrow> length (command m) = 32 \<and> length (status m) = 32 \<and> length (recovery m) = 768 \<and>
     length (stage m) = 32 \<and> length (reserved m) = 224"

definition MESSAGE_SIZE :: nat where "MESSAGE_SIZE = 1088"

definition message_bytes :: "bootloader_message \<Rightarrow> byte list" where
  "message_bytes m = map (\<lambda>c. of_nat (of_char c)) (command m @ status m @ recovery m @ stage m @ reserved m)"

definition message_of :: "byte list \<Rightarrow> bootloader_message" where
  "message_of bs = (let s = map (\<lambda>b. char_of (unat b)) bs in
     \<lparr>command = take 32 s, status = take 32 (drop 32 s), recovery = take 768 (drop 64 s),
      stage = take 32 (drop 832 s), reserved = take 224 (drop 864 s)\<rparr>)"

record Volume =
  fs_type :: string
  blk_device :: string

section \<open>Misc partitions on flash\<close>

definition MISC_PAGES :: nat where "MISC_PAGES = 3"
definition MISC_COMMAND_PAGE :: nat where "MISC_COMMAND_PAGE = 1"

text \<open>
  What reading and writing a message begin with: the partition, its write size and its first pages;
  the inner \<open>None\<close> is an error.
\<close>

definition misc_pages ::
  "scan_env \<Rightarrow> 'd flash \<Rightarrow> Volume \<Rightarrow> MtdState \<Rightarrow> 'd \<Rightarrow> ((MtdPartition \<times> nat \<times> byte list) option \<times> MtdState \<times> 'd) option" where
  "misc_pages E D v st d = do {
     (_, part, st) \<leftarrow> lookup E st (blk_device v);
     case part of
       None \<Rightarrow> Some (None, st, d)
     | Some p \<Rightarrow>
         (case mtd_partition_info D p d of
            None \<Rightarrow> Some (None, st, d)
          | Some (_, _, write_size) \<Rightarrow>
              (case mtd_read_partition D p d of
                 None \<Rightarrow> Some (None, st, d)
               | Some read \<Rightarrow> do {
                   (r, read) \<leftarrow> mtd_read_data D read (write_size * MISC_PAGES);
                   Some (map_option (\<lambda>data. (p, write_size, data)) r, st, mtd_read_close D read)}))}"

definition get_bootloader_message_mtd ::
  "scan_env \<Rightarrow> 'd flash \<Rightarrow> Volume \<Rightarrow> MtdState \<Rightarrow> 'd \<Rightarrow> (bootloader_message option \<times> MtdState \<times> 'd) option" where
  "get_bootloader_message_mtd E D v st d = do {
     (r, st, d) \<leftarrow> misc_pages E D v st d;
     case r of
       None \<Rightarrow> Some (None, st, d)
     | Some (p, write_size, data) \<Rightarrow> do {
         bs \<leftarrow> segment_ub data (write_size * MISC_COMMAND_PAGE) MESSAGE_SIZE;
         Some (Some (message_of bs), st, d)}}"

text \<open>The result is whether the message was set, the table, the device, and the writer that was released, if one was made.\<close>

definition set_bootloader_message_mtd ::
  "scan_env \<Rightarrow> 'd flash \<Rightarrow> bootloader_message \<Rightarrow> Volume \<Rightarrow> MtdState \<Rightarrow> 'd \<Rightarrow>
   (bool \<times> MtdState \<times> 'd \<times> 'd MtdWriteContext option) option" where
  "set_bootloader_message_mtd E D msg v st d = do {
     (r, st, d) \<leftarrow> misc_pages E D v st d;
     case r of
       None \<Rightarrow> Some (False, st, d, None)
     | Some (p, write_size, data) \<Rightarrow> do {
         data \<leftarrow> overwrite_ub data (write_size * MISC_COMMAND_PAGE) (message_bytes msg);
         case mtd_write_partition D p d of
           None \<Rightarrow> Some (False, st, d, None)
         | Some ctx \<Rightarrow> do {
             (wrote, ctx) \<leftarrow> mtd_write_data D ctx data;
             (c, ctx) \<leftarrow> mtd_write_close D ctx;
             Some (wrote = int (length data) \<and> c = 0, st, wfd ctx, Some ctx)}}}"

section \<open>Misc partitions on block devices\<close>

text \<open>
  The number of times \<open>stat\<close> is tried, given when it fails.  Waiting has no result and changes nothing, so
  that reading and writing a message below begin with opening the device.
\<close>

function wait_loop :: "(nat \<Rightarrow> bool) \<Rightarrow> nat \<Rightarrow> nat" where
  "wait_loop fails tries =
     (let tries = tries + 1; ret = fails tries in
      if ret \<and> tries < 10 then wait_loop fails tries else tries)"
  by pat_completeness auto
termination
  by (relation "measure (\<lambda>(fails, tries). 10 - tries)") auto

declare wait_loop.simps [simp del]

definition wait_for_device :: "(nat \<Rightarrow> bool) \<Rightarrow> nat" where
  "wait_for_device fails = wait_loop fails 0"

text \<open>\<open>bread w k n\<close> and \<open>bwrite w k bs\<close> act at offset \<open>k\<close>; \<open>bread\<close> returns fewer bytes at the end or at an error.\<close>

record 'w block_dev =
  bopen :: "'w \<Rightarrow> 'w option"
  bread :: "'w \<Rightarrow> nat \<Rightarrow> nat \<Rightarrow> byte list"
  bwrite :: "'w \<Rightarrow> nat \<Rightarrow> byte list \<Rightarrow> bool \<times> 'w"
  bclose :: "'w \<Rightarrow> bool \<times> 'w"

definition get_bootloader_message_block :: "nat \<Rightarrow> 'w block_dev \<Rightarrow> 'w \<Rightarrow> bootloader_message option" where
  "get_bootloader_message_block offset B w = do {
     w \<leftarrow> bopen B w;
     let temp = bread B w offset MESSAGE_SIZE;
     if length temp \<noteq> MESSAGE_SIZE then None
     else if \<not> fst (bclose B w) then None
     else Some (message_of temp)}"

definition set_bootloader_message_block :: "nat \<Rightarrow> 'w block_dev \<Rightarrow> bootloader_message \<Rightarrow> 'w \<Rightarrow> bool \<times> 'w" where
  "set_bootloader_message_block offset B msg w =
     (case bopen B w of
        None \<Rightarrow> (False, w)
      | Some w \<Rightarrow>
          (case bwrite B w offset (message_bytes msg) of
             (ok, w) \<Rightarrow> if \<not> ok then (False, w) else bclose B w))"

section \<open>Either kind\<close>

text \<open>The devices of the system, and what they hold.\<close>

record ('d, 'w) misc_env =
  menv :: scan_env
  mflash :: "'d flash"
  moffset :: nat
  mblock :: "'w block_dev"
  mvolume :: "Volume option"

record ('d, 'w) misc_state =
  mtable :: MtdState
  mdev :: 'd
  mfile :: 'w

definition get_bootloader_message ::
  "('d, 'w) misc_env \<Rightarrow> ('d, 'w) misc_state \<Rightarrow> (bootloader_message option \<times> ('d, 'w) misc_state) option" where
  "get_bootloader_message M s =
     (case mvolume M of
        None \<Rightarrow> Some (None, s)
      | Some v \<Rightarrow>
          if fs_type v = ''mtd'' then do {
            (r, st, d) \<leftarrow> get_bootloader_message_mtd (menv M) (mflash M) v (mtable s) (mdev s);
            Some (r, s\<lparr>mtable := st, mdev := d\<rparr>)}
          else if fs_type v = ''emmc'' then Some (get_bootloader_message_block (moffset M) (mblock M) (mfile s), s)
          else Some (None, s))"

definition set_bootloader_message ::
  "('d, 'w) misc_env \<Rightarrow> bootloader_message \<Rightarrow> ('d, 'w) misc_state \<Rightarrow> (bool \<times> ('d, 'w) misc_state) option" where
  "set_bootloader_message M msg s =
     (case mvolume M of
        None \<Rightarrow> Some (False, s)
      | Some v \<Rightarrow>
          if fs_type v = ''mtd'' then do {
            (ok, st, d, _) \<leftarrow> set_bootloader_message_mtd (menv M) (mflash M) msg v (mtable s) (mdev s);
            Some (ok, s\<lparr>mtable := st, mdev := d\<rparr>)}
          else if fs_type v = ''emmc'' then
            (case set_bootloader_message_block (moffset M) (mblock M) msg (mfile s) of
               (ok, w) \<Rightarrow> Some (ok, s\<lparr>mfile := w\<rparr>))
          else Some (False, s))"

section \<open>Messages as bytes\<close>

lemma length_message_bytes: "message_ok m \<Longrightarrow> length (message_bytes m) = MESSAGE_SIZE"
  by (simp add: message_ok_def message_bytes_def MESSAGE_SIZE_def)

lemma byte_char: "char_of (unat (of_nat (of_char c) :: byte)) = c"
proof -
  have "(of_char c :: nat) < 256" by simp
  then have "unat (of_nat (of_char c) :: byte) = of_char c" by (simp add: unat_of_nat)
  then show ?thesis by simp
qed

lemma message_of_bytes:
  assumes "message_ok m"
  shows "message_of (message_bytes m) = m"
proof -
  have "map (\<lambda>b. char_of (unat b)) (message_bytes m) = command m @ status m @ recovery m @ stage m @ reserved m"
    by (simp only: message_bytes_def list.map_comp comp_def byte_char list.map_id list.map_ident)
  then show ?thesis using assms by (cases m) (simp add: message_of_def message_ok_def Let_def)
qed

section \<open>A message on flash\<close>

lemma misc_pages_cells:
  assumes D: "driver D V es n" and p: "geometry p es n" and l: "lookup E st (blk_device v) = Some (c, Some p, st')"
    and info: "mtd_partition_info D p d = Some (a, b, ws)" and len: "3 * ws \<le> length (cells_from (V d) n 0)"
  obtains d' where "misc_pages E D v st d = Some (Some (p, ws, take (3 * ws) (cells_from (V d) n 0)), st', d')"
proof -
  obtain fd where fd: "fl_open D d (device_index p) = Some fd"
    using info by (auto simp: mtd_partition_info_def elim!: bind_eq_SomeE)
  obtain r where r: "mtd_read_partition D p d = Some r" "read_inv V p es n r 0" "pending V n r 0 = cells_from (V d) n 0"
    by (rule read_partition_pending [OF D p fd])
  have "fetch D p d [3 * ws] = Some [take (3 * ws) (cells_from (V d) n 0)]"
    using fetch_cells [OF D p, of d "[3 * ws]"] fd len by auto
  then obtain r' where "mtd_read_data D r (3 * ws) = Some (Some (take (3 * ws) (cells_from (V d) n 0)), r')"
    by (auto simp: fetch_def r(1) elim!: bind_eq_SomeE split: prod.splits)
  then show thesis
    using that l info r(1) by (simp add: misc_pages_def MISC_PAGES_def mult.commute)
qed

lemma misc_pages_length:
  assumes D: "driver D V es n" and p: "geometry p es n" and l: "lookup E st (blk_device v) = Some (c, Some p, st')"
    and info: "mtd_partition_info D p d = Some (a, b, ws)" and m: "misc_pages E D v st d = Some (Some (q, k, data), st1, d1)"
  shows "q = p" "k = ws" "st1 = st'" "length data = 3 * ws"
proof -
  obtain fd where fd: "fl_open D d (device_index p) = Some fd"
    using info by (auto simp: mtd_partition_info_def elim!: bind_eq_SomeE)
  obtain r where r: "mtd_read_partition D p d = Some r" "read_inv V p es n r 0" "pending V n r 0 = cells_from (V d) n 0"
    by (rule read_partition_pending [OF D p fd])
  have "read_goes_on V p es n (3 * ws) (pending V n r 0) r []" using r(2) by (auto simp: read_goes_on_def)
  from read_data_loop_spec [OF D p this] obtain x r1 where x: "mtd_read_data D r (3 * ws) = Some (x, r1)"
      "read_right V p es n (3 * ws) (pending V n r 0) (x, r1)"
    by (auto simp: mtd_read_data_def)
  have "misc_pages E D v st d = Some (map_option (\<lambda>data. (p, ws, data)) x, st', mtd_read_close D r1)"
    using l info r(1) x(1) by (simp add: misc_pages_def MISC_PAGES_def mult.commute)
  then show "q = p" "k = ws" "st1 = st'" "length data = 3 * ws"
    using m x(2) by (auto simp: read_right_def split: if_splits)
qed

text \<open>A message that was set is the contents of the command page.\<close>

lemma set_mtd_store:
  assumes D: "driver D V es n" and p: "geometry p es n" and l: "lookup E st (blk_device v) = Some (c, Some p, st')"
    and info: "mtd_partition_info D p d = Some (a, b, ws)"
    and set: "set_bootloader_message_mtd E D msg v st d = Some (True, st1, d1, Some ctx)"
  obtains d0 data where "store D p d0 [data] = Some ctx" and "length data = 3 * ws" and "d1 = wfd ctx" and "st1 = st'"
    and "ws + length (message_bytes msg) \<le> 3 * ws" and "segment data ws (length (message_bytes msg)) = message_bytes msg"
proof -
  obtain q k old st2 d2 where m: "misc_pages E D v st d = Some (Some (q, k, old), st2, d2)"
    using set by (auto simp: set_bootloader_message_mtd_def elim!: bind_eq_SomeE split: option.splits)
  note len = misc_pages_length [OF D p l info m]
  obtain data where data: "overwrite_ub old ws (message_bytes msg) = Some data"
    using set m len by (auto simp: set_bootloader_message_mtd_def MISC_COMMAND_PAGE_def elim!: bind_eq_SomeE)
  obtain c0 wrote c1 r where w: "mtd_write_partition D p d2 = Some c0" "mtd_write_data D c0 data = Some (wrote, c1)"
      "mtd_write_close D c1 = Some (r, ctx)" "wrote = int (length data)" "r = 0" "st1 = st'" "d1 = wfd ctx"
    using set m len data
    by (auto simp: set_bootloader_message_mtd_def MISC_COMMAND_PAGE_def elim!: bind_eq_SomeE split: option.splits)
  have "store D p d2 [data] = Some ctx" using w by (simp add: store_def)
  then show thesis
    using that data len w(6,7) by (auto simp: overwrite_ub_def segment_def split: if_splits)
qed

lemma get_after_set_mtd:
  assumes D: "driver D V es n" and p: "geometry p es n" and l: "lookup E st (blk_device v) = Some (c, Some p, st')"
    and info: "mtd_partition_info D p d = Some (a, b, ws)"
    and set: "set_bootloader_message_mtd E D msg v st d = Some (True, st1, d1, Some ctx)"
    and l1: "lookup E st1 (blk_device v) = Some (c', Some p, st'')" and info1: "mtd_partition_info D p d1 = Some (a', b', ws)"
    and rec: "recorded es (V d1) (bad_block_offsets ctx)" and ok: "message_ok msg"
  shows "\<exists>d2. get_bootloader_message_mtd E D v st1 d1 = Some (Some msg, st'', d2)"
proof -
  obtain d0 data where s: "store D p d0 [data] = Some ctx" "length data = 3 * ws" "d1 = wfd ctx" "st1 = st'"
      "ws + length (message_bytes msg) \<le> 3 * ws" "segment data ws (length (message_bytes msg)) = message_bytes msg"
    by (rule set_mtd_store [OF D p l info set])
  have cells: "3 * ws \<le> length (cells_from (V d1) n 0) \<and> take (3 * ws) (cells_from (V d1) n 0) = data"
    using stored_contents [OF D p s(1)] rec s(2,3) by auto
  then obtain d2 where "misc_pages E D v st1 d1 = Some (Some (p, ws, data), st'', d2)"
    using misc_pages_cells [OF D p l1 info1] by auto
  then show ?thesis
    using s(2,5,6) message_of_bytes [OF ok] length_message_bytes [OF ok]
    by (simp add: get_bootloader_message_mtd_def MISC_COMMAND_PAGE_def segment_ub_def)
qed

section \<open>A message on a block device\<close>

text \<open>A block device that works, with contents \<open>C\<close>.\<close>

definition working :: "'w block_dev \<Rightarrow> ('w \<Rightarrow> byte list) \<Rightarrow> bool" where
  "working B C \<longleftrightarrow> (\<forall>w.
     (\<exists>w'. bopen B w = Some w' \<and> C w' = C w) \<and>
     (\<forall>k n. bread B w k n = segment (C w) k n) \<and>
     (\<forall>k bs xs. overwrite_ub (C w) k bs = Some xs \<longrightarrow> (\<exists>w'. bwrite B w k bs = (True, w') \<and> C w' = xs)) \<and>
     (\<exists>w'. bclose B w = (True, w') \<and> C w' = C w))"

lemma workingE:
  assumes "working B C"
  obtains w1 w2 where "bopen B w = Some w1" "C w1 = C w" "bread B w k n = segment (C w) k n" "bclose B w = (True, w2)" "C w2 = C w"
  using assms unfolding working_def by metis

lemma working_write:
  assumes "working B C" and "overwrite_ub (C w) k bs = Some xs"
  obtains w' where "bwrite B w k bs = (True, w')" and "C w' = xs"
  using assms unfolding working_def by metis

lemma get_block_working:
  assumes "working B C" and "off + MESSAGE_SIZE \<le> length (C w)"
  shows "get_bootloader_message_block off B w = Some (message_of (segment (C w) off MESSAGE_SIZE))"
proof -
  obtain w1 where w1: "bopen B w = Some w1" "C w1 = C w" by (rule workingE [OF assms(1)])
  obtain w2 where "bread B w1 off MESSAGE_SIZE = segment (C w1) off MESSAGE_SIZE" "bclose B w1 = (True, w2)"
    by (rule workingE [OF assms(1), of w1 off MESSAGE_SIZE])
  then show ?thesis using w1 assms(2) by (simp add: get_bootloader_message_block_def segment_def)
qed

lemma set_block_working:
  assumes "working B C" and "message_ok m" and "off + MESSAGE_SIZE \<le> length (C w)"
  obtains w' where "set_bootloader_message_block off B m w = (True, w')" and "overwrite_ub (C w) off (message_bytes m) = Some (C w')"
proof -
  obtain w1 where w1: "bopen B w = Some w1" "C w1 = C w" by (rule workingE [OF assms(1)])
  obtain xs where xs: "overwrite_ub (C w) off (message_bytes m) = Some xs"
    using length_message_bytes [OF assms(2)] assms(3) by (simp add: overwrite_ub_def)
  have "overwrite_ub (C w1) off (message_bytes m) = Some xs" using xs w1(2) by simp
  then obtain w2 where w2: "bwrite B w1 off (message_bytes m) = (True, w2)" "C w2 = xs"
    by (rule working_write [OF assms(1)])
  obtain w3 where "bclose B w2 = (True, w3)" "C w3 = C w2" by (rule workingE [OF assms(1), of w2])
  then show thesis using that [of w3] w1 w2 xs by (simp add: set_bootloader_message_block_def)
qed

lemma overwrite_ub_SomeD:
  "overwrite_ub xs k ys = Some zs \<Longrightarrow> segment zs k (length ys) = ys \<and> length zs = length xs"
  by (auto simp: overwrite_ub_def segment_def split: if_splits)

lemma get_after_set_block:
  assumes "working B C" and "message_ok m" and "off + MESSAGE_SIZE \<le> length (C w)"
  obtains w' where "set_bootloader_message_block off B m w = (True, w')" and "get_bootloader_message_block off B w' = Some m"
    and "length (C w') = length (C w)"
proof -
  obtain w' where w': "set_bootloader_message_block off B m w = (True, w')" "overwrite_ub (C w) off (message_bytes m) = Some (C w')"
    by (rule set_block_working [OF assms])
  have "get_bootloader_message_block off B w' = Some m"
    using overwrite_ub_SomeD [OF w'(2)] length_message_bytes [OF assms(2)] message_of_bytes [OF assms(2)] assms(3)
    by (simp add: get_block_working [OF assms(1)])
  then show thesis using that w'(1) overwrite_ub_SomeD [OF w'(2)] by blast
qed

section \<open>Properties\<close>

text \<open>
  C16.  A bootloader message on flash: after \<open>set_bootloader_message_mtd\<close> has reported success, \<open>get_bootloader_message_mtd\<close>
  returns that message, if the driver behaves as documented, the blocks that the writer recorded as bad
  are those that do not read cleanly, and the partition is still found with the same write size.
\<close>

theorem bootloader_message_on_flash:
  assumes "driver D V es n" and "geometry p es n" and "lookup E st (blk_device v) = Some (c, Some p, st')"
    and "mtd_partition_info D p d = Some (a, b, ws)"
    and "set_bootloader_message_mtd E D msg v st d = Some (True, st1, d1, Some ctx)"
    and "lookup E st1 (blk_device v) = Some (c', Some p, st'')" and "mtd_partition_info D p d1 = Some (a', b', ws)"
    and "recorded es (V d1) (bad_block_offsets ctx)" and "message_ok msg"
  shows "\<exists>d2. get_bootloader_message_mtd E D v st1 d1 = Some (Some msg, st'', d2)"
  using assms by (rule get_after_set_mtd)

definition misc_env_1088 :: scan_env where
  "misc_env_1088 = \<lparr>sdup = \<lambda>_. True, stable = True, sproc = Some (proc_mtd [(1, 3264, 1088, ''misc'')])\<rparr>"

definition misc_part :: MtdPartition where
  "misc_part = partition_of (1, 3264, 1088, ''misc'')"

definition misc_nand :: nand where
  "misc_nand = \<lparr>npos = 0, ncell = \<lambda>_. replicate 1088 7, nclean = \<lambda>_. True, nbad = \<lambda>_. False, nfail = 0\<rparr>"

definition misc_volume :: Volume where
  "misc_volume = \<lparr>fs_type = ''mtd'', blk_device = ''misc''\<rparr>"

definition plain_message :: "char \<Rightarrow> bootloader_message" where
  "plain_message c = \<lparr>command = replicate 32 c, status = replicate 32 c, recovery = replicate 768 c,
     stage = replicate 32 c, reserved = replicate 224 c\<rparr>"

lemma plain_message_ok: "message_ok (plain_message c)"
  by (simp add: message_ok_def plain_message_def)

lemma misc_geometry: "geometry misc_part 1088 3"
  by (simp add: geometry_def misc_part_def partition_of_def)

lemma misc_lookup:
  assumes "\<forall>ps. partitions st = Some ps \<longrightarrow> length ps = 32"
  obtains st' where "lookup misc_env_1088 st ''misc'' = Some (1, Some misc_part, st')"
    and "\<forall>ps. partitions st' = Some ps \<longrightarrow> length ps = 32"
proof -
  let ?es = "[(1 :: nat, 3264 :: u32, 1088 :: u32, ''misc'')]"
  have len: "length (proc_mtd ?es) \<le> 2047"
    by (simp add: proc_mtd_def print_entry_def show_nat.simps)
  have st: "partitions st = None \<and> True \<or> (\<exists>ps. partitions st = Some ps \<and> length ps = 32)"
    using assms by (cases "partitions st") auto
  have "\<exists>st'. mtd_scan_partitions (\<lambda>_. True) True (Some (proc_mtd ?es)) st = Some (int (length ?es), st') \<and>
    (\<forall>e \<in> set ?es. mtd_find_partition_by_name st' (snd (snd (snd e))) = Some (partition_of e)) \<and>
    (\<forall>name. name \<notin> (\<lambda>e. snd (snd (snd e))) ` set ?es \<longrightarrow> mtd_find_partition_by_name st' name = None)"
    by (rule scan_format [OF _ _ _ len _ st]) (simp_all add: entry_ok_def quote_def newline_def)
  then obtain st' where st': "mtd_scan_partitions (\<lambda>_. True) True (Some (proc_mtd ?es)) st = Some (1, st')"
      "mtd_find_partition_by_name st' ''misc'' = Some misc_part"
    by (auto simp: misc_part_def)
  have "\<forall>ps. partitions st' = Some ps \<longrightarrow> length ps = 32"
    using scan_keeps_places [OF st'(1) assms] by blast
  then show thesis using that [of st'] st' by (simp add: lookup_def misc_env_1088_def)
qed

lemma sim_info: "mtd_partition_info (sim es stuck) p d = Some (es, es, es)"
  by (simp add: mtd_partition_info_def sim_def)

text \<open>On a device without faults a message can be set.\<close>

lemma misc_set:
  obtains st1 ctx where "set_bootloader_message_mtd misc_env_1088 (sim 1088 (\<lambda>_. False)) (plain_message CHR ''x'') misc_volume g_mtd_state misc_nand =
      Some (True, st1, wfd ctx, Some ctx)"
    and "lookup misc_env_1088 g_mtd_state ''misc'' = Some (1, Some misc_part, st1)"
    and "\<forall>ps. partitions st1 = Some ps \<longrightarrow> length ps = 32"
    and "recorded 1088 (view 1088 (wfd ctx)) (bad_block_offsets ctx)"
proof -
  let ?D = "sim 1088 (\<lambda>_. False)" and ?m = "message_bytes (plain_message CHR ''x'')"
  have "\<forall>ps. partitions g_mtd_state = Some ps \<longrightarrow> length ps = 32" by (simp add: g_mtd_state_def)
  then obtain st1 where st1: "lookup misc_env_1088 g_mtd_state ''misc'' = Some (1, Some misc_part, st1)"
      "\<forall>ps. partitions st1 = Some ps \<longrightarrow> length ps = 32"
    by (rule misc_lookup)
  define d0 where "d0 = misc_nand\<lparr>npos := bpos 1088 3\<rparr>"
  have d0: "nbad d0 = (\<lambda>_. False)" "nclean d0 = (\<lambda>_. True)" by (simp_all add: d0_def misc_nand_def)
  have good: "nbad misc_nand = (\<lambda>_. False)" "nclean misc_nand = (\<lambda>_. True)" by (simp_all add: misc_nand_def)
  obtain r r' where r: "mtd_read_partition ?D misc_part misc_nand = Some r" "rfd r' = d0"
      "mtd_read_data ?D r (3 * 1088) = Some (Some (concat (map (\<lambda>i. fit 1088 (ncell misc_nand i)) [0..<3])), r')"
    unfolding d0_def by (rule sim_fetch_blocks [OF misc_geometry _ _ good, of 3]) simp_all
  have "concat (map (\<lambda>i. fit 1088 (ncell misc_nand i)) [0..<3]) = replicate 3264 7"
    by (simp add: misc_nand_def fit_def numeral_3_eq_3 flip: replicate_add)
  then have pages: "misc_pages misc_env_1088 ?D misc_volume g_mtd_state misc_nand = Some (Some (misc_part, 1088, replicate 3264 7), st1, d0)"
    using st1(1) r sim_info by (simp add: misc_pages_def misc_volume_def MISC_PAGES_def mtd_read_close_def) (simp add: sim_def)
  have m: "length ?m = 1088" using length_message_bytes [OF plain_message_ok] by (simp add: MESSAGE_SIZE_def)
  have bs: "length [replicate 1088 7, ?m, replicate 1088 7] \<le> 3" "\<forall>x \<in> set [replicate 1088 7, ?m, replicate 1088 7]. length x = 1088"
    using m by auto
  obtain ctx where ctx: "store ?D misc_part d0 [concat [replicate 1088 7, ?m, replicate 1088 7]] = Some ctx" "bad_block_offsets ctx = []"
      "nbad (wfd ctx) = (\<lambda>_. False)" "nclean (wfd ctx) = (\<lambda>_. True)"
    by (rule sim_store_blocks [OF misc_geometry bs(1) d0 bs(2)]) simp_all
  have "overwrite_ub (replicate 3264 7) 1088 ?m = Some (concat [replicate 1088 7, ?m, replicate 1088 7])"
    using m by (simp add: overwrite_ub_def)
  then have "set_bootloader_message_mtd misc_env_1088 ?D (plain_message CHR ''x'') misc_volume g_mtd_state misc_nand =
      Some (True, st1, wfd ctx, Some ctx)"
    using ctx(1) pages by (auto simp: set_bootloader_message_mtd_def MISC_COMMAND_PAGE_def store_def elim!: bind_eq_SomeE split: if_splits)
  moreover have "recorded 1088 (view 1088 (wfd ctx)) (bad_block_offsets ctx)"
    using ctx by (simp add: recorded_def good_def view_def)
  ultimately show thesis using that st1 by blast
qed

theorem bootloader_message_on_flash_witness:
  "\<exists>st1 d1 ctx st2 d2. set_bootloader_message_mtd misc_env_1088 (sim 1088 (\<lambda>_. False)) (plain_message CHR ''x'') misc_volume g_mtd_state misc_nand =
      Some (True, st1, d1, Some ctx) \<and>
    get_bootloader_message_mtd misc_env_1088 (sim 1088 (\<lambda>_. False)) misc_volume st1 d1 = Some (Some (plain_message CHR ''x''), st2, d2)"
proof -
  obtain st1 ctx where s: "set_bootloader_message_mtd misc_env_1088 (sim 1088 (\<lambda>_. False)) (plain_message CHR ''x'') misc_volume g_mtd_state misc_nand =
      Some (True, st1, wfd ctx, Some ctx)" "lookup misc_env_1088 g_mtd_state ''misc'' = Some (1, Some misc_part, st1)"
      "\<forall>ps. partitions st1 = Some ps \<longrightarrow> length ps = 32" "recorded 1088 (view 1088 (wfd ctx)) (bad_block_offsets ctx)"
    by (rule misc_set)
  obtain st2 where st2: "lookup misc_env_1088 st1 ''misc'' = Some (1, Some misc_part, st2)" by (rule misc_lookup [OF s(3)])
  have v: "blk_device misc_volume = ''misc''" by (simp add: misc_volume_def)
  have "(0 :: nat) < 1088" by simp
  from bootloader_message_on_flash [OF sim_driver [OF this] misc_geometry s(2) [folded v] sim_info s(1) st2 [folded v] sim_info s(4) plain_message_ok]
  show ?thesis using s(1) by blast
qed

end
