(* ===== verification/Recovery.thy ===== *)
theory Recovery
  imports Bootloader
begin

text \<open>
  The arguments, logs and completion of the recovery program (\<^verbatim>\<open>recovery.c\<close>: \<open>fopen_path\<close>, \<open>get_args\<close>,
  \<open>set_sdcard_update_bootloader_message\<close>, the functions for the logs, \<open>finish_recovery\<close>, \<open>erase_volume\<close>).

  \<^item> The files are a map from paths to contents; permissions and owners are not modelled.
  \<^item> Whether a path can be mounted, opened or removed, the entries of a directory and formatting
    are parameters.  Reading and writing an open file and allocating memory succeed.
  \<^item> The list of arguments starts with the name of the program.
  \<^item> The bootloader message is that of theory \<open>Bootloader\<close>.
\<close>

type_synonym files = "string \<rightharpoonup> string"

record sys =
  mounts :: "string \<Rightarrow> bool"
  opens :: "string \<Rightarrow> bool"
  unlinks :: "string \<Rightarrow> bool"
  entries :: "files \<Rightarrow> string list option"
  formats :: "string \<Rightarrow> files \<Rightarrow> int \<times> files"

record ('d, 'w) rstate =
  misc :: "('d, 'w) misc_state"
  files :: files
  tmplog_offset :: nat

definition CACHE_LOG_DIR :: string where "CACHE_LOG_DIR = ''/cache/recovery''"
definition COMMAND_FILE :: string where "COMMAND_FILE = ''/cache/recovery/command''"
definition INTENT_FILE :: string where "INTENT_FILE = ''/cache/recovery/intent''"
definition LOG_FILE :: string where "LOG_FILE = ''/cache/recovery/log''"
definition LAST_LOG_FILE :: string where "LAST_LOG_FILE = ''/cache/recovery/last_log''"
definition LAST_INSTALL_FILE :: string where "LAST_INSTALL_FILE = ''/cache/recovery/last_install''"
definition CACHE_ROOT :: string where "CACHE_ROOT = ''/cache''"
definition TEMPORARY_LOG_FILE :: string where "TEMPORARY_LOG_FILE = ''/tmp/recovery.log''"
definition TEMPORARY_INSTALL_FILE :: string where "TEMPORARY_INSTALL_FILE = ''/tmp/last_install''"

lemmas paths = CACHE_LOG_DIR_def COMMAND_FILE_def INTENT_FILE_def LOG_FILE_def LAST_LOG_FILE_def LAST_INSTALL_FILE_def
  CACHE_ROOT_def TEMPORARY_LOG_FILE_def TEMPORARY_INSTALL_FILE_def

definition MAX_ARG_LENGTH :: nat where "MAX_ARG_LENGTH = 4096"
definition MAX_ARGS :: nat where "MAX_ARGS = 100"

text \<open>\<open>fopen_path\<close> for reading, for writing and for appending: the contents to read, and the files after opening.\<close>

definition fopen_read :: "sys \<Rightarrow> files \<Rightarrow> string \<Rightarrow> string option" where
  "fopen_read E fs path = (if mounts E path \<and> opens E path then fs path else None)"

definition fopen_write :: "sys \<Rightarrow> files \<Rightarrow> string \<Rightarrow> files option" where
  "fopen_write E fs path = (if mounts E path \<and> opens E path then Some (fs(path \<mapsto> [])) else None)"

definition fopen_append :: "sys \<Rightarrow> files \<Rightarrow> string \<Rightarrow> files option" where
  "fopen_append E fs path =
     (if mounts E path \<and> opens E path then Some (fs(path \<mapsto> (case fs path of None \<Rightarrow> [] | Some x \<Rightarrow> x))) else None)"

text \<open>Writing to a file that is open.\<close>

definition fputs :: "string \<Rightarrow> string \<Rightarrow> files \<Rightarrow> files" where
  "fputs path s fs = fs(path := map_option (\<lambda>x. x @ s) (fs path))"

section \<open>Arguments\<close>

text \<open>The remaining arguments of a boot message, at most \<open>k\<close>, and the array that \<open>strtok\<close> leaves.\<close>

fun boot_args :: "nat \<Rightarrow> string \<Rightarrow> nat \<Rightarrow> string list \<times> string" where
  "boot_args 0 buf p = ([], buf)"
| "boot_args (Suc k) buf p =
     (case strtok_at [newline] buf p of
        None \<Rightarrow> ([], buf)
      | Some (arg, buf, q) \<Rightarrow> (case boot_args k buf q of (args, buf) \<Rightarrow> (arg # args, buf)))"

definition args_from_message :: "bootloader_message \<Rightarrow> string list option \<times> bootloader_message" where
  "args_from_message boot =
     (let buf = (recovery boot)[length (recovery boot) - 1 := CHR 0x00] in
      case strtok_at [newline] buf 0 of
        None \<Rightarrow> (None, boot\<lparr>recovery := buf\<rparr>)
      | Some (arg, buf, q) \<Rightarrow>
          if arg = ''recovery'' then
            (case boot_args (MAX_ARGS - 1) buf q of (args, buf) \<Rightarrow> (Some (arg # args), boot\<lparr>recovery := buf\<rparr>))
          else (None, boot\<lparr>recovery := buf\<rparr>))"

text \<open>The arguments in a command file, at most \<open>k\<close>; blank lines are not counted.\<close>

function args_from_file :: "nat \<Rightarrow> string \<Rightarrow> string list" where
  "args_from_file k text =
     (if k = 0 then [] else
      case fgets MAX_ARG_LENGTH text of
        None \<Rightarrow> []
      | Some (buf, rest) \<Rightarrow>
          (case strtok [CHR 0x0D, newline] (c_string buf) of
             None \<Rightarrow> args_from_file k rest
           | Some (token, _) \<Rightarrow> token # args_from_file (k - 1) rest))"
  by pat_completeness auto
termination
  by (relation "measure (\<lambda>(k, text). length text)") (auto simp: MAX_ARG_LENGTH_def dest: fgets_less)

declare args_from_file.simps [simp del]

definition zero_message :: bootloader_message where
  "zero_message = \<lparr>command = replicate 32 CHR 0x00, status = replicate 32 CHR 0x00, recovery = replicate 768 CHR 0x00,
     stage = replicate 32 CHR 0x00, reserved = replicate 224 CHR 0x00\<rparr>"

text \<open>The message that makes the bootloader start recovery again with these arguments.\<close>

definition restart_message :: "string list \<Rightarrow> bootloader_message \<Rightarrow> bootloader_message" where
  "restart_message args boot =
     boot\<lparr>command := strlcpy (command boot) ''boot-recovery'',
       recovery := foldl (\<lambda>buf arg. strlcat (strlcat buf arg) [newline])
         (strlcpy (recovery boot) (''recovery'' @ [newline])) args\<rparr>"

definition file_found_ignore :: "files \<Rightarrow> bool" where
  "file_found_ignore fs \<longleftrightarrow> fs ''/tmp/.ignorebootmessage'' \<noteq> None"

text \<open>The arguments, from the command line, the message or the command file, and the message that \<open>strtok\<close> leaves.\<close>

definition chosen_args :: "sys \<Rightarrow> files \<Rightarrow> bootloader_message \<Rightarrow> string list \<Rightarrow> string list \<times> bootloader_message" where
  "chosen_args E fs boot argv =
     (let (argv, boot) =
       (if length argv \<le> 1 \<and> \<not> file_found_ignore fs
        then (case args_from_message boot of (as, boot) \<Rightarrow> (case as of None \<Rightarrow> argv | Some as \<Rightarrow> as, boot))
        else (argv, boot))
      in (if length argv \<le> 1
          then (case fopen_read E fs COMMAND_FILE of
                  None \<Rightarrow> argv
                | Some text \<Rightarrow> take 1 argv @ args_from_file (MAX_ARGS - 1) text)
          else argv, boot))"

text \<open>The arguments with the name of the program first, and the stage.\<close>

definition get_args ::
  "sys \<Rightarrow> ('d, 'w) misc_env \<Rightarrow> string list \<Rightarrow> ('d, 'w) rstate \<Rightarrow> (string list \<times> string \<times> ('d, 'w) rstate) option" where
  "get_args E M argv s = do {
     (r, m) \<leftarrow> get_bootloader_message M (misc s);
     let boot = (case r of None \<Rightarrow> zero_message | Some b \<Rightarrow> b);
     let stage = c_string (stage boot);
     let (argv, boot) = chosen_args E (files s) boot argv;
     (_, m) \<leftarrow> set_bootloader_message M (restart_message (tl argv) boot) m;
     Some (argv, stage, s\<lparr>misc := m\<rparr>)}"


section \<open>The updater and the message\<close>




section \<open>Logs\<close>

text \<open>Lines are copied with \<open>fgets\<close> and \<open>fputs\<close>.\<close>

function copy_lines :: "string \<Rightarrow> string" where
  "copy_lines text =
     (case fgets 4096 text of
        None \<Rightarrow> []
      | Some (buf, rest) \<Rightarrow> c_string buf @ copy_lines rest)"
  by pat_completeness auto
termination
  by (relation "measure length") (auto dest: fgets_less)

declare copy_lines.simps [simp del]

definition copy_log_file ::
  "sys \<Rightarrow> string \<Rightarrow> string \<Rightarrow> bool \<Rightarrow> ('d, 'w) rstate \<Rightarrow> ('d, 'w) rstate" where
  "copy_log_file E source destination appending s =
     (case (if appending then fopen_append else fopen_write) E (files s) destination of
        None \<Rightarrow> s
      | Some fs \<Rightarrow>
          (case (if opens E source then fs source else None) of
             None \<Rightarrow> s\<lparr>files := fs\<rparr>
           | Some tmplog \<Rightarrow>
               if appending then
                 s\<lparr>files := fputs destination (copy_lines (drop (tmplog_offset s) tmplog)) fs,
                   tmplog_offset := max (tmplog_offset s) (length tmplog)\<rparr>
               else s\<lparr>files := fputs destination (copy_lines tmplog) fs\<rparr>))"

definition last_log :: "nat \<Rightarrow> string" where
  "last_log i = (if i = 0 then LAST_LOG_FILE else LAST_LOG_FILE @ ''.'' @ show_nat i)"

definition rename_file :: "string \<Rightarrow> string \<Rightarrow> files \<Rightarrow> files" where
  "rename_file old new fs = (if fs old = None then fs else fs(new := fs old, old := None))"

fun rotate_last_logs :: "nat \<Rightarrow> files \<Rightarrow> files" where
  "rotate_last_logs 0 fs = fs"
| "rotate_last_logs (Suc i) fs = rotate_last_logs i (rename_file (last_log i) (last_log (Suc i)) fs)"

definition copy_logs :: "sys \<Rightarrow> ('d, 'w) rstate \<Rightarrow> ('d, 'w) rstate" where
  "copy_logs E s =
     copy_log_file E TEMPORARY_INSTALL_FILE LAST_INSTALL_FILE False
       (copy_log_file E TEMPORARY_LOG_FILE LAST_LOG_FILE False
         (copy_log_file E TEMPORARY_LOG_FILE LOG_FILE True s))"

section \<open>Completion\<close>

definition write_intent :: "sys \<Rightarrow> string option \<Rightarrow> files \<Rightarrow> files" where
  "write_intent E send_intent fs =
     (case send_intent of
        None \<Rightarrow> fs
      | Some text \<Rightarrow> (case fopen_write E fs INTENT_FILE of None \<Rightarrow> fs | Some fs \<Rightarrow> fputs INTENT_FILE text fs))"

definition finish_recovery ::
  "sys \<Rightarrow> ('d, 'w) misc_env \<Rightarrow> string option \<Rightarrow> ('d, 'w) rstate \<Rightarrow> ('d, 'w) rstate option" where
  "finish_recovery E M send_intent s = do {
     let s = copy_logs E (s\<lparr>files := write_intent E send_intent (files s)\<rparr>);
     (_, m) \<leftarrow> set_bootloader_message M zero_message (misc s);
     let fs = (if mounts E COMMAND_FILE \<and> unlinks E COMMAND_FILE then (files s)(COMMAND_FILE := None) else files s);
     Some (s\<lparr>misc := m, files := fs\<rparr>)}"

text \<open>The logs that are kept while the cache is formatted; the inner \<open>None\<close> is \<open>fread\<close> on a NULL stream.\<close>

fun save_logs :: "sys \<Rightarrow> files \<Rightarrow> string list \<Rightarrow> (string \<times> string) list \<Rightarrow> (string \<times> string) list ub" where
  "save_logs E fs [] head = Some head"
| "save_logs E fs (name # names) head =
     (if take 4 name \<noteq> ''last'' then save_logs E fs names head
      else let path = CACHE_LOG_DIR @ ''/'' @ name in
        case fs path of
          None \<Rightarrow> save_logs E fs names head
        | Some text \<Rightarrow>
            if opens E path then save_logs E fs names ((path, take (2 ^ 19) text) # head) else None)"

definition restore_log :: "sys \<Rightarrow> string \<times> string \<Rightarrow> files \<Rightarrow> files" where
  "restore_log E p fs =
     (case fopen_write E fs (fst p) of None \<Rightarrow> fs | Some fs \<Rightarrow> fputs (fst p) (snd p) fs)"

definition erase_volume :: "sys \<Rightarrow> string \<Rightarrow> ('d, 'w) rstate \<Rightarrow> (int \<times> ('d, 'w) rstate) ub" where
  "erase_volume E volume s = do {
     let is_cache = (volume = CACHE_ROOT);
     head \<leftarrow> (if is_cache
        then (case entries E (files s) of None \<Rightarrow> Some [] | Some names \<Rightarrow> save_logs E (files s) names [])
        else Some []);
     let (result, fs) = formats E volume (files s);
     if is_cache
     then Some (result, copy_logs E (s\<lparr>files := fold (restore_log E) head fs, tmplog_offset := 0\<rparr>))
     else Some (result, s\<lparr>files := fs\<rparr>)}"

section \<open>The message carries the arguments\<close>

definition arg_lines :: "string list \<Rightarrow> string" where
  "arg_lines args = concat (map (\<lambda>a. a @ [newline]) args)"



lemma arg_lines_simps [simp]: "arg_lines [] = []" "arg_lines (a # as) = a @ newline # arg_lines as"
  by (simp_all add: arg_lines_def)

lemma no_nul_newline [simp]: "no_nul [newline]"
  by (simp add: no_nul_def newline_def)


lemma length_append_args [simp]:
  "length (foldl (\<lambda>buf arg. strlcat (strlcat buf arg) [newline]) buf args) = length buf"
  by (induction args arbitrary: buf) auto

lemma restart_message_ok: "message_ok boot \<Longrightarrow> message_ok (restart_message args boot)"
  by (simp add: message_ok_def restart_message_def)



lemma length_boot_args: "length (snd (boot_args k buf p)) = length buf"
  by (induction k buf p rule: boot_args.induct) (auto split: option.splits prod.splits dest: length_strtok_at)

lemma args_from_message_ok: "message_ok boot \<Longrightarrow> message_ok (snd (args_from_message boot))"
  using length_boot_args
  by (auto simp: args_from_message_def message_ok_def Let_def dest!: length_strtok_at split: option.splits prod.splits)
     (metis length_list_update snd_conv)+

lemma c_string_last:
  assumes "length (c_string buf) < length buf"
  shows "c_string (buf[length buf - 1 := CHR 0x00]) = c_string buf"
proof -
  let ?s = "c_string buf" and ?r = "drop (length (c_string buf) + 1) buf"
  have "(xs @ CHR 0x00 # ys)[length (xs @ CHR 0x00 # ys) - 1 := CHR 0x00] = xs @ CHR 0x00 # ys[length ys - 1 := CHR 0x00]" for xs ys
    by (cases ys) (simp_all add: list_update_append)
  from this [of ?s ?r]
  have "c_string ((?s @ CHR 0x00 # ?r)[length (?s @ CHR 0x00 # ?r) - 1 := CHR 0x00]) = ?s"
    using c_string_terminated [OF c_string_no_nul] by simp
  then show ?thesis using c_string_split [OF assms] by metis
qed


section \<open>Messages on a block device that works\<close>

definition on_block :: "('d, 'w) misc_env \<Rightarrow> ('w \<Rightarrow> byte list) \<Rightarrow> bool" where
  "on_block M C \<longleftrightarrow> (\<exists>v. mvolume M = Some v \<and> fs_type v = ''emmc'') \<and> working (mblock M) C"

definition room :: "('d, 'w) misc_env \<Rightarrow> ('w \<Rightarrow> byte list) \<Rightarrow> ('d, 'w) misc_state \<Rightarrow> bool" where
  "room M C m \<longleftrightarrow> moffset M + MESSAGE_SIZE \<le> length (C (mfile m))"

definition stored_message :: "('d, 'w) misc_env \<Rightarrow> ('w \<Rightarrow> byte list) \<Rightarrow> ('d, 'w) misc_state \<Rightarrow> bootloader_message" where
  "stored_message M C m = message_of (segment (C (mfile m)) (moffset M) MESSAGE_SIZE)"

lemma get_on_block:
  assumes "on_block M C" and "room M C m"
  shows "get_bootloader_message M m = Some (Some (stored_message M C m), m)"
proof -
  obtain v where "mvolume M = Some v" "fs_type v = ''emmc''" "working (mblock M) C" using assms(1) by (auto simp: on_block_def)
  then show ?thesis
    using assms(2) get_block_working [of "mblock M" C "moffset M" "mfile m"]
    by (simp add: get_bootloader_message_def room_def stored_message_def)
qed

lemma set_on_block:
  assumes "on_block M C" and "room M C m" and "message_ok b"
  obtains m' where "set_bootloader_message M b m = Some (True, m')" and "room M C m'" and "stored_message M C m' = b"
proof -
  obtain v where v: "mvolume M = Some v" "fs_type v = ''emmc''" "working (mblock M) C" using assms(1) by (auto simp: on_block_def)
  obtain w where w: "set_bootloader_message_block (moffset M) (mblock M) b (mfile m) = (True, w)"
      "overwrite_ub (C (mfile m)) (moffset M) (message_bytes b) = Some (C w)"
    by (rule set_block_working [OF v(3) assms(3)]) (use assms(2) in \<open>simp add: room_def\<close>)
  have "stored_message M C (m\<lparr>mfile := w\<rparr>) = b" "room M C (m\<lparr>mfile := w\<rparr>)"
    using overwrite_ub_SomeD [OF w(2)] length_message_bytes [OF assms(3)] message_of_bytes [OF assms(3)] assms(2)
    by (simp_all add: stored_message_def room_def)
  moreover have "set_bootloader_message M b m = Some (True, m\<lparr>mfile := w\<rparr>)"
    using v w(1) by (simp add: set_bootloader_message_def)
  ultimately show thesis using that by blast
qed

lemma stored_message_ok: "room M C m \<Longrightarrow> message_ok (stored_message M C m)"
  by (simp add: room_def stored_message_def message_ok_def message_of_def Let_def segment_def MESSAGE_SIZE_def)

lemma get_args_on_block:
  assumes "on_block M C" and "room M C (misc s)"
  obtains m where "get_args E M argv s =
      Some (fst (chosen_args E (files s) (stored_message M C (misc s)) argv), c_string (stage (stored_message M C (misc s))), s\<lparr>misc := m\<rparr>)"
    and "room M C m" and "stored_message M C m =
      restart_message (tl (fst (chosen_args E (files s) (stored_message M C (misc s)) argv)))
        (snd (chosen_args E (files s) (stored_message M C (misc s)) argv))"
    and "message_ok (snd (chosen_args E (files s) (stored_message M C (misc s)) argv))"
proof -
  let ?c = "chosen_args E (files s) (stored_message M C (misc s)) argv"
  have ok: "message_ok (snd ?c)"
    using stored_message_ok [OF assms(2)] args_from_message_ok [OF stored_message_ok [OF assms(2)]]
    by (auto simp: chosen_args_def Let_def split: prod.splits)
  obtain m where m: "set_bootloader_message M (restart_message (tl (fst ?c)) (snd ?c)) (misc s) = Some (True, m)"
      "room M C m" "stored_message M C m = restart_message (tl (fst ?c)) (snd ?c)"
    by (rule set_on_block [OF assms restart_message_ok [OF ok]])
  have "get_args E M argv s = do {
      (_, m) \<leftarrow> set_bootloader_message M (restart_message (tl (fst ?c)) (snd ?c)) (misc s);
      Some (fst ?c, c_string (stage (stored_message M C (misc s))), s\<lparr>misc := m\<rparr>)}"
    by (simp add: get_args_def get_on_block [OF assms] Let_def case_prod_unfold)
  then show thesis using that [of m] m ok by simp
qed






lemma args_from_message_none:
  assumes "message_ok boot" and "c_string (recovery boot) = []"
  shows "fst (args_from_message boot) = None"
  using assms c_string_last [of "recovery boot"]
  by (simp add: args_from_message_def message_ok_def Let_def strtok_at_end)


section \<open>Runs of the recovery\<close>


















section \<open>Logs\<close>

lemma copy_lines_no_nul: "no_nul str \<Longrightarrow> copy_lines str = str"
proof (induction str rule: copy_lines.induct)
  case (1 str)
  show ?case
  proof (cases "fgets 4096 str")
    case None
    then show ?thesis by (subst copy_lines.simps) (simp add: fgets_def Let_def split: if_splits)
  next
    case (Some p)
    obtain buf rest where p: "p = (buf, rest)" by (cases p)
    then have "str = buf @ rest" using Some by (auto simp: fgets_def Let_def split: if_splits)
    then have "no_nul buf" "no_nul rest" using 1(2) by auto
    then show ?thesis
      using Some p 1(1) [OF Some p [symmetric]] \<open>str = buf @ rest\<close> c_string_id by (subst copy_lines.simps) simp
  qed
qed

text \<open>Copying touches only the destination.\<close>

lemma copy_log_file_other: "path \<noteq> dst \<Longrightarrow> files (copy_log_file E src dst appending s) path = files s path"
  by (auto simp: copy_log_file_def fopen_append_def fopen_write_def fputs_def split: option.splits)

lemma copy_log_file_misc [simp]: "misc (copy_log_file E src dst appending s) = misc s"
  by (auto simp: copy_log_file_def split: option.splits)

lemma copy_logs_misc [simp]: "misc (copy_logs E s) = misc s"
  by (simp add: copy_logs_def)

lemma copy_logs_other:
  "path \<notin> {LOG_FILE, LAST_LOG_FILE, LAST_INSTALL_FILE} \<Longrightarrow> files (copy_logs E s) path = files s path"
  by (simp add: copy_logs_def copy_log_file_other)

lemma copy_log_file_append:
  assumes "mounts E dst" "opens E dst" "opens E src" and "files s src = Some text" and "no_nul text" and "src \<noteq> dst"
  shows "files (copy_log_file E src dst True s) dst =
      Some ((case files s dst of None \<Rightarrow> [] | Some l \<Rightarrow> l) @ drop (tmplog_offset s) text)"
    and "tmplog_offset (copy_log_file E src dst True s) = max (tmplog_offset s) (length text)"
proof -
  have "no_nul (drop (tmplog_offset s) text)" using assms(5) by (auto simp: no_nul_def dest: in_set_dropD)
  then show "files (copy_log_file E src dst True s) dst =
      Some ((case files s dst of None \<Rightarrow> [] | Some l \<Rightarrow> l) @ drop (tmplog_offset s) text)"
    "tmplog_offset (copy_log_file E src dst True s) = max (tmplog_offset s) (length text)"
    using assms by (simp_all add: copy_log_file_def fopen_append_def fputs_def copy_lines_no_nul)
qed

lemma copy_log_file_write:
  assumes "mounts E dst" "opens E dst" "opens E src" and "files s src = Some text" and "no_nul text" and "src \<noteq> dst"
  shows "files (copy_log_file E src dst False s) dst = Some text"
    and "tmplog_offset (copy_log_file E src dst False s) = tmplog_offset s"
  using assms by (simp_all add: copy_log_file_def fopen_write_def fputs_def copy_lines_no_nul)

lemma copy_log_file_offset [simp]: "tmplog_offset (copy_log_file E src dst False s) = tmplog_offset s"
  by (auto simp: copy_log_file_def split: option.splits)

lemma copy_logs_appends:
  assumes "\<forall>path. mounts E path \<and> opens E path" and "files s TEMPORARY_LOG_FILE = Some text" and "no_nul text"
  shows "files (copy_logs E s) LOG_FILE = Some ((case files s LOG_FILE of None \<Rightarrow> [] | Some l \<Rightarrow> l) @ drop (tmplog_offset s) text)"
    and "files (copy_logs E s) LAST_LOG_FILE = Some text"
    and "tmplog_offset (copy_logs E s) = max (tmplog_offset s) (length text)"
    and "files (copy_logs E s) TEMPORARY_LOG_FILE = Some text"
proof -
  let ?s1 = "copy_log_file E TEMPORARY_LOG_FILE LOG_FILE True s"
  have ne: "TEMPORARY_LOG_FILE \<noteq> LOG_FILE" "TEMPORARY_LOG_FILE \<noteq> LAST_LOG_FILE" "LOG_FILE \<noteq> LAST_LOG_FILE" "LOG_FILE \<noteq> LAST_INSTALL_FILE"
      "LAST_LOG_FILE \<noteq> LAST_INSTALL_FILE" "TEMPORARY_LOG_FILE \<noteq> LAST_INSTALL_FILE"
    by (simp_all add: paths)
  have s1: "files ?s1 LOG_FILE = Some ((case files s LOG_FILE of None \<Rightarrow> [] | Some l \<Rightarrow> l) @ drop (tmplog_offset s) text)"
      "tmplog_offset ?s1 = max (tmplog_offset s) (length text)" "files ?s1 TEMPORARY_LOG_FILE = Some text"
    using copy_log_file_append [OF _ _ _ assms(2,3) ne(1)] assms(1,2) ne(1) by (simp_all add: copy_log_file_other)
  have "files (copy_log_file E TEMPORARY_LOG_FILE LAST_LOG_FILE False ?s1) LAST_LOG_FILE = Some text"
    using copy_log_file_write [OF _ _ _ s1(3) assms(3) ne(2)] assms(1) by simp
  then show "files (copy_logs E s) LOG_FILE = Some ((case files s LOG_FILE of None \<Rightarrow> [] | Some l \<Rightarrow> l) @ drop (tmplog_offset s) text)"
    "files (copy_logs E s) LAST_LOG_FILE = Some text"
    "tmplog_offset (copy_logs E s) = max (tmplog_offset s) (length text)"
    "files (copy_logs E s) TEMPORARY_LOG_FILE = Some text"
    using s1 ne by (simp_all add: copy_logs_def copy_log_file_other)
qed

lemma show_nat_inj: "show_nat m = show_nat n \<longleftrightarrow> m = n"
  by (metis digits_val_show_nat)

lemma last_log_inj [simp]: "last_log i = last_log j \<longleftrightarrow> i = j"
  by (auto simp: last_log_def show_nat_inj)

lemma rotate_logs:
  "rotate_last_logs n fs (last_log j) =
     (if j = 0 then (if n = 0 then fs (last_log 0) else None)
      else if j \<le> n then (case fs (last_log (j - 1)) of Some x \<Rightarrow> Some x | None \<Rightarrow> if j = n then fs (last_log n) else None)
      else fs (last_log j))"
proof (induction n arbitrary: fs)
  case (Suc n)
  show ?case
    by (cases "fs (last_log n)") (auto simp: Suc rename_file_def split: option.splits)
qed simp

lemma rotate_logs_other: "\<forall>j. path \<noteq> last_log j \<Longrightarrow> rotate_last_logs n fs path = fs path"
  by (induction n arbitrary: fs) (auto simp: rename_file_def)

section \<open>Formatting the cache keeps the logs\<close>

lemma save_logs_collects:
  "\<forall>path. opens E path \<Longrightarrow> save_logs E fs names head =
    Some (rev (map (\<lambda>n. (CACHE_LOG_DIR @ ''/'' @ n, take (2 ^ 19) (the (fs (CACHE_LOG_DIR @ ''/'' @ n)))))
      (filter (\<lambda>n. take 4 n = ''last'' \<and> fs (CACHE_LOG_DIR @ ''/'' @ n) \<noteq> None) names)) @ head)"
  by (induction names arbitrary: head) (auto simp: Let_def split: option.splits)

lemma restore_logs:
  assumes "\<forall>path. mounts E path \<and> opens E path"
  shows "distinct (map fst head) \<Longrightarrow> fold (restore_log E) head fs path = (case map_of head path of Some d \<Rightarrow> Some d | None \<Rightarrow> fs path)"
proof (induction head arbitrary: fs)
  case (Cons p head)
  have "restore_log E p fs = fs(fst p \<mapsto> snd p)"
    using assms by (simp add: restore_log_def fopen_write_def fputs_def)
  moreover have "map_of head (fst p) = None" using Cons.prems by (simp add: map_of_eq_None_iff)
  ultimately show ?case using Cons by (cases p) (auto split: option.splits)
qed simp

section \<open>A device that works\<close>

text \<open>A block device whose state is its contents.\<close>

definition plain_block :: "byte list block_dev" where
  "plain_block = \<lparr>bopen = Some, bread = segment,
     bwrite = \<lambda>w k bs. (case overwrite_ub w k bs of None \<Rightarrow> (False, w) | Some w \<Rightarrow> (True, w)), bclose = Pair True\<rparr>"

definition block_env :: "(nand, byte list) misc_env" where
  "block_env = \<lparr>menv = misc_env_1088, mflash = sim 2 (\<lambda>_. False), moffset = 0, mblock = plain_block,
     mvolume = Some \<lparr>fs_type = ''emmc'', blk_device = ''/dev/block/misc''\<rparr>\<rparr>"

definition all_works :: sys where
  "all_works = \<lparr>mounts = \<lambda>_. True, opens = \<lambda>_. True, unlinks = \<lambda>_. True, entries = \<lambda>_. Some [], formats = \<lambda>_ fs. (0, \<lambda>_. None)\<rparr>"

definition wiping :: "(nand, byte list) rstate" where
  "wiping = \<lparr>misc = \<lparr>mtable = g_mtd_state, mdev = misc_nand, mfile = replicate 2048 0\<rparr>,
     files = [COMMAND_FILE \<mapsto> ''--wipe_data'' @ [newline]], tmplog_offset = 0\<rparr>"

lemma working_plain: "working plain_block id"
  by (auto simp: working_def plain_block_def)

lemma on_block_env: "on_block block_env id"
  by (simp add: on_block_def block_env_def working_plain)

lemma wiping_room: "room block_env id (misc wiping)"
  by (simp add: room_def block_env_def wiping_def MESSAGE_SIZE_def)


section \<open>Properties\<close>





text \<open>
  C22.  Completion ends the cycle: on a device that works \<open>finish_recovery\<close> clears the message and removes the command
  file, and a later start of the recovery, with no new command file, has no arguments.
\<close>

theorem finish_recovery_ends:
  assumes "on_block M C" and "room M C (misc s)" and "mounts E COMMAND_FILE" and "unlinks E COMMAND_FILE"
  shows "\<exists>s'. finish_recovery E M send_intent s = Some s' \<and> stored_message M C (misc s') = zero_message \<and> files s' COMMAND_FILE = None \<and>
    (\<forall>s2 prog. misc s2 = misc s' \<and> files s2 COMMAND_FILE = None \<longrightarrow> (\<exists>st s3. get_args E M [prog] s2 = Some ([prog], st, s3)))"
proof -
  let ?s = "copy_logs E (s\<lparr>files := write_intent E send_intent (files s)\<rparr>)"
  have zero: "message_ok zero_message" "c_string (recovery zero_message) = []"
    by (simp_all add: zero_message_def message_ok_def c_string_def)
  obtain m where m: "set_bootloader_message M zero_message (misc s) = Some (True, m)" "room M C m" "stored_message M C m = zero_message"
    by (rule set_on_block [OF assms(1,2) zero(1)])
  have again: "\<exists>st s3. get_args E M [prog] s2 = Some ([prog], st, s3)" if s2: "misc s2 = m" "files s2 COMMAND_FILE = None" for s2 prog
  proof -
    have "room M C (misc s2)" using m(2) s2(1) by simp
    moreover have "fst (chosen_args E (files s2) (stored_message M C (misc s2)) [prog]) = [prog]"
      using args_from_message_none [OF zero] s2 m(3) by (simp add: chosen_args_def Let_def case_prod_unfold fopen_read_def)
    ultimately show ?thesis using get_args_on_block [OF assms(1), of s2 E "[prog]"] by metis
  qed
  have "finish_recovery E M send_intent s = Some (?s\<lparr>misc := m, files := (files ?s)(COMMAND_FILE := None)\<rparr>)"
    using m(1) assms(3,4) by (simp add: finish_recovery_def Let_def)
  then show ?thesis using m(3) again by (intro exI conjI) (assumption, simp_all)
qed

theorem finish_recovery_ends_witness:
  "\<exists>s' st s3. finish_recovery all_works block_env None wiping = Some s' \<and>
    get_args all_works block_env [''/sbin/recovery''] s' = Some ([''/sbin/recovery''], st, s3)"
proof -
  have w: "mounts all_works COMMAND_FILE" "unlinks all_works COMMAND_FILE" by (simp_all add: all_works_def)
  obtain s' where "finish_recovery all_works block_env None wiping = Some s'" "files s' COMMAND_FILE = None"
      "\<forall>s2 prog. misc s2 = misc s' \<and> files s2 COMMAND_FILE = None \<longrightarrow> (\<exists>st s3. get_args all_works block_env [prog] s2 = Some ([prog], st, s3))"
    using finish_recovery_ends [OF on_block_env wiping_room w, of None] by (elim exE conjE) (rule that)
  then show ?thesis by blast
qed

text \<open>
  C28.  Formatting the cache keeps the logs: every file in the log directory whose name starts with \<open>last\<close> is restored with
  its first 512 KiB, except the last log and the last install, which are written anew, and the
  combined log then holds the complete log of this run.
\<close>

theorem erase_cache_keeps_logs:
  assumes "\<forall>path. mounts E path \<and> opens E path" and "entries E (files s) = Some names" and "distinct names"
    and "formats E CACHE_ROOT (files s) = (r, fs)" and "fs TEMPORARY_LOG_FILE = Some text" and "no_nul text" and "fs LOG_FILE = None"
  shows "\<exists>s'. erase_volume E CACHE_ROOT s = Some (r, s') \<and> files s' LOG_FILE = Some text \<and> files s' LAST_LOG_FILE = Some text \<and>
    tmplog_offset s' = length text \<and>
    (\<forall>name \<in> set names. \<forall>old. take 4 name = ''last'' \<and> name \<notin> {''last_log'', ''last_install''} \<and> files s (CACHE_LOG_DIR @ ''/'' @ name) = Some old \<longrightarrow>
      files s' (CACHE_LOG_DIR @ ''/'' @ name) = Some (take (2 ^ 19) old))"
proof -
  let ?p = "\<lambda>n. CACHE_LOG_DIR @ ''/'' @ n"
  let ?kept = "filter (\<lambda>n. take 4 n = ''last'' \<and> files s (?p n) \<noteq> None) names"
  let ?head = "rev (map (\<lambda>n. (?p n, take (2 ^ 19) (the (files s (?p n))))) ?kept)"
  let ?s = "s\<lparr>files := fold (restore_log E) ?head fs, tmplog_offset := 0\<rparr>"
  have "save_logs E (files s) names [] = Some ?head" using save_logs_collects [of E "files s" names "[]"] assms(1) by simp
  then have er: "erase_volume E CACHE_ROOT s = Some (r, copy_logs E ?s)"
    using assms(2,4) by (simp add: erase_volume_def)
  have fst: "map fst ?head = rev (map ?p ?kept)" by (simp add: rev_map comp_def)
  have dist: "distinct (map fst ?head)" using assms(3) unfolding fst by (simp add: distinct_map inj_on_def)
  have out: "map_of ?head path = None" if "\<forall>n \<in> set names. take 4 n = ''last'' \<longrightarrow> path \<noteq> ?p n" for path
    using that by (auto simp: map_of_eq_None_iff)
  have "map_of ?head TEMPORARY_LOG_FILE = None" "map_of ?head LOG_FILE = None" by (rule out; auto simp: paths)+
  then have fs: "files ?s TEMPORARY_LOG_FILE = Some text" "files ?s LOG_FILE = None"
    using restore_logs [OF assms(1) dist] assms(5,7) by simp_all
  have kept: "files (copy_logs E ?s) (?p n) = Some (take (2 ^ 19) old)"
    if n: "n \<in> set names" "take 4 n = ''last''" "n \<notin> {''last_log'', ''last_install''}" "files s (?p n) = Some old" for n old
  proof -
    have "(?p n, take (2 ^ 19) old) \<in> set ?head" using n by (auto intro!: rev_image_eqI)
    then have "map_of ?head (?p n) = Some (take (2 ^ 19) old)" by (rule map_of_is_SomeI [OF dist])
    then have "files ?s (?p n) = Some (take (2 ^ 19) old)" using restore_logs [OF assms(1) dist] by simp
    moreover have "?p n \<notin> {LOG_FILE, LAST_LOG_FILE, LAST_INSTALL_FILE}" using n(2,3) by (auto simp: paths)
    ultimately show ?thesis by (intro trans [OF copy_logs_other])
  qed
  show ?thesis
    using copy_logs_appends [OF assms(1) fs(1) assms(6)] fs(2) er kept by (intro exI conjI) (assumption, auto)
qed

theorem erase_cache_keeps_logs_witness:
  "\<exists>s'. erase_volume (all_works\<lparr>entries := \<lambda>_. Some [''last_kmsg'', ''command''], formats := \<lambda>_ fs. (0, [TEMPORARY_LOG_FILE \<mapsto> ''new''])\<rparr>) CACHE_ROOT
      (wiping\<lparr>files := [''/cache/recovery/last_kmsg'' \<mapsto> ''old'']\<rparr>) = Some (0, s') \<and>
    files s' LOG_FILE = Some ''new'' \<and> files s' ''/cache/recovery/last_kmsg'' = Some ''old''"
proof -
  let ?E = "all_works\<lparr>entries := \<lambda>_. Some [''last_kmsg'', ''command''], formats := \<lambda>_ fs. (0, [TEMPORARY_LOG_FILE \<mapsto> ''new''])\<rparr>"
  let ?s = "wiping\<lparr>files := [''/cache/recovery/last_kmsg'' \<mapsto> ''old'']\<rparr>"
  obtain s' where s': "erase_volume ?E CACHE_ROOT ?s = Some (0, s')" "files s' LOG_FILE = Some ''new''"
      "\<forall>name \<in> set [''last_kmsg'', ''command'']. \<forall>old. take 4 name = ''last'' \<and> name \<notin> {''last_log'', ''last_install''} \<and>
        files ?s (CACHE_LOG_DIR @ ''/'' @ name) = Some old \<longrightarrow> files s' (CACHE_LOG_DIR @ ''/'' @ name) = Some (take (2 ^ 19) old)"
    using erase_cache_keeps_logs [of ?E ?s "[''last_kmsg'', ''command'']" 0 "[TEMPORARY_LOG_FILE \<mapsto> ''new'']" "''new''"]
    by (auto simp: all_works_def no_nul_def paths)
  then have "files s' ''/cache/recovery/last_kmsg'' = Some ''old''" by (simp add: paths)
  then show ?thesis using s'(1,2) by blast
qed

end
