(* ===== verification/Spec2Isabelle.thy ===== *)
theory Spec2Isabelle
  imports Edify Keys ZipExtract Bsdiff Imgpatch Recovery
begin

text \<open>
  A verification development for the recovery program and its libraries.

  \<^bold>\<open>Edify\<close> models the edify expression interpreter (\<^verbatim>\<open>edify/expr.c\<close>).
\<close>

end
